(* ===== verification/Prelude.thy ===== *)
theory Prelude
  imports Complex_Main "HOL-Library.Word" "HOL-Library.AList" "HOL-Library.Multiset"
begin

text \<open>
  Shared vocabulary of the development: the Go types the program uses (bytes, fixed-width
  integers, durations and instants), the parts of the Go standard library it calls (FNV-1a,
  decimal printing, millisecond conversions, instant comparison) and the generic lemmas on
  lists and association lists the components share.

  \<^item> \<open>int64\<close> is the two's complement wrap-around of a Go \<open>int64\<close>; durations and \<open>TtlMs\<close>
    fields are integers in that range, and every multiplication of the source that may
    leave it is written with \<open>int64\<close>.
  \<^item> An instant is an integer count of nanoseconds whose zero is Go's zero \<open>time.Time\<close>.
    Go's \<open>time.Time\<close> spans hundreds of billions of years, so \<open>Add\<close> of an \<open>int64\<close>
    duration to a clock reading does not overflow and is integer addition.
  \<^item> A Go string is a byte sequence; it is modelled by \<open>string\<close>, whose characters are
    bytes, and \<open>bytes_of\<close> is the conversion \<open>[]byte(s)\<close>.
\<close>

unbundle bit_operations_syntax

named_theorems cache_defs \<open>definitions of operations unfolded by component proofs\<close>
named_theorems cache_inv \<open>facts that operations keep invariants\<close>

type_synonym byte = "8 word"
type_synonym bytes = "8 word list"
type_synonym u32 = "32 word"
type_synonym u64 = "64 word"
type_synonym instant = int
type_synonym duration = int

section \<open>Fixed-width signed integers, durations and instants\<close>

definition int64 :: "int \<Rightarrow> int" where
  "int64 x = signed_take_bit 63 x"

definition in_int64 :: "int \<Rightarrow> bool" where
  "in_int64 x \<longleftrightarrow> - (2 ^ 63) \<le> x \<and> x < 2 ^ 63"

text \<open>Go's integer division truncates towards zero.\<close>

definition go_quot :: "int \<Rightarrow> int \<Rightarrow> int" where
  "go_quot a b = sgn a * sgn b * (\<bar>a\<bar> div \<bar>b\<bar>)"

definition Millisecond :: duration where
  "Millisecond = 1000000"

text \<open>\<open>time.Duration(ms) * time.Millisecond\<close> and \<open>Duration.Milliseconds()\<close>.\<close>

definition dur_of_ms :: "int \<Rightarrow> duration" where
  "dur_of_ms ms = int64 (ms * Millisecond)"

definition Milliseconds :: "duration \<Rightarrow> int" where
  "Milliseconds d = go_quot d Millisecond"

definition IsZero :: "instant \<Rightarrow> bool" where
  "IsZero t \<longleftrightarrow> t = 0"

definition After :: "instant \<Rightarrow> instant \<Rightarrow> bool" where
  "After t u \<longleftrightarrow> u < t"

definition Before :: "instant \<Rightarrow> instant \<Rightarrow> bool" where
  "Before t u \<longleftrightarrow> t < u"

definition Add :: "instant \<Rightarrow> duration \<Rightarrow> instant" where
  "Add t d = t + d"

text \<open>\<open>Time.Sub\<close> saturates at the ends of the duration range.\<close>

definition Sub :: "instant \<Rightarrow> instant \<Rightarrow> duration" where
  "Sub t u = max (- (2 ^ 63)) (min (2 ^ 63 - 1) (t - u))"

lemma in_int64_Milliseconds: "in_int64 (Milliseconds (Sub t u))"
proof -
  define d where "d = Sub t u"
  have "\<bar>d\<bar> \<le> 2 ^ 63" by (simp add: d_def Sub_def)
  then have "\<bar>d\<bar> div 1000000 \<le> 9223372036855" by simp
  moreover have "\<bar>sgn d * (\<bar>d\<bar> div 1000000)\<bar> \<le> \<bar>d\<bar> div 1000000"
    by (auto simp: sgn_if pos_imp_zdiv_nonneg_iff)
  ultimately have "\<bar>sgn d * (\<bar>d\<bar> div 1000000)\<bar> \<le> 9223372036855" by simp
  then show ?thesis
    unfolding d_def [symmetric] by (simp add: Milliseconds_def in_int64_def go_quot_def Millisecond_def abs_le_iff)
qed

lemma int64_id: "in_int64 x \<Longrightarrow> int64 x = x"
  by (simp add: in_int64_def int64_def signed_take_bit_int_eq_self)

lemma int64_id_nonneg: "0 \<le> x \<Longrightarrow> x \<le> 2 ^ 62 \<Longrightarrow> int64 x = x"
  by (rule int64_id) (simp add: in_int64_def)

lemma int64_range: "in_int64 (int64 x)"
  using signed_take_bit_int_greater_eq_minus_exp [of 63 x]
    signed_take_bit_int_less_exp [of 63 x]
  by (simp add: in_int64_def int64_def)

lemma dur_of_ms_exact:
  assumes "0 \<le> ms" "ms \<le> 9223372036854"
  shows "dur_of_ms ms = ms * 1000000"
  unfolding dur_of_ms_def Millisecond_def
  by (rule int64_id) (use assms in \<open>simp add: in_int64_def\<close>)

lemma Milliseconds_nonneg: "0 \<le> d \<Longrightarrow> Milliseconds d = d div 1000000"
  by (cases "d = 0") (simp_all add: Milliseconds_def go_quot_def Millisecond_def)

lemma Milliseconds_of_ms:
  assumes "0 \<le> ms" "ms \<le> 9223372036854"
  shows "Milliseconds (dur_of_ms ms) = ms"
  using assms by (simp add: dur_of_ms_exact Milliseconds_nonneg)

lemma Milliseconds_below: "0 \<le> d \<Longrightarrow> d < 1000000 \<Longrightarrow> Milliseconds d = 0"
  by (simp add: Milliseconds_nonneg)

lemma unat_mod_less: "0 < n \<Longrightarrow> unat (a mod n) < unat n" for a n :: "'a :: len word"
  by (rule unat_mono) (rule word_mod_less_divisor)

lemma unat_word_of_int_le:
  assumes "0 \<le> n"
  shows "unat (word_of_int n :: 'a::len word) \<le> nat n"
proof -
  have "uint (word_of_int n :: 'a word) = n mod 2 ^ LENGTH('a)"
    by (rule uint_word_of_int)
  with assms have "uint (word_of_int n :: 'a word) \<le> n"
    by (simp add: zmod_le_nonneg_dividend)
  then show ?thesis by (simp only: unat_eq_nat_uint nat_mono)
qed

section \<open>Decimal printing\<close>

text \<open>\<open>fmt.Sprintf("%d", n)\<close> for a non-negative integer.\<close>

definition digit :: "nat \<Rightarrow> char" where
  "digit d = char_of (48 + d)"

fun fmt_d :: "nat \<Rightarrow> string" where
  "fmt_d n = (if n < 10 then [digit n] else fmt_d (n div 10) @ [digit (n mod 10)])"

declare fmt_d.simps [simp del]

lemma digit_inj: "a < 10 \<Longrightarrow> b < 10 \<Longrightarrow> digit a = digit b \<longleftrightarrow> a = b"
  by (auto simp: digit_def char_of_eq_iff take_bit_eq_mod)

lemma digit_range: "a < 10 \<Longrightarrow> of_char (digit a) \<in> {48..57::nat}"
  by (simp add: digit_def)

lemma fmt_d_nonempty [simp]: "fmt_d n \<noteq> []"
  by (subst fmt_d.simps) simp

lemma fmt_d_chars: "c \<in> set (fmt_d n) \<Longrightarrow> of_char c \<in> {48..57::nat}"
proof (induction n rule: fmt_d.induct)
  case (1 n)
  show ?case
  proof (cases "n < 10")
    case True
    with 1 show ?thesis using digit_range by (simp add: fmt_d.simps [of n])
  next
    case False
    with 1 show ?thesis using digit_range [of "n mod 10"]
      by (auto simp: fmt_d.simps [of n])
  qed
qed

lemma fmt_d_inj: "fmt_d m = fmt_d n \<Longrightarrow> m = n"
proof (induction m arbitrary: n rule: fmt_d.induct)
  case (1 m)
  have nonempty: "butlast (fmt_d k) = [] \<longleftrightarrow> k < 10" for k
    by (subst fmt_d.simps) simp
  from 1(2) have "m < 10 \<longleftrightarrow> n < 10" by (simp flip: nonempty)
  moreover have "last (fmt_d k) = digit (k mod 10)" for k
    by (subst fmt_d.simps) simp
  with 1(2) have "m mod 10 = n mod 10" by (metis digit_inj mod_less_divisor zero_less_numeral)
  moreover have "butlast (fmt_d k) = fmt_d (k div 10)" if "\<not> k < 10" for k
    using that by (subst fmt_d.simps) simp
  ultimately show ?case
    using 1 by (metis div_mult_mod_eq mod_less)
qed

text \<open>A number printed after a separator that is not a digit can be read back.\<close>

lemma fmt_d_suffix:
  assumes "a @ [c] @ fmt_d i = b @ [c] @ fmt_d j" "of_char c \<notin> {48..57::nat}"
  shows "a = b \<and> i = j"
proof -
  let ?P = "\<lambda>x. of_char x \<in> {48..57::nat}"
  have "takeWhile ?P (rev (x @ [c] @ fmt_d n)) = rev (fmt_d n)" for x n
  proof -
    have "takeWhile ?P (rev (fmt_d n) @ c # rev x) = rev (fmt_d n) @ takeWhile ?P (c # rev x)"
      by (rule takeWhile_append2) (simp only: set_rev fmt_d_chars)
    with assms(2) show ?thesis by simp
  qed
  then have "fmt_d i = fmt_d j" using assms(1) by (metis rev_rev_ident)
  with assms(1) show ?thesis by (auto dest: fmt_d_inj)
qed

section \<open>FNV-1a\<close>

definition bytes_of :: "string \<Rightarrow> bytes" where
  "bytes_of s = map of_char s"

text \<open>\<open>hash/fnv\<close>: \<open>New32a\<close>, \<open>New64a\<close>, \<open>Write\<close> and \<open>Sum\<close>. The state is the running sum.\<close>

definition fnv32a_init :: u32 where
  "fnv32a_init = 2166136261"

definition fnv32a_write :: "u32 \<Rightarrow> bytes \<Rightarrow> u32" where
  "fnv32a_write h bs = foldl (\<lambda>h b. (h XOR ucast b) * 16777619) h bs"

definition fnv64a_init :: u64 where
  "fnv64a_init = 14695981039346656037"

definition fnv64a_write :: "u64 \<Rightarrow> bytes \<Rightarrow> u64" where
  "fnv64a_write h bs = foldl (\<lambda>h b. (h XOR ucast b) * 1099511628211) h bs"

section \<open>Keeping first occurrences\<close>

fun nub :: "'a list \<Rightarrow> 'a list" where
  "nub [] = []"
| "nub (x # xs) = x # filter (\<lambda>y. y \<noteq> x) (nub xs)"

lemma set_nub [simp]: "set (nub xs) = set xs"
  by (induction xs) auto

lemma distinct_nub [simp]: "distinct (nub xs)"
  by (induction xs) auto

lemma nub_filter: "nub (filter P xs) = filter P (nub xs)"
  by (induction xs) (auto simp: conj_commute intro: filter_cong)

lemma find_filter_implied: "(\<And>x. P x \<Longrightarrow> Q x) \<Longrightarrow> find P (filter Q xs) = find P xs"
  by (induction xs) auto

lemma find_nub: "find P (nub xs) = find P xs"
proof (induction xs)
  case (Cons x xs)
  show ?case
  proof (cases "P x")
    case False
    then have "find P (filter (\<lambda>y. y \<noteq> x) (nub xs)) = find P (nub xs)"
      by (intro find_filter_implied) auto
    with Cons False show ?thesis by simp
  qed simp
qed simp

lemma find_map: "find P (map f xs) = map_option f (find (P \<circ> f) xs)"
  by (induction xs) auto

lemma find_append: "find P (xs @ ys) = (case find P xs of None \<Rightarrow> find P ys | Some y \<Rightarrow> Some y)"
  by (induction xs) auto

lemma hd_nub: "hd (nub xs) = hd xs"
  by (cases xs) auto

lemma nub_eq_Nil [simp]: "nub xs = [] \<longleftrightarrow> xs = []"
  by (cases xs) auto

section \<open>Loops over an index\<close>

text \<open>A loop that rewrites the cells of a slice one by one, and one that keeps the least value seen.\<close>

definition update_range :: "nat \<Rightarrow> (nat \<Rightarrow> 'a \<Rightarrow> 'a) \<Rightarrow> 'a list \<Rightarrow> 'a list" where
  "update_range n f t = foldl (\<lambda>t i. t[i := f i (t ! i)]) t [0..<n]"

lemma length_update_range [simp]: "length (update_range n f t) = length t"
  unfolding update_range_def by (induction n) simp_all

lemma nth_update_range [simp]:
  assumes "n \<le> length t" "i < length t"
  shows "update_range n f t ! i = (if i < n then f i (t ! i) else t ! i)"
  using assms(1) unfolding update_range_def
proof (induction n)
  case (Suc n)
  have "length (foldl (\<lambda>t i. t[i := f i (t ! i)]) t [0..<n]) = length t"
    using length_update_range [of n f t] by (simp only: update_range_def)
  with Suc assms(2) show ?case by (auto simp: nth_list_update less_Suc_eq)
qed simp

lemma word_less_Suc: "x \<noteq> - 1 \<Longrightarrow> x < x + 1" for x :: "'a :: len word"
proof -
  assume "x \<noteq> - 1"
  then have "1 + x \<noteq> 0" by (metis add.commute add_eq_0_iff)
  from unatSuc [OF this] show ?thesis by (simp add: word_less_nat_alt add.commute)
qed

lemma foldl_invariant:
  assumes "P a" "\<And>a x. x \<in> set xs \<Longrightarrow> P a \<Longrightarrow> P (f a x)"
  shows "P (foldl f a xs)"
  using assms by (induction xs arbitrary: a) simp_all

lemma foldl_least:
  fixes f :: "'a \<Rightarrow> 'b :: linorder"
  shows "foldl (\<lambda>m i. if f i < m then f i else m) a xs = Min (insert a (f ` set xs))"
proof (induction xs arbitrary: a)
  case (Cons x xs)
  have "Min (insert a (insert (f x) (f ` set xs))) = Min (insert (min a (f x)) (f ` set xs))"
    by (cases "set xs = {}") (simp_all add: min.assoc)
  moreover have "(if f x < a then f x else a) = min a (f x)" by (auto simp: min_def)
  ultimately show ?case by (simp add: Cons del: Min_insert)
qed simp

end
