(* ===== verification/Go_Map.thy ===== *)
theory Go_Map
  imports Prelude
begin

text \<open>
  Go maps. A map is an association list with distinct keys; reading, assigning and
  deleting a key are the operations of \<open>HOL-Library.AList\<close>. The contract the components
  rely on is the locale \<open>go_map\<close>, interpreted below on the association lists.

  Go leaves the order in which \<open>range\<close> visits a map unspecified. An operation of the
  source that ranges over a map takes the visiting order as an argument \<open>rng\<close>, and the
  locale \<open>range_order\<close> states the one thing the language promises: every entry is visited
  exactly once.
\<close>

type_synonym ('k, 'v) gomap = "('k \<times> 'v) list"

abbreviation gm_get :: "('k, 'v) gomap \<Rightarrow> 'k \<Rightarrow> 'v option" where
  "gm_get m k \<equiv> map_of m k"

abbreviation gm_put :: "'k \<Rightarrow> 'v \<Rightarrow> ('k, 'v) gomap \<Rightarrow> ('k, 'v) gomap" where
  "gm_put k v m \<equiv> AList.update k v m"

abbreviation gm_del :: "'k \<Rightarrow> ('k, 'v) gomap \<Rightarrow> ('k, 'v) gomap" where
  "gm_del k m \<equiv> AList.delete k m"

definition gm_inv :: "('k, 'v) gomap \<Rightarrow> bool" where
  "gm_inv m \<longleftrightarrow> distinct (map fst m)"

section \<open>The map contract\<close>

locale go_map =
  fixes get :: "'m \<Rightarrow> 'k \<Rightarrow> 'v option"
    and put :: "'k \<Rightarrow> 'v \<Rightarrow> 'm \<Rightarrow> 'm"
    and del :: "'k \<Rightarrow> 'm \<Rightarrow> 'm"
    and emp :: 'm
    and entries :: "'m \<Rightarrow> ('k \<times> 'v) list"
    and inv :: "'m \<Rightarrow> bool"
  assumes get_emp: "get emp k = None"
    and get_put: "inv m \<Longrightarrow> get (put k v m) = (get m)(k \<mapsto> v)"
    and get_del: "inv m \<Longrightarrow> get (del k m) = (get m)(k := None)"
    and entries_get: "inv m \<Longrightarrow> (k, v) \<in> set (entries m) \<longleftrightarrow> get m k = Some v"
    and entries_distinct: "inv m \<Longrightarrow> distinct (map fst (entries m))"
    and inv_emp: "inv emp"
    and inv_put: "inv m \<Longrightarrow> inv (put k v m)"
    and inv_del: "inv m \<Longrightarrow> inv (del k m)"
begin

lemma dom_get: "inv m \<Longrightarrow> dom (get m) = fst ` set (entries m)"
  by (auto simp: dom_def image_iff entries_get [symmetric]) (metis fst_conv)

lemma finite_dom_get: "inv m \<Longrightarrow> finite (dom (get m))"
  by (simp add: dom_get)

text \<open>Counting the entries with a property counts the keys that hold one.\<close>

lemma length_filter_entries:
  assumes "inv m"
  shows "length (filter P (entries m)) = card {k. \<exists>v. get m k = Some v \<and> P (k, v)}"
proof -
  have "distinct (map fst (filter P (entries m)))"
    using entries_distinct [OF assms] by (simp add: distinct_map_filter)
  then have "length (filter P (entries m)) = card (fst ` set (filter P (entries m)))"
    by (metis distinct_card length_map set_map)
  also have "fst ` set (filter P (entries m)) = {k. \<exists>v. get m k = Some v \<and> P (k, v)}"
    using entries_get [OF assms] by (force simp: image_iff)
  finally show ?thesis .
qed

lemma length_entries: "inv m \<Longrightarrow> length (entries m) = card (dom (get m))"
  using length_filter_entries [of m "\<lambda>_. True"] by (simp add: dom_def)

text \<open>Assigning the same value to a list of keys, one after the other.\<close>

lemma get_put_all:
  "inv m \<Longrightarrow> get (foldl (\<lambda>m k. put k v m) m ks) j = (if j \<in> set ks then Some v else get m j)"
  by (induction ks arbitrary: m) (auto simp: get_put inv_put)

lemma inv_put_all: "inv m \<Longrightarrow> inv (foldl (\<lambda>m k. put k v m) m ks)"
  by (induction ks arbitrary: m) (auto intro: inv_put)

end

interpretation alm: go_map map_of AList.update AList.delete "[]" "\<lambda>m. m" gm_inv
proof
  show "gm_inv m \<Longrightarrow> (k, v) \<in> set m \<longleftrightarrow> map_of m k = Some v" for m :: "('a \<times> 'b) list" and k v
    by (simp add: gm_inv_def)
qed (simp_all add: gm_inv_def distinct_update distinct_delete update_conv' delete_conv')

lemmas gm_simps [simp] = update_conv' delete_conv'
lemmas gm_intros [cache_inv] = alm.inv_emp alm.inv_put alm.inv_del

lemma gm_inv_Nil [simp]: "gm_inv []"
  by (rule alm.inv_emp)

lemma gm_del_shorter: "gm_get m k = Some v \<Longrightarrow> length (gm_del k m) < length m"
  by (induction m) (auto simp: le_imp_less_Suc AList.length_delete_le)

lemma gm_del_not_longer: "length (gm_del k m) \<le> length m"
  by (rule AList.length_delete_le)

lemma set_gm_put: "set (gm_put k v m) \<subseteq> insert (k, v) (set m)"
  by (induction m) auto

lemma set_gm_del: "set (gm_del k m) \<subseteq> set m"
  by (induction m) auto

lemma gm_keys_put: "fst ` set (gm_put k v m) = insert k (fst ` set m)"
  by (simp add: dom_update)

lemma gm_keys_del: "fst ` set (gm_del k m) = fst ` set m - {k}"
  by (metis delete_keys set_map set_removeAll)

section \<open>Ranging over a map\<close>

locale range_order =
  fixes rng :: "'a list \<Rightarrow> 'a list"
  assumes rng_perm: "mset (rng xs) = mset xs"
begin

lemma rng_set: "set (rng xs) = set xs"
  by (metis rng_perm set_mset_mset)

lemma rng_length: "length (rng xs) = length xs"
  by (metis rng_perm size_mset)

lemma rng_distinct: "distinct (map f (rng xs)) \<longleftrightarrow> distinct (map f xs)"
  by (metis mset_eq_imp_distinct_iff mset_map rng_perm)

lemma rng_filter_length: "length (filter P (rng xs)) = length (filter P xs)"
  by (metis mset_filter rng_perm size_mset)

end

interpretation rng_insertion: range_order "\<lambda>xs. xs"
  by unfold_locales simp

interpretation rng_reverse: range_order rev
  by unfold_locales simp

end
