(* ===== verification/Store.thy ===== *)
theory Store
  imports Go_Map "HOL-Library.While_Combinator"
begin

text \<open>
  The storage engine, \<open>internal/store/store.go\<close>: entries with an expiry instant, shards,
  the operation counters, and every operation of \<open>Store\<close>.

  Each call of \<open>time.Now()\<close> is an argument of the operation that makes it, in the order
  the code makes them. A shard's lock makes each of its critical sections atomic, so a
  critical section is one definition; \<open>Get\<close>, which gives up its read lock before it takes
  the write lock, is the two sections \<open>get_rlock\<close> and \<open>get_lock\<close>, and \<open>store_Get\<close> is
  their composition without interference.
\<close>

section \<open>Data\<close>

record Entry =
  eValue :: bytes
  eExpiresAt :: instant
  eCreatedAt :: instant

definition IsExpired :: "Entry \<Rightarrow> instant \<Rightarrow> bool" where
  "IsExpired e now = (if IsZero (eExpiresAt e) then False else After now (eExpiresAt e))"

record shard =
  items :: "(string, Entry) gomap"

record StoreStats =
  Hits :: u64
  Misses :: u64
  Sets :: u64
  Deletes :: u64
  Expirations :: u64

record Store =
  shards :: "shard list"
  shardMask :: u32
  stats :: StoreStats

definition zero_stats :: StoreStats where
  "zero_stats = \<lparr>Hits = 0, Misses = 0, Sets = 0, Deletes = 0, Expirations = 0\<rparr>"

definition incHits :: "StoreStats \<Rightarrow> StoreStats" where
  "incHits st = st\<lparr>Hits := Hits st + 1\<rparr>"

definition incMisses :: "StoreStats \<Rightarrow> StoreStats" where
  "incMisses st = st\<lparr>Misses := Misses st + 1\<rparr>"

definition incSets :: "StoreStats \<Rightarrow> StoreStats" where
  "incSets st = st\<lparr>Sets := Sets st + 1\<rparr>"

definition incDeletes :: "StoreStats \<Rightarrow> StoreStats" where
  "incDeletes st = st\<lparr>Deletes := Deletes st + 1\<rparr>"

definition incExpirations :: "StoreStats \<Rightarrow> StoreStats" where
  "incExpirations st = st\<lparr>Expirations := Expirations st + 1\<rparr>"

definition Snapshot :: "StoreStats \<Rightarrow> StoreStats" where
  "Snapshot st = \<lparr>Hits = Hits st, Misses = Misses st, Sets = Sets st,
     Deletes = Deletes st, Expirations = Expirations st\<rparr>"

section \<open>Construction\<close>

definition DefaultShardCount :: int where
  "DefaultShardCount = 256"

text \<open>
  The rounding loop \<open>for n < shardCount { n <<= 1 }\<close> on Go's 64-bit \<open>int\<close>; \<open>None\<close> when
  it does not end.
\<close>

definition round_up_pow2 :: "int \<Rightarrow> int option" where
  "round_up_pow2 shardCount = while_option (\<lambda>n. n < shardCount) (\<lambda>n. int64 (n * 2)) 1"

definition NewWithShards :: "int \<Rightarrow> Store option" where
  "NewWithShards shardCount0 =
     (let shardCount = (if shardCount0 \<le> 0 then DefaultShardCount else shardCount0)
      in map_option (\<lambda>n. \<lparr>shards = replicate (nat n) \<lparr>items = []\<rparr>,
           shardMask = word_of_int (n - 1), stats = zero_stats\<rparr>) (round_up_pow2 shardCount))"

definition store_New :: "Store option" where
  "store_New = NewWithShards DefaultShardCount"

section \<open>Operations\<close>

definition getShard :: "Store \<Rightarrow> string \<Rightarrow> nat" where
  "getShard s key = unat (fnv32a_write fnv32a_init (bytes_of key) AND shardMask s)"

abbreviation shard_items :: "Store \<Rightarrow> nat \<Rightarrow> (string, Entry) gomap" where
  "shard_items s i \<equiv> items (shards s ! i)"

text \<open>\<open>sh.items[key] = entry\<close> and \<open>delete(sh.items, key)\<close> on the key's shard.\<close>

definition put_entry :: "string \<Rightarrow> Entry \<Rightarrow> Store \<Rightarrow> Store" where
  "put_entry key e s =
     (let i = getShard s key
      in s\<lparr>shards := (shards s)[i := (shards s ! i)\<lparr>items := gm_put key e (shard_items s i)\<rparr>]\<rparr>)"

definition del_entry :: "string \<Rightarrow> Store \<Rightarrow> Store" where
  "del_entry key s =
     (let i = getShard s key
      in s\<lparr>shards := (shards s)[i := (shards s ! i)\<lparr>items := gm_del key (shard_items s i)\<rparr>]\<rparr>)"

abbreviation upd_stats :: "(StoreStats \<Rightarrow> StoreStats) \<Rightarrow> Store \<Rightarrow> Store" where
  "upd_stats f s \<equiv> s\<lparr>stats := f (stats s)\<rparr>"

datatype read_outcome = Absent | Stale | Live bytes

text \<open>The map read, the read-locked section of \<open>Get\<close>, and the write-locked section it may go on to.\<close>

definition lookup_entry :: "Store \<Rightarrow> string \<Rightarrow> Entry option" where
  "lookup_entry s key = gm_get (shard_items s (getShard s key)) key"

definition get_rlock :: "Store \<Rightarrow> string \<Rightarrow> instant \<Rightarrow> read_outcome" where
  "get_rlock s key now =
     (case lookup_entry s key of
        None \<Rightarrow> Absent
      | Some entry \<Rightarrow> if IsExpired entry now then Stale else Live (eValue entry))"

definition get_lock :: "Store \<Rightarrow> string \<Rightarrow> instant \<Rightarrow> Store" where
  "get_lock s key now =
     (case lookup_entry s key of
        None \<Rightarrow> s
      | Some e \<Rightarrow> if IsExpired e now then upd_stats incExpirations (del_entry key s) else s)"

definition store_Get :: "Store \<Rightarrow> string \<Rightarrow> instant \<Rightarrow> instant \<Rightarrow> Store \<times> bytes \<times> bool" where
  "store_Get s key now1 now2 =
     (case get_rlock s key now1 of
        Absent \<Rightarrow> (upd_stats incMisses s, [], False)
      | Stale \<Rightarrow> (upd_stats incMisses (get_lock s key now2), [], False)
      | Live val \<Rightarrow> (upd_stats incHits s, val, True))"

definition mk_entry :: "bytes \<Rightarrow> duration \<Rightarrow> instant \<Rightarrow> instant \<Rightarrow> Entry" where
  "mk_entry value ttl now1 now2 =
     \<lparr>eValue = value, eExpiresAt = (if ttl > 0 then Add now2 ttl else 0), eCreatedAt = now1\<rparr>"

definition store_Set :: "Store \<Rightarrow> string \<Rightarrow> bytes \<Rightarrow> duration \<Rightarrow> instant \<Rightarrow> instant \<Rightarrow> Store" where
  "store_Set s key value ttl now1 now2 =
     upd_stats incSets (put_entry key (mk_entry value ttl now1 now2) s)"

definition store_Delete :: "Store \<Rightarrow> string \<Rightarrow> Store \<times> bool" where
  "store_Delete s key =
     (if lookup_entry s key \<noteq> None then (upd_stats incDeletes (del_entry key s), True)
      else (s, False))"

definition store_Expire :: "Store \<Rightarrow> string \<Rightarrow> duration \<Rightarrow> instant \<Rightarrow> instant \<Rightarrow> Store \<times> bool" where
  "store_Expire s key ttl now1 now2 =
     (case lookup_entry s key of
        None \<Rightarrow> (s, False)
      | Some entry \<Rightarrow>
          if IsExpired entry now1 then (s, False)
          else (put_entry key
                  (entry\<lparr>eExpiresAt := (if ttl > 0 then Add now2 ttl else 0)\<rparr>) s, True))"

definition listed :: "instant \<Rightarrow> Entry \<Rightarrow> bool" where
  "listed now v \<longleftrightarrow> IsZero (eExpiresAt v) \<or> Before now (eExpiresAt v)"

text \<open>
  The scans. \<open>rng i\<close> is the order in which \<open>range\<close> visits the map of shard \<open>i\<close>.
\<close>

type_synonym scan_order = "nat \<Rightarrow> (string, Entry) gomap \<Rightarrow> (string, Entry) gomap"

definition store_Keys :: "scan_order \<Rightarrow> Store \<Rightarrow> instant \<Rightarrow> string list" where
  "store_Keys rng s now =
     concat (map (\<lambda>i. map fst (filter (\<lambda>(k, v). listed now v) (rng i (shard_items s i))))
       [0..<length (shards s)])"

definition store_Len :: "Store \<Rightarrow> instant \<Rightarrow> nat" where
  "store_Len s now =
     sum_list (map (\<lambda>sh. length (filter (\<lambda>(k, v). listed now v) (items sh))) (shards s))"

text \<open>
  \<open>ForEach\<close>: the callback \<open>fn\<close> carries its own state and returns whether to go on.
  \<open>each_item\<close> is the loop over one shard, \<open>each_shard\<close> the loop over the shards; their
  boolean tells whether the iteration was not stopped.
\<close>

definition remaining_ttl :: "instant \<Rightarrow> Entry \<Rightarrow> duration" where
  "remaining_ttl now v = (if IsZero (eExpiresAt v) then 0 else Sub (eExpiresAt v) now)"

fun each_item :: "instant \<Rightarrow> ('s \<Rightarrow> string \<Rightarrow> bytes \<Rightarrow> duration \<Rightarrow> 's \<times> bool) \<Rightarrow>
    (string \<times> Entry) list \<Rightarrow> 's \<Rightarrow> 's \<times> bool" where
  "each_item now fn [] st = (st, True)"
| "each_item now fn ((k, v) # kvs) st =
     (if \<not> IsZero (eExpiresAt v) \<and> After now (eExpiresAt v) then each_item now fn kvs st
      else case fn st k (eValue v) (remaining_ttl now v) of
             (st', go_on) \<Rightarrow> if go_on then each_item now fn kvs st' else (st', False))"

fun each_shard :: "scan_order \<Rightarrow> instant \<Rightarrow> ('s \<Rightarrow> string \<Rightarrow> bytes \<Rightarrow> duration \<Rightarrow> 's \<times> bool) \<Rightarrow>
    nat \<Rightarrow> shard list \<Rightarrow> 's \<Rightarrow> 's \<times> bool" where
  "each_shard rng now fn i [] st = (st, True)"
| "each_shard rng now fn i (sh # shs) st =
     (case each_item now fn (rng i (items sh)) st of
        (st', go_on) \<Rightarrow> if go_on then each_shard rng now fn (Suc i) shs st' else (st', False))"

definition ForEach :: "scan_order \<Rightarrow> Store \<Rightarrow> instant \<Rightarrow>
    ('s \<Rightarrow> string \<Rightarrow> bytes \<Rightarrow> duration \<Rightarrow> 's \<times> bool) \<Rightarrow> 's \<Rightarrow> 's" where
  "ForEach rng s now fn st = fst (each_shard rng now fn 0 (shards s) st)"

definition store_Stats :: "Store \<Rightarrow> StoreStats" where
  "store_Stats s = Snapshot (stats s)"

definition ShardStats :: "Store \<Rightarrow> nat list" where
  "ShardStats s = map (\<lambda>sh. length (items sh)) (shards s)"

section \<open>The invariant and the flat view\<close>

text \<open>
  Every key sits in the shard its hash selects and in no other, and the selected index is
  in range; \<open>lookup_entry\<close> then is the map the store represents, and the store meets the
  contract of a Go map.
\<close>

definition shard_ok :: "Store \<Rightarrow> nat \<Rightarrow> bool" where
  "shard_ok s i \<longleftrightarrow> gm_inv (shard_items s i) \<and> (\<forall>k \<in> fst ` set (shard_items s i). getShard s k = i)"

definition store_inv :: "Store \<Rightarrow> bool" where
  "store_inv s \<longleftrightarrow> unat (shardMask s) < length (shards s) \<and> (\<forall>i < length (shards s). shard_ok s i)"

definition all_entries :: "Store \<Rightarrow> (string \<times> Entry) list" where
  "all_entries s = concat (map items (shards s))"

definition empty_store :: Store where
  "empty_store = \<lparr>shards = replicate 256 \<lparr>items = []\<rparr>, shardMask = 255, stats = zero_stats\<rparr>"

lemma getShard_le_mask: "getShard s k \<le> unat (shardMask s)"
  unfolding getShard_def by (rule word_and_le1 [THEN word_le_nat_alt [THEN iffD1]])

lemma getShard_lt: "store_inv s \<Longrightarrow> getShard s k < length (shards s)"
  using getShard_le_mask [of s k] by (simp add: store_inv_def)

lemma getShard_cong [simp]:
  "getShard (s\<lparr>shards := x\<rparr>) k = getShard s k"
  "getShard (s\<lparr>stats := y\<rparr>) k = getShard s k"
  by (simp_all add: getShard_def)

lemma getShard_put [simp]:
  "getShard (put_entry k e s) j = getShard s j"
  "getShard (del_entry k s) j = getShard s j"
  by (simp_all add: put_entry_def del_entry_def Let_def)

lemma upd_stats_view [simp]:
  "lookup_entry (s\<lparr>stats := y\<rparr>) k = lookup_entry s k"
  "store_inv (s\<lparr>stats := y\<rparr>) = store_inv s"
  "all_entries (s\<lparr>stats := y\<rparr>) = all_entries s"
  by (simp_all add: lookup_entry_def store_inv_def shard_ok_def all_entries_def)

lemma shard_okD: "shard_ok s i \<Longrightarrow> (k, e) \<in> set (shard_items s i) \<Longrightarrow> getShard s k = i"
  by (force simp: shard_ok_def)

lemma shard_inv_update:
  assumes inv: "store_inv s" and i: "i < length (shards s)" and m: "gm_inv m"
    and keys: "\<And>k. k \<in> fst ` set m \<Longrightarrow> getShard s k = i"
  shows "store_inv (s\<lparr>shards := (shards s)[i := (shards s ! i)\<lparr>items := m\<rparr>]\<rparr>)"
proof -
  have "shard_ok (s\<lparr>shards := (shards s)[i := (shards s ! i)\<lparr>items := m\<rparr>]\<rparr>) j"
    if "j < length (shards s)" for j
    using that inv i m keys by (cases "j = i") (simp_all add: store_inv_def shard_ok_def)
  with inv show ?thesis by (simp add: store_inv_def)
qed

lemma shard_ok_at: "store_inv s \<Longrightarrow> shard_ok s (getShard s k)"
  using getShard_lt [of s k] by (simp add: store_inv_def)

lemma put_entry_inv [cache_inv]:
  assumes "store_inv s"
  shows "store_inv (put_entry k e s)"
  unfolding put_entry_def Let_def
proof (rule shard_inv_update [OF assms getShard_lt [OF assms]])
  note ok = shard_ok_at [OF assms, of k]
  show "gm_inv (gm_put k e (shard_items s (getShard s k)))"
    using ok by (simp add: shard_ok_def alm.inv_put)
  show "getShard s j = getShard s k"
    if "j \<in> fst ` set (gm_put k e (shard_items s (getShard s k)))" for j
    using that ok unfolding gm_keys_put by (auto simp: shard_ok_def)
qed

lemma del_entry_inv [cache_inv]:
  assumes "store_inv s"
  shows "store_inv (del_entry k s)"
  unfolding del_entry_def Let_def
proof (rule shard_inv_update [OF assms getShard_lt [OF assms]])
  note ok = shard_ok_at [OF assms, of k]
  show "gm_inv (gm_del k (shard_items s (getShard s k)))"
    using ok by (simp add: shard_ok_def alm.inv_del)
  show "getShard s j = getShard s k"
    if "j \<in> fst ` set (gm_del k (shard_items s (getShard s k)))" for j
    using that ok unfolding gm_keys_del by (auto simp: shard_ok_def)
qed

lemma lookup_put: "store_inv s \<Longrightarrow> lookup_entry (put_entry k e s) = (lookup_entry s)(k \<mapsto> e)"
  by (rule ext)
    (use getShard_lt [of s k] in \<open>auto simp: lookup_entry_def put_entry_def Let_def nth_list_update\<close>)

lemma lookup_del: "store_inv s \<Longrightarrow> lookup_entry (del_entry k s) = (lookup_entry s)(k := None)"
  by (rule ext)
    (use getShard_lt [of s k] in \<open>auto simp: lookup_entry_def del_entry_def Let_def nth_list_update\<close>)

lemma in_all_entries:
  assumes "store_inv s"
  shows "(k, e) \<in> set (all_entries s) \<longleftrightarrow> lookup_entry s k = Some e"
proof
  assume "(k, e) \<in> set (all_entries s)"
  then obtain i where i: "i < length (shards s)" "(k, e) \<in> set (shard_items s i)"
    by (auto simp: all_entries_def in_set_conv_nth [of _ "shards s"])
  with assms have "shard_ok s i" by (simp add: store_inv_def)
  with i show "lookup_entry s k = Some e"
    by (force simp: shard_ok_def lookup_entry_def gm_inv_def)
next
  assume "lookup_entry s k = Some e"
  then have "(k, e) \<in> set (shard_items s (getShard s k))"
    by (simp add: lookup_entry_def map_of_SomeD)
  with getShard_lt [OF assms, of k] show "(k, e) \<in> set (all_entries s)"
    by (auto simp: all_entries_def)
qed

lemma distinct_concat_parts:
  assumes "\<And>i. i < length xss \<Longrightarrow> distinct (xss ! i)"
    and "\<And>i j x. i < j \<Longrightarrow> j < length xss \<Longrightarrow> x \<in> set (xss ! i) \<Longrightarrow> x \<notin> set (xss ! j)"
  shows "distinct (concat xss)"
  using assms
proof (induction xss)
  case Nil
  then show ?case by simp
next
  case (Cons xs xss)
  have "distinct (concat xss)"
    by (rule Cons.IH) (use Cons.prems(1) [of "Suc _"] Cons.prems(2) [of "Suc _" "Suc _"] in auto)
  moreover have "x \<notin> set (concat xss)" if "x \<in> set xs" for x
    using Cons.prems(2) [of 0 "Suc _" x] that by (auto simp: in_set_conv_nth)
  moreover have "distinct xs" using Cons.prems(1) [of 0] by simp
  ultimately show ?case by auto
qed

lemma distinct_all_entries:
  assumes "store_inv s"
  shows "distinct (map fst (all_entries s))"
  unfolding all_entries_def map_concat map_map
proof (rule distinct_concat_parts)
  show "distinct (map (map fst \<circ> items) (shards s) ! i)"
    if "i < length (map (map fst \<circ> items) (shards s))" for i
    using that assms by (simp add: store_inv_def shard_ok_def gm_inv_def)
  show "x \<notin> set (map (map fst \<circ> items) (shards s) ! j)"
    if "i < j" "j < length (map (map fst \<circ> items) (shards s))"
      "x \<in> set (map (map fst \<circ> items) (shards s) ! i)" for i j x
    using that assms shard_okD [of s i x] shard_okD [of s j x] by (auto simp: store_inv_def)
qed

lemma empty_store_inv: "store_inv empty_store"
  by (simp add: store_inv_def shard_ok_def empty_store_def)

lemma lookup_empty: "lookup_entry empty_store k = None"
  using getShard_lt [OF empty_store_inv, of k] by (simp add: lookup_entry_def empty_store_def)

interpretation sm: go_map lookup_entry put_entry del_entry empty_store all_entries store_inv
  by unfold_locales
    (simp_all add: lookup_empty lookup_put lookup_del in_all_entries distinct_all_entries
      empty_store_inv put_entry_inv del_entry_inv)

section \<open>Effect of each operation on the flat view\<close>

lemma get_lock_inv [cache_inv]: "store_inv s \<Longrightarrow> store_inv (get_lock s k now)"
  by (auto simp: get_lock_def del_entry_inv split: option.split)

lemma store_Set_inv [cache_inv]: "store_inv s \<Longrightarrow> store_inv (store_Set s k v ttl t1 t2)"
  by (simp add: store_Set_def put_entry_inv)

lemma store_Get_inv [cache_inv]: "store_inv s \<Longrightarrow> store_inv (fst (store_Get s k t1 t2))"
  by (auto simp: store_Get_def get_lock_inv split: read_outcome.split)

lemma store_Delete_inv [cache_inv]: "store_inv s \<Longrightarrow> store_inv (fst (store_Delete s k))"
  by (simp add: store_Delete_def del_entry_inv)

lemma store_Expire_inv [cache_inv]: "store_inv s \<Longrightarrow> store_inv (fst (store_Expire s k ttl t1 t2))"
  by (auto simp: store_Expire_def put_entry_inv split: option.split)

definition drop_expired :: "(string \<rightharpoonup> Entry) \<Rightarrow> string \<Rightarrow> instant \<Rightarrow> (string \<rightharpoonup> Entry)" where
  "drop_expired m k now =
     (case m k of None \<Rightarrow> m | Some e \<Rightarrow> if IsExpired e now then m(k := None) else m)"

definition live_value :: "(string \<rightharpoonup> Entry) \<Rightarrow> string \<Rightarrow> instant \<Rightarrow> bytes option" where
  "live_value m k now =
     (case m k of None \<Rightarrow> None | Some e \<Rightarrow> if IsExpired e now then None else Some (eValue e))"

lemma view_Set: "store_inv s \<Longrightarrow>
    lookup_entry (store_Set s k v ttl t1 t2) = (lookup_entry s)(k \<mapsto> mk_entry v ttl t1 t2)"
  by (rule ext) (simp add: store_Set_def lookup_put)

lemma view_get_lock: "store_inv s \<Longrightarrow>
    lookup_entry (get_lock s k now) = drop_expired (lookup_entry s) k now"
  by (rule ext) (auto simp: get_lock_def drop_expired_def lookup_del split: option.split)

lemma view_Delete: "store_inv s \<Longrightarrow>
    lookup_entry (fst (store_Delete s k)) = (lookup_entry s)(k := None)"
  by (rule ext) (auto simp: store_Delete_def lookup_del)

lemma view_Expire: "store_inv s \<Longrightarrow>
    lookup_entry (fst (store_Expire s k ttl t1 t2)) =
      (case lookup_entry s k of
         None \<Rightarrow> lookup_entry s
       | Some e \<Rightarrow> if IsExpired e t1 then lookup_entry s
                  else (lookup_entry s)(k \<mapsto> e\<lparr>eExpiresAt := (if ttl > 0 then Add t2 ttl else 0)\<rparr>))"
  by (auto simp: store_Expire_def lookup_put split: option.split)

lemma get_rlock_live: "get_rlock s k now = Live v \<longleftrightarrow> live_value (lookup_entry s) k now = Some v"
  by (auto simp: get_rlock_def live_value_def split: option.split)

lemma get_rlock_stale:
  "get_rlock s k now = Stale \<longleftrightarrow> (\<exists>e. lookup_entry s k = Some e \<and> IsExpired e now)"
  by (auto simp: get_rlock_def split: option.split)

lemma snd_store_Get:
  "snd (store_Get s k t1 t2) =
     (case live_value (lookup_entry s) k t1 of None \<Rightarrow> ([], False) | Some v \<Rightarrow> (v, True))"
  by (auto simp: store_Get_def get_rlock_def live_value_def split: option.split)

lemma view_Get: "store_inv s \<Longrightarrow> t1 \<le> t2 \<Longrightarrow>
    lookup_entry (fst (store_Get s k t1 t2)) = drop_expired (lookup_entry s) k t1"
  by (rule ext) (auto simp: store_Get_def get_rlock_def drop_expired_def view_get_lock IsExpired_def
      After_def split: option.split)

lemma live_value_mono:
  "t \<le> u \<Longrightarrow> live_value m k u = Some v \<Longrightarrow> live_value m k t = Some v"
  by (auto simp: live_value_def IsExpired_def After_def split: option.splits if_splits)

lemma drop_expired_live:
  "t \<le> u \<Longrightarrow> live_value (drop_expired m k t) j u = live_value m j u"
  by (auto simp: live_value_def drop_expired_def IsExpired_def After_def split: option.splits)

lemma live_value_mk_entry:
  "0 \<le> t2 \<Longrightarrow> live_value (m(k \<mapsto> mk_entry v ttl t1 t2)) k t3 =
     (if 0 < ttl \<and> t2 + ttl < t3 then None else Some v)"
  by (simp add: live_value_def mk_entry_def IsExpired_def IsZero_def After_def Add_def)

lemma live_value_at:
  "m k = Some (mk_entry v ttl t1 t2) \<Longrightarrow> 0 \<le> t2 \<Longrightarrow>
     live_value m k t3 = (if 0 < ttl \<and> t2 + ttl < t3 then None else Some v)"
  by (simp add: live_value_def mk_entry_def IsExpired_def IsZero_def After_def Add_def)

lemma live_value_other [simp]: "j \<noteq> k \<Longrightarrow> live_value (m(k := x)) j t = live_value m j t"
  by (simp add: live_value_def)

section \<open>The contract of a key-value store\<close>

text \<open>
  What the store promises the components that hold a pointer to it: a view of its live
  values, writes that show in the view and nowhere else, reads that answer from it.
\<close>

locale kv_store =
  fixes view :: "'st \<Rightarrow> string \<rightharpoonup> Entry"
    and set_op :: "'st \<Rightarrow> string \<Rightarrow> bytes \<Rightarrow> duration \<Rightarrow> instant \<Rightarrow> instant \<Rightarrow> 'st"
    and get_op :: "'st \<Rightarrow> string \<Rightarrow> instant \<Rightarrow> instant \<Rightarrow> 'st \<times> bytes \<times> bool"
    and delete_op :: "'st \<Rightarrow> string \<Rightarrow> 'st \<times> bool"
    and inv :: "'st \<Rightarrow> bool"
  assumes set_view: "inv s \<Longrightarrow> view (set_op s k v ttl t1 t2) = (view s)(k \<mapsto> mk_entry v ttl t1 t2)"
    and get_reply: "inv s \<Longrightarrow> snd (get_op s k t1 t2) =
      (case live_value (view s) k t1 of None \<Rightarrow> ([], False) | Some v \<Rightarrow> (v, True))"
    and get_view: "inv s \<Longrightarrow> t1 \<le> t2 \<Longrightarrow> view (fst (get_op s k t1 t2)) = drop_expired (view s) k t1"
    and delete_view: "inv s \<Longrightarrow> view (fst (delete_op s k)) = (view s)(k := None)"
    and delete_reply: "inv s \<Longrightarrow> snd (delete_op s k) \<longleftrightarrow> view s k \<noteq> None"
    and set_inv: "inv s \<Longrightarrow> inv (set_op s k v ttl t1 t2)"
    and get_inv: "inv s \<Longrightarrow> inv (fst (get_op s k t1 t2))"
    and delete_inv: "inv s \<Longrightarrow> inv (fst (delete_op s k))"
begin

lemma get_after_set:
  assumes "inv s" "0 \<le> t2"
  shows "snd (get_op (set_op s k v ttl t1 t2) k t3 t4) =
    (if 0 < ttl \<and> t2 + ttl < t3 then ([], False) else (v, True))"
  using assms by (simp add: get_reply set_inv set_view live_value_mk_entry)

lemma get_after_set_other:
  "inv s \<Longrightarrow> j \<noteq> k \<Longrightarrow>
    snd (get_op (set_op s k v ttl t1 t2) j t3 t4) = snd (get_op s j t3 t4)"
  by (simp add: get_reply set_inv set_view)

lemma get_after_delete: "inv s \<Longrightarrow> snd (get_op (fst (delete_op s k)) k t1 t2) = ([], False)"
  by (simp add: get_reply delete_inv delete_view live_value_def)

lemma get_after_get:
  assumes "inv s" "t1 \<le> t2" "t1 \<le> t3"
  shows "snd (get_op (fst (get_op s k t1 t2)) j t3 t4) = snd (get_op s j t3 t4)"
  using assms by (simp add: get_reply get_inv get_view drop_expired_live)

text \<open>Writing one value under a list of keys, the \<open>i\<close>-th write reading the clock at \<open>c i\<close>.\<close>

lemma set_all_inv:
  "inv s \<Longrightarrow> inv (foldl (\<lambda>s (k, a, b). set_op s k v ttl a b) s ks)"
  by (induction ks arbitrary: s) (auto intro: set_inv)

lemma set_all_view_other:
  "inv s \<Longrightarrow> j \<notin> fst ` set ks \<Longrightarrow>
    view (foldl (\<lambda>s (k, a, b). set_op s k v ttl a b) s ks) j = view s j"
  by (induction ks arbitrary: s) (auto simp: set_view set_inv)

lemma set_all_view:
  assumes "inv s" "distinct (map fst ks)" "(k, a, b) \<in> set ks"
  shows "view (foldl (\<lambda>s (k, a, b). set_op s k v ttl a b) s ks) k = Some (mk_entry v ttl a b)"
  using assms
proof (induction ks arbitrary: s)
  case Nil
  then show ?case by simp
next
  case (Cons x ks)
  obtain k' a' b' where x: "x = (k', a', b')" by (cases x)
  note inv' = set_inv [OF Cons.prems(1), of k' v ttl a' b']
  show ?case
  proof (cases "(k, a, b) = x")
    case True
    with Cons.prems x have "k \<notin> fst ` set ks" by force
    with True x show ?thesis
      using set_all_view_other [OF inv', of k ks] by (simp add: set_view [OF Cons.prems(1)])
  next
    case False
    with Cons.prems x show ?thesis using Cons.IH [OF inv'] by auto
  qed
qed

end

interpretation st: kv_store lookup_entry store_Set store_Get store_Delete store_inv
proof
  show "snd (store_Delete s k) \<longleftrightarrow> lookup_entry s k \<noteq> None" for s k
    by (simp add: store_Delete_def)
qed (simp_all add: view_Set snd_store_Get view_Get view_Delete cache_inv)

end
