(* ===== verification/Store_Correct.thy ===== *)
theory Store_Correct
  imports Store
begin

text \<open>
  Correctness of the storage engine: the sharded store against a flat map from keys to
  entries, section by section and for every interleaving of critical sections; the round
  trip of \<open>Set\<close> and \<open>Get\<close>; the scans; construction.
\<close>

section \<open>Critical sections and their interleavings\<close>

text \<open>
  One constructor per critical section of the operations: the read-locked and the
  write-locked section of \<open>Get\<close>, and the single sections of \<open>Set\<close>, \<open>Delete\<close> and
  \<open>Expire\<close>. A concurrent execution is a sequence of them, in the order the shard locks
  serialise them.
\<close>

datatype store_op =
    ReadSec string instant
  | EvictSec string instant
  | SetSec string bytes duration instant instant
  | DeleteSec string
  | ExpireSec string duration instant instant

datatype store_reply = Value_reply "bytes option" | Bool_reply bool | Unit_reply

fun exec_section :: "Store \<Rightarrow> store_op \<Rightarrow> Store \<times> store_reply" where
  "exec_section s (ReadSec k now) =
     (case get_rlock s k now of
        Absent \<Rightarrow> (upd_stats incMisses s, Value_reply None)
      | Stale \<Rightarrow> (s, Value_reply None)
      | Live v \<Rightarrow> (upd_stats incHits s, Value_reply (Some v)))"
| "exec_section s (EvictSec k now) = (upd_stats incMisses (get_lock s k now), Unit_reply)"
| "exec_section s (SetSec k v ttl t1 t2) = (store_Set s k v ttl t1 t2, Unit_reply)"
| "exec_section s (DeleteSec k) = apsnd Bool_reply (store_Delete s k)"
| "exec_section s (ExpireSec k ttl t1 t2) = apsnd Bool_reply (store_Expire s k ttl t1 t2)"

fun exec_sections :: "Store \<Rightarrow> store_op list \<Rightarrow> Store \<times> store_reply list" where
  "exec_sections s [] = (s, [])"
| "exec_sections s (x # xs) =
     (case exec_section s x of (s', r) \<Rightarrow> apsnd (Cons r) (exec_sections s' xs))"

text \<open>The specification: the same sections on one flat map, with no shards, hashing or counters.\<close>

fun spec_section :: "(string \<rightharpoonup> Entry) \<Rightarrow> store_op \<Rightarrow> (string \<rightharpoonup> Entry) \<times> store_reply" where
  "spec_section m (ReadSec k now) = (m, Value_reply (live_value m k now))"
| "spec_section m (EvictSec k now) = (drop_expired m k now, Unit_reply)"
| "spec_section m (SetSec k v ttl t1 t2) = (m(k \<mapsto> mk_entry v ttl t1 t2), Unit_reply)"
| "spec_section m (DeleteSec k) = (m(k := None), Bool_reply (m k \<noteq> None))"
| "spec_section m (ExpireSec k ttl t1 t2) =
     (case m k of
        None \<Rightarrow> (m, Bool_reply False)
      | Some e \<Rightarrow>
          if IsExpired e t1 then (m, Bool_reply False)
          else (m(k \<mapsto> e\<lparr>eExpiresAt := (if ttl > 0 then Add t2 ttl else 0)\<rparr>), Bool_reply True))"

fun spec_sections :: "(string \<rightharpoonup> Entry) \<Rightarrow> store_op list \<Rightarrow> (string \<rightharpoonup> Entry) \<times> store_reply list" where
  "spec_sections m [] = (m, [])"
| "spec_sections m (x # xs) =
     (case spec_section m x of (m', r) \<Rightarrow> apsnd (Cons r) (spec_sections m' xs))"

lemma exec_section_inv: "store_inv s \<Longrightarrow> store_inv (fst (exec_section s x))"
  by (cases x) (auto simp: cache_inv split: read_outcome.split)

lemma exec_section_refines:
  assumes "store_inv s"
  shows "apfst lookup_entry (exec_section s x) = spec_section (lookup_entry s) x"
proof (cases x)
  case (ReadSec k now)
  then show ?thesis by (auto simp: get_rlock_def live_value_def split: option.split)
next
  case (EvictSec k now)
  then show ?thesis using assms by (simp add: view_get_lock fun_eq_iff)
next
  case (SetSec k v ttl t1 t2)
  then show ?thesis using assms by (simp add: view_Set)
next
  case (DeleteSec k)
  then show ?thesis using st.delete_view [OF assms] st.delete_reply [OF assms]
    by (simp add: prod_eq_iff)
next
  case (ExpireSec k ttl t1 t2)
  have "snd (store_Expire s k ttl t1 t2) \<longleftrightarrow>
      (\<exists>e. lookup_entry s k = Some e \<and> \<not> IsExpired e t1)"
    by (auto simp: store_Expire_def split: option.split)
  with ExpireSec show ?thesis using view_Expire [OF assms]
    by (auto simp: prod_eq_iff split: option.split)
qed

lemma exec_sections_inv: "store_inv s \<Longrightarrow> store_inv (fst (exec_sections s xs))"
proof (induction xs arbitrary: s)
  case (Cons x xs)
  then show ?case using exec_section_inv [of s x] by (auto split: prod.split)
qed simp

lemma exec_sections_refines:
  "store_inv s \<Longrightarrow> apfst lookup_entry (exec_sections s xs) = spec_sections (lookup_entry s) xs"
proof (induction xs arbitrary: s)
  case (Cons x xs)
  obtain s' r where step: "exec_section s x = (s', r)" by fastforce
  have "store_inv s'" using exec_section_inv [OF Cons.prems, of x] step by simp
  then have IH: "spec_sections (lookup_entry s') xs = apfst lookup_entry (exec_sections s' xs)"
    by (rule Cons.IH [symmetric])
  have "spec_section (lookup_entry s) x = (lookup_entry s', r)"
    using exec_section_refines [OF Cons.prems, of x] step by simp
  with step IH show ?case by (cases "exec_sections s' xs") simp
qed simp

text \<open>
  C9. The sharded store refines a flat map: from any well-formed store, every sequence of
  critical sections, in whatever order the locks serialise them, gives the same replies and
  the same resulting map as the sections run on one unsharded map; and the store stays
  well-formed.
\<close>

theorem store_refines_flat_map:
  assumes "store_inv s"
  shows "apfst lookup_entry (exec_sections s xs) = spec_sections (lookup_entry s) xs \<and>
    store_inv (fst (exec_sections s xs))"
  using assms by (simp add: exec_sections_refines exec_sections_inv)

theorem store_refines_flat_map_witness:
  "store_inv empty_store \<and>
   snd (exec_sections empty_store
     [SetSec ''a'' [1] 10 5 5, ReadSec ''a'' 15, ReadSec ''a'' 16, EvictSec ''a'' 17, DeleteSec ''a''])
   = [Unit_reply, Value_reply (Some [1]), Value_reply None, Unit_reply, Bool_reply False]"
proof -
  let ?xs = "[SetSec ''a'' [1] 10 5 5, ReadSec ''a'' 15, ReadSec ''a'' 16, EvictSec ''a'' 17, DeleteSec ''a'']"
  have "snd (exec_sections empty_store ?xs) = snd (spec_sections (lookup_entry empty_store) ?xs)"
    using store_refines_flat_map [OF empty_store_inv, of ?xs] by (metis snd_apfst)
  also have "\<dots> = [Unit_reply, Value_reply (Some [1]), Value_reply None, Unit_reply, Bool_reply False]"
    by (simp add: live_value_def drop_expired_def mk_entry_def IsExpired_def IsZero_def After_def Add_def)
  finally show ?thesis using empty_store_inv by simp
qed

section \<open>Set, Get and the double check\<close>

text \<open>
  C17. A \<open>Get\<close> after a \<open>Set\<close> of the same key returns the value written for as long as its
  TTL lasts, the instant of expiry included, and a miss afterwards; a non-positive TTL never
  expires; and a \<open>Get\<close> of another key answers as if the \<open>Set\<close> had not happened.
\<close>

theorem store_Set_Get:
  assumes "store_inv s" "0 \<le> t2"
  shows "snd (store_Get (store_Set s k v ttl t1 t2) j t3 t4) =
    (if j \<noteq> k then snd (store_Get s j t3 t4)
     else if 0 < ttl \<and> t2 + ttl < t3 then ([], False) else (v, True))"
  using assms by (simp add: st.get_after_set st.get_after_set_other)

theorem store_Set_Get_witness:
  "snd (store_Get (store_Set empty_store ''k'' [7, 8] 30 100 100) ''k'' 130 131) = ([7, 8], True) \<and>
   snd (store_Get (store_Set empty_store ''k'' [7, 8] 30 100 100) ''k'' 131 132) = ([], False)"
  using store_Set_Get [OF empty_store_inv, of 100 "''k''" "[7, 8]" 30 100 "''k''"] by simp

text \<open>
  The double check of lazy expiry is sound under interference: between the read-locked
  section of a \<open>Get\<close> that saw a stale entry and its write-locked section, any critical
  sections of other goroutines may run, and the write-locked section then removes nothing
  that is live at or after its own clock reading. In particular a value stored in between survives.
\<close>

theorem get_double_check_keeps_live:
  assumes "store_inv s" "get_rlock s k t1 = Stale" "t2 \<le> u"
  shows "live_value (lookup_entry (get_lock (fst (exec_sections s xs)) k t2)) j u =
    live_value (lookup_entry (fst (exec_sections s xs))) j u"
  using exec_sections_inv [OF assms(1), of xs] assms(3)
  by (simp add: view_get_lock drop_expired_live)

theorem get_double_check_keeps_live_witness:
  "live_value (lookup_entry (get_lock (fst (exec_sections (store_Set empty_store ''k'' [1] 10 5 5)
     [SetSec ''k'' [2] 0 20 20])) ''k'' 21)) ''k'' 30 = Some [2]"
proof -
  let ?s = "store_Set empty_store ''k'' [1] 10 5 5"
  have inv: "store_inv ?s" by (rule store_Set_inv [OF empty_store_inv])
  have "get_rlock ?s ''k'' 20 = Stale"
    by (simp add: get_rlock_def view_Set [OF empty_store_inv] mk_entry_def IsExpired_def
        IsZero_def After_def Add_def)
  from get_double_check_keeps_live [OF inv this, of 21 30 "[SetSec ''k'' [2] 0 20 20]" "''k''"]
  show ?thesis by (simp add: view_Set [OF inv] live_value_mk_entry)
qed

section \<open>Scans\<close>

definition scan :: "(string \<times> Entry \<Rightarrow> bool) \<Rightarrow> scan_order \<Rightarrow> Store \<Rightarrow> (string \<times> Entry) list" where
  "scan P rng s =
     concat (map (\<lambda>i. filter P (rng i (shard_items s i))) [0..<length (shards s)])"

definition scan_ok :: "scan_order \<Rightarrow> bool" where
  "scan_ok rng \<longleftrightarrow> (\<forall>i. range_order (rng i))"

lemma scan_ok_id: "scan_ok (\<lambda>_ m. m)"
  by (simp add: scan_ok_def rng_insertion.range_order_axioms)

lemma mset_scan_upto:
  assumes "scan_ok rng"
  shows "mset (concat (map (\<lambda>i. filter P (rng i (f i))) is)) = mset (filter P (concat (map f is)))"
proof (induction "is")
  case (Cons i "is")
  have "mset (rng i (f i)) = mset (f i)"
    using assms by (simp add: scan_ok_def range_order.rng_perm)
  with Cons show ?case by simp
qed simp

lemma all_entries_upto:
  "all_entries s = concat (map (\<lambda>i. shard_items s i) [0..<length (shards s)])"
proof -
  have "map items (shards s) = map items (map ((!) (shards s)) [0..<length (shards s)])"
    by (simp only: map_nth)
  then show ?thesis by (simp only: all_entries_def map_map o_def)
qed

lemma mset_scan:
  "scan_ok rng \<Longrightarrow> mset (scan P rng s) = mset (filter P (all_entries s))"
  unfolding scan_def all_entries_upto by (rule mset_scan_upto)

lemma set_scan:
  assumes "scan_ok rng" "store_inv s"
  shows "(k, e) \<in> set (scan P rng s) \<longleftrightarrow> lookup_entry s k = Some e \<and> P (k, e)"
proof -
  have "set (scan P rng s) = set (filter P (all_entries s))"
    using mset_scan [OF assms(1)] by (metis set_mset_mset)
  then show ?thesis by (auto simp: in_all_entries [OF assms(2)])
qed

lemma distinct_scan:
  assumes "scan_ok rng" "store_inv s"
  shows "distinct (map fst (scan P rng s))"
proof -
  have "mset (map fst (scan P rng s)) = mset (map fst (filter P (all_entries s)))"
    by (simp add: mset_scan [OF assms(1)] flip: mset_filter)
  moreover have "distinct (map fst (filter P (all_entries s)))"
    using distinct_all_entries [OF assms(2)] by (simp add: distinct_map_filter)
  ultimately show ?thesis by (metis mset_eq_imp_distinct_iff)
qed

lemma store_Keys_scan: "store_Keys rng s now = map fst (scan (\<lambda>(k, v). listed now v) rng s)"
  by (simp add: store_Keys_def scan_def map_concat o_def)

lemma store_Len_entries: "store_Len s now = length (filter (\<lambda>(k, v). listed now v) (all_entries s))"
  by (simp add: store_Len_def all_entries_def filter_concat length_concat o_def)

lemma listed_not_expired: "listed now e \<longleftrightarrow> \<not> IsExpired e now \<and> (IsZero (eExpiresAt e) \<or> now \<noteq> eExpiresAt e)"
  by (auto simp: listed_def IsExpired_def Before_def After_def)

text \<open>
  \<open>Keys\<close> lists each key at most once and exactly the keys whose entry has no expiry or
  expires after \<open>now\<close>, in whatever order the maps are ranged over; \<open>Len\<close> is the length of
  that list; and every listed key is one \<open>Get\<close> would find at that instant.
\<close>

theorem store_Keys_Len:
  assumes "scan_ok rng" "store_inv s"
  shows "distinct (store_Keys rng s now) \<and>
    store_Len s now = length (store_Keys rng s now) \<and>
    set (store_Keys rng s now) = {k. \<exists>e. lookup_entry s k = Some e \<and> listed now e} \<and>
    (\<forall>k \<in> set (store_Keys rng s now). snd (snd (store_Get s k now t)))"
proof -
  let ?P = "\<lambda>(k, v). listed now v"
  have keys: "set (store_Keys rng s now) = {k. \<exists>e. lookup_entry s k = Some e \<and> listed now e}"
    using set_scan [OF assms, where P = ?P] by (force simp: store_Keys_scan image_iff)
  have "length (scan ?P rng s) = length (filter ?P (all_entries s))"
    using mset_scan [OF assms(1)] by (metis size_mset)
  then have "store_Len s now = length (store_Keys rng s now)"
    by (simp add: store_Len_entries store_Keys_scan)
  moreover have "snd (snd (store_Get s k now t))" if "k \<in> set (store_Keys rng s now)" for k
    using that keys by (auto simp: snd_store_Get live_value_def listed_not_expired)
  ultimately show ?thesis
    using keys distinct_scan [OF assms] by (simp add: store_Keys_scan)
qed

theorem store_Keys_Len_witness:
  "set (store_Keys (\<lambda>_ m. rev m) (store_Set empty_store ''k'' [1] 0 5 5) 9) = {''k''} \<and>
   store_Len (store_Set empty_store ''k'' [1] 0 5 5) 9 =
     length (store_Keys (\<lambda>_ m. rev m) (store_Set empty_store ''k'' [1] 0 5 5) 9)"
proof -
  have ok: "scan_ok (\<lambda>_ m. rev m)"
    by (simp add: scan_ok_def rng_reverse.range_order_axioms)
  have keys: "{k. \<exists>e. lookup_entry (store_Set empty_store ''k'' [1] 0 5 5) k = Some e \<and> listed 9 e} = {''k''}"
    by (auto simp: view_Set [OF empty_store_inv] lookup_empty mk_entry_def listed_def IsZero_def)
  show ?thesis
    using store_Keys_Len [OF ok store_Set_inv [OF empty_store_inv], of "''k''" "[1]" 0 5 5 9 9]
    unfolding keys by (elim conjE, intro conjI)
qed

text \<open>The iteration of \<open>ForEach\<close> with a callback that never stops it is a fold over the live entries.\<close>

lemma each_item_foldl:
  assumes "\<And>st k v t. snd (fn st k v t)"
  shows "each_item now fn kvs st =
    (foldl (\<lambda>st (k, e). fst (fn st k (eValue e) (remaining_ttl now e))) st
       (filter (\<lambda>(k, e). \<not> IsExpired e now) kvs), True)"
proof (induction kvs arbitrary: st)
  case (Cons kv kvs)
  obtain k e where kv: "kv = (k, e)" by (cases kv)
  show ?case
  proof (cases "IsExpired e now")
    case True
    with Cons kv show ?thesis by (simp add: IsExpired_def split: if_splits)
  next
    case False
    obtain st' where "fn st k (eValue e) (remaining_ttl now e) = (st', True)"
      using assms by (metis prod.collapse)
    with Cons kv False show ?thesis by (simp add: IsExpired_def split: if_splits)
  qed
qed simp

lemma each_shard_foldl:
  assumes "\<And>st k v t. snd (fn st k v t)"
  shows "each_shard rng now fn i shs st =
    (foldl (\<lambda>st (k, e). fst (fn st k (eValue e) (remaining_ttl now e))) st
       (concat (map (\<lambda>j. filter (\<lambda>(k, e). \<not> IsExpired e now) (rng (i + j) (items (shs ! j))))
          [0..<length shs])), True)"
proof (induction shs arbitrary: i st)
  case (Cons sh shs)
  have split: "[0..<length (sh # shs)] = 0 # map Suc [0..<length shs]"
    by (simp add: map_Suc_upt upt_conv_Cons del: upt_Suc)
  show ?case
    unfolding split by (simp add: Cons.IH each_item_foldl [OF assms] o_def)
qed simp

lemma ForEach_foldl:
  assumes "\<And>st k v t. snd (fn st k v t)"
  shows "ForEach rng s now fn st =
    foldl (\<lambda>st (k, e). fst (fn st k (eValue e) (remaining_ttl now e))) st
      (scan (\<lambda>(k, e). \<not> IsExpired e now) rng s)"
  by (simp add: ForEach_def each_shard_foldl [OF assms] scan_def)

definition collect :: "(string \<times> bytes \<times> duration) list \<Rightarrow> string \<Rightarrow> bytes \<Rightarrow> duration \<Rightarrow>
    (string \<times> bytes \<times> duration) list \<times> bool" where
  "collect acc k v t = (acc @ [(k, v, t)], True)"

lemma foldl_append_map: "foldl (\<lambda>acc x. acc @ [f x]) acc xs = acc @ map f xs"
  by (induction xs arbitrary: acc) auto

lemma ForEach_collect:
  "ForEach rng s now collect [] =
     map (\<lambda>(k, e). (k, eValue e, remaining_ttl now e)) (scan (\<lambda>(k, e). \<not> IsExpired e now) rng s)"
proof -
  have "(\<lambda>st (k, e). fst (collect st k (eValue e) (remaining_ttl now e))) =
      (\<lambda>st x. st @ [(\<lambda>(k, e). (k, eValue e, remaining_ttl now e)) x])"
    by (auto simp: collect_def fun_eq_iff)
  then show ?thesis
    using ForEach_foldl [of collect rng s now "[]"] foldl_append_map [of _ "[]"]
    by (simp add: collect_def)
qed

text \<open>
  \<open>ForEach\<close> with a callback that records its arguments and goes on visits each key at
  most once and exactly the entries not expired at its clock reading, each with its value
  and remaining TTL, in whatever order the maps are ranged over.
\<close>

theorem ForEach_visits_live:
  assumes "scan_ok rng" "store_inv s"
  shows "distinct (map fst (ForEach rng s now collect [])) \<and>
    ((k, v, t) \<in> set (ForEach rng s now collect []) \<longleftrightarrow>
      (\<exists>e. lookup_entry s k = Some e \<and> \<not> IsExpired e now \<and> v = eValue e \<and> t = remaining_ttl now e))"
proof -
  let ?P = "\<lambda>(k, e). \<not> IsExpired e now"
  have "map fst (ForEach rng s now collect []) = map fst (scan ?P rng s)"
    by (simp add: ForEach_collect split_def)
  moreover have "(k, v, t) \<in> set (ForEach rng s now collect []) \<longleftrightarrow>
      (\<exists>e. (k, e) \<in> set (scan ?P rng s) \<and> v = eValue e \<and> t = remaining_ttl now e)"
    by (force simp: ForEach_collect)
  ultimately show ?thesis
    using distinct_scan [OF assms, of ?P] set_scan [OF assms, of k _ ?P] by auto
qed

theorem ForEach_visits_live_witness:
  "(''k'', [1], 30) \<in> set (ForEach (\<lambda>_ m. m) (store_Set empty_store ''k'' [1] 50 100 100) 120 collect [])"
  using ForEach_visits_live [OF scan_ok_id store_Set_inv [OF empty_store_inv],
      of "''k''" "[1]" 50 100 100 120 "''k''" "[1]" 30]
  by (simp add: view_Set [OF empty_store_inv] mk_entry_def IsExpired_def IsZero_def After_def
      Add_def remaining_ttl_def Sub_def)

section \<open>Construction\<close>

lemma round_up_from:
  assumes "j \<le> k" "k \<le> 62" "sc \<le> 2 ^ k" "\<And>i. i < k \<Longrightarrow> 2 ^ i < sc"
  shows "while_option (\<lambda>n. n < sc) (\<lambda>n. int64 (n * 2)) (2 ^ j) = Some (2 ^ k)"
  using assms(1)
proof (induction rule: inc_induct)
  case base
  with assms(3) show ?case by (simp add: while_option_unfold)
next
  case (step i)
  have "int64 (2 ^ Suc i) = 2 ^ Suc i"
    using step(2) assms(2) by (intro int64_id_nonneg power_increasing) simp_all
  then have "int64 (2 ^ i * 2) = 2 ^ Suc i" by (simp add: mult.commute)
  with step assms(4) [of i] show ?case by (subst while_option_unfold) simp
qed

lemma doubling_wraps:
  assumes "n = 0 \<or> n = - (2 ^ 63) \<or> (\<exists>j \<le> 62. n = 2 ^ j)"
  shows "int64 (n * 2) = 0 \<or> int64 (n * 2) = - (2 ^ 63) \<or> (\<exists>j \<le> 62. int64 (n * 2) = 2 ^ j)"
proof -
  consider "n = 0 \<or> n = - (2 ^ 63) \<or> n = 2 ^ 62" | j where "j < 62" "n = 2 ^ j"
    using assms le_neq_implies_less by blast
  then show ?thesis
  proof cases
    case 1
    then show ?thesis by (elim disjE) (simp_all add: int64_def)
  next
    case 2
    then have "int64 (2 ^ Suc j) = 2 ^ Suc j"
      by (intro int64_id_nonneg power_increasing) simp_all
    with 2 show ?thesis by (intro disjI2 exI [of _ "Suc j"]) (simp add: mult.commute)
  qed
qed

lemma round_up_diverges:
  assumes big: "2 ^ 62 < sc"
  shows "round_up_pow2 sc = None"
proof (cases "round_up_pow2 sc")
  case (Some t)
  let ?P = "\<lambda>n. n = 0 \<or> n = - (2 ^ 63) \<or> (\<exists>j \<le> 62. n = (2::int) ^ j)"
  have "?P t"
  proof (rule while_option_rule [where P = ?P, OF _ Some [unfolded round_up_pow2_def]])
    show "?P (int64 (n * 2))" if "?P n" for n using that by (rule doubling_wraps)
    show "?P 1" by (intro disjI2 exI [of _ 0]) simp
  qed
  then have "t \<le> 2 ^ 62"
    using power_increasing [of _ 62 "2::int"] by auto
  moreover have "\<not> t < sc"
    using while_option_stop [OF Some [unfolded round_up_pow2_def]] .
  ultimately show ?thesis using big by simp
qed

text \<open>
  The constructor ends exactly for the shard counts up to \<open>2 ^ 62\<close> of the 64-bit range,
  and then gives the smallest power of two not below the requested count: an empty,
  well-formed store of that many shards. Above \<open>2 ^ 62\<close> the doubling wraps around to
  0 and the loop never ends.
\<close>

theorem NewWithShards_rounds_up:
  assumes "0 < sc" "sc < 2 ^ 63"
  shows "(sc \<le> 2 ^ 62 \<longrightarrow> (\<exists>k s. NewWithShards sc = Some s \<and> length (shards s) = 2 ^ k \<and>
      sc \<le> 2 ^ k \<and> (\<forall>i < k. 2 ^ i < sc) \<and> store_inv s \<and> (\<forall>key. lookup_entry s key = None))) \<and>
    (2 ^ 62 < sc \<longrightarrow> NewWithShards sc = None)"
proof (intro conjI impI)
  assume small: "sc \<le> 2 ^ 62"
  define k where "k = (LEAST k. sc \<le> 2 ^ k)"
  have k: "sc \<le> 2 ^ k" unfolding k_def using small by (rule LeastI)
  have k62: "k \<le> 62" unfolding k_def using small by (rule Least_le)
  have least: "2 ^ i < sc" if "i < k" for i
    using not_less_Least [of i "\<lambda>k. sc \<le> 2 ^ k"] that by (simp add: k_def)
  have "round_up_pow2 sc = Some (2 ^ k)"
    using round_up_from [of 0 k sc] k k62 least by (simp add: round_up_pow2_def)
  then obtain s where s: "NewWithShards sc = Some s"
      "s = \<lparr>shards = replicate (2 ^ k) \<lparr>items = []\<rparr>, shardMask = word_of_int (2 ^ k - 1), stats = zero_stats\<rparr>"
    using assms(1) by (simp add: NewWithShards_def nat_power_eq)
  have "unat (word_of_int (2 ^ k - 1) :: u32) \<le> nat (2 ^ k - 1)"
    by (rule unat_word_of_int_le) simp
  also have "nat (2 ^ k - 1) < 2 ^ k"
    by (simp add: nat_diff_distrib nat_power_eq)
  finally have inv: "store_inv s"
    by (simp only: s(2) store_inv_def shard_ok_def) simp
  have "lookup_entry s key = None" for key
    using getShard_lt [OF inv, of key] s(2) by (simp add: lookup_entry_def)
  with s inv k least show "\<exists>k s. NewWithShards sc = Some s \<and> length (shards s) = 2 ^ k \<and>
      sc \<le> 2 ^ k \<and> (\<forall>i < k. 2 ^ i < sc) \<and> store_inv s \<and> (\<forall>key. lookup_entry s key = None)"
    by (intro exI [of _ k] exI [of _ s]) simp
next
  assume big: "2 ^ 62 < sc"
  then show "NewWithShards sc = None"
    using assms by (simp add: NewWithShards_def round_up_diverges)
qed

theorem NewWithShards_rounds_up_witness:
  "\<exists>s. NewWithShards 5 = Some s \<and> length (shards s) = 8 \<and> store_inv s"
proof -
  obtain k s where s: "NewWithShards 5 = Some s" "length (shards s) = 2 ^ k" "store_inv s"
    and k: "(5::int) \<le> 2 ^ k" "\<forall>i < k. (2::int) ^ i < 5"
    using NewWithShards_rounds_up [of 5] by auto
  have "\<not> 3 < k" using k(2) by (auto dest: spec [of _ 3])
  moreover have "\<not> k < 3"
    using k(1) power_increasing [of k 2 "2::int"] by auto
  ultimately have "k = 3" by simp
  with s show ?thesis by auto
qed

lemma store_New_empty: "store_New = Some empty_store"
proof -
  have "round_up_pow2 256 = Some (2 ^ 8)"
    using round_up_from [of 0 8 256] power_strict_increasing [of _ 8 "2::int"]
    by (simp add: round_up_pow2_def)
  then show ?thesis
    by (simp add: store_New_def NewWithShards_def DefaultShardCount_def empty_store_def)
qed

end
