(* ===== verification/Sweeper.thy ===== *)
theory Sweeper
  imports Store_Correct
begin

text \<open>
  The TTL sweeper, \<open>internal/store/ttl.go\<close>. \<open>Intn\<close> stands for \<open>rand.Intn\<close>: draw \<open>i\<close> of a
  sample with bound \<open>n\<close> is \<open>Intn i n\<close>, which the documentation places below \<open>n\<close>
  (\<open>intn_ok\<close>). \<open>None\<close> is a panic: an index out of range or a nil entry. The expired
  fraction is a quotient of integers up to 20 compared with 0.25, where \<open>float64\<close> and
  exact division agree, so it is a rational.
\<close>

definition DefaultSweepInterval :: duration where
  "DefaultSweepInterval = 100 * Millisecond"

definition samplesPerSweep :: nat where
  "samplesPerSweep = 20"

definition expiredThreshold :: rat where
  "expiredThreshold = 1 / 4"

record Sweeper =
  sw_interval :: duration
  sw_stopped :: bool

definition NewSweeper :: "duration \<Rightarrow> Sweeper" where
  "NewSweeper interval =
     \<lparr>sw_interval = (if interval \<le> 0 then DefaultSweepInterval else interval), sw_stopped = False\<rparr>"

text \<open>The sampling loop: \<open>n\<close> iterations from index \<open>i\<close> on.\<close>

fun sample_loop :: "(nat \<Rightarrow> nat \<Rightarrow> nat) \<Rightarrow> instant \<Rightarrow> nat \<Rightarrow> nat \<Rightarrow> string list \<Rightarrow>
    (string, Entry) gomap \<Rightarrow> StoreStats \<Rightarrow> nat \<Rightarrow> ((string, Entry) gomap \<times> StoreStats \<times> nat) option" where
  "sample_loop Intn now 0 i keys m st expiredCount = Some (m, st, expiredCount)"
| "sample_loop Intn now (Suc n) i keys m st expiredCount =
     (let idx = Intn i (length keys - i) + i in
      if idx < length keys then
        let keys' = keys[i := keys ! idx, idx := keys ! i]; key = keys' ! i in
        case gm_get m key of
          None \<Rightarrow> None
        | Some entry \<Rightarrow>
            if \<not> IsZero (eExpiresAt entry) \<and> After now (eExpiresAt entry)
            then sample_loop Intn now n (Suc i) keys' (gm_del key m) (incExpirations st) (Suc expiredCount)
            else sample_loop Intn now n (Suc i) keys' m st expiredCount
      else None)"

definition sampleAndExpire :: "(nat \<Rightarrow> nat \<Rightarrow> nat) \<Rightarrow>
    ((string, Entry) gomap \<Rightarrow> (string, Entry) gomap) \<Rightarrow> instant \<Rightarrow> Store \<Rightarrow> nat \<Rightarrow> (Store \<times> rat) option" where
  "sampleAndExpire Intn rng now s index =
     (let m = shard_items s index; n = length m in
      if n = 0 then Some (s, 0)
      else
        let keys = map fst (rng m);
            samples = (if samplesPerSweep > n then n else samplesPerSweep) in
        case sample_loop Intn now samples 0 keys m (stats s) 0 of
          None \<Rightarrow> None
        | Some (m', st', expiredCount) \<Rightarrow>
            Some (s\<lparr>shards := (shards s)[index := (shards s ! index)\<lparr>items := m'\<rparr>], stats := st'\<rparr>,
                  if samples = 0 then 0 else of_nat expiredCount / of_nat samples))"

text \<open>What the goroutine draws and reads from outside in round \<open>j\<close> of one call of \<open>sweepShard\<close>.\<close>

record sweep_env =
  env_Intn :: "nat \<Rightarrow> nat \<Rightarrow> nat \<Rightarrow> nat"
  env_rng :: "nat \<Rightarrow> (string, Entry) gomap \<Rightarrow> (string, Entry) gomap"
  env_now :: "nat \<Rightarrow> instant"
  env_stop :: "nat \<Rightarrow> bool"

lemma sample_loop_length:
  "sample_loop Intn now n i keys m st c = Some (m', st', c') \<Longrightarrow>
     c \<le> c' \<and> c' \<le> c + n \<and> length m' + c' \<le> length m + c"
proof (induction n arbitrary: i keys m st c)
  case (Suc n)
  let ?idx = "Intn i (length keys - i) + i"
  let ?keys = "keys[i := keys ! ?idx, ?idx := keys ! i]"
  from Suc.prems obtain e where e: "gm_get m (?keys ! i) = Some e"
    by (auto simp: Let_def split: if_splits option.splits)
  note del = gm_del_shorter [OF e]
  from Suc.prems e show ?case using del
    by (auto simp: Let_def split: if_splits dest!: Suc.IH)
qed auto

lemma sampleAndExpire_shrinks:
  assumes "sampleAndExpire Intn rng now s index = Some (s', fr)" "index < length (shards s)"
    and "\<not> fr < expiredThreshold"
  shows "length (shard_items s' index) < length (shard_items s index)"
proof -
  let ?m = "shard_items s index"
  let ?samples = "if samplesPerSweep > length ?m then length ?m else samplesPerSweep"
  have ne: "length ?m \<noteq> 0"
    using assms(1,3) by (auto simp: sampleAndExpire_def expiredThreshold_def Let_def)
  obtain m' st' c where loop: "sample_loop Intn now ?samples 0 (map fst (rng ?m)) ?m (stats s) 0 = Some (m', st', c)"
    and s': "s' = s\<lparr>shards := (shards s)[index := (shards s ! index)\<lparr>items := m'\<rparr>], stats := st'\<rparr>"
    and fr: "fr = (if ?samples = 0 then 0 else of_nat c / of_nat ?samples)"
    using assms(1) ne by (auto simp: sampleAndExpire_def Let_def split: option.splits)
  from fr assms(3) have "c \<noteq> 0"
    by (auto simp: expiredThreshold_def split: if_splits)
  with sample_loop_length [OF loop] have "length m' < length ?m" by simp
  with s' assms(2) show ?thesis by simp
qed

lemma sampleAndExpire_shards:
  "sampleAndExpire Intn rng now s index = Some (s', fr) \<Longrightarrow> length (shards s') = length (shards s)"
  by (auto simp: sampleAndExpire_def Let_def split: if_splits option.splits)

text \<open>\<open>sweepShard\<close>, from round \<open>j\<close> on.\<close>

function sweepShard :: "sweep_env \<Rightarrow> nat \<Rightarrow> nat \<Rightarrow> Store \<Rightarrow> Store option" where
  "sweepShard env index j s =
     (if index < length (shards s) then
        case sampleAndExpire (env_Intn env j) (env_rng env j) (env_now env j) s index of
          None \<Rightarrow> None
        | Some (s', expired) \<Rightarrow>
            if expired < expiredThreshold then Some s'
            else if env_stop env j then Some s'
            else sweepShard env index (Suc j) s'
      else None)"
  by pat_completeness auto
termination
  by (relation "measure (\<lambda>(env, index, j, s). length (shard_items s index))")
    (auto intro: sampleAndExpire_shrinks)

declare sweepShard.simps [simp del]

text \<open>One tick of \<open>run\<close>: sweep the shard whose turn it is and go on to the next.\<close>

definition sweeper_tick :: "sweep_env \<Rightarrow> nat \<times> Store \<Rightarrow> (nat \<times> Store) option" where
  "sweeper_tick env = (\<lambda>(shardIndex, s).
     map_option (\<lambda>s'. ((shardIndex + 1) mod length (shards s'), s')) (sweepShard env shardIndex 0 s))"

text \<open>\<open>run\<close> as the ticks it served before the stop signal.\<close>

fun sweeper_run :: "sweep_env list \<Rightarrow> nat \<times> Store \<Rightarrow> (nat \<times> Store) option" where
  "sweeper_run [] st = Some st"
| "sweeper_run (env # envs) st = Option.bind (sweeper_tick env st) (sweeper_run envs)"

section \<open>One sample\<close>

definition intn_ok :: "(nat \<Rightarrow> nat \<Rightarrow> nat) \<Rightarrow> bool" where
  "intn_ok Intn \<longleftrightarrow> (\<forall>i n. 0 < n \<longrightarrow> Intn i n < n)"

definition env_ok :: "sweep_env \<Rightarrow> bool" where
  "env_ok env \<longleftrightarrow> (\<forall>j. intn_ok (env_Intn env j) \<and> range_order (env_rng env j))"

text \<open>\<open>m'\<close> is \<open>m\<close> without some entries that are expired at \<open>t\<close>.\<close>

definition only_expired_removed :: "instant \<Rightarrow> (string \<rightharpoonup> Entry) \<Rightarrow> (string \<rightharpoonup> Entry) \<Rightarrow> bool" where
  "only_expired_removed t m m' \<longleftrightarrow>
     (\<forall>k. m' k = m k \<or> (\<exists>e. m k = Some e \<and> IsExpired e t \<and> m' k = None))"

lemma IsExpired_mono: "IsExpired e t \<Longrightarrow> t \<le> u \<Longrightarrow> IsExpired e u"
  by (auto simp: IsExpired_def After_def split: if_splits)

lemma IsExpired_loop: "\<not> IsZero (eExpiresAt e) \<and> After now (eExpiresAt e) \<longleftrightarrow> IsExpired e now"
  by (simp add: IsExpired_def)

lemma removed_refl [simp]: "only_expired_removed t m m"
  by (simp add: only_expired_removed_def)

lemma removed_trans:
  "only_expired_removed t m m' \<Longrightarrow> only_expired_removed t m' m'' \<Longrightarrow> only_expired_removed t m m''"
  unfolding only_expired_removed_def by metis

lemma removed_mono: "only_expired_removed t m m' \<Longrightarrow> t \<le> u \<Longrightarrow> only_expired_removed u m m'"
  unfolding only_expired_removed_def using IsExpired_mono by blast

lemma removed_delete:
  "m k = Some e \<Longrightarrow> IsExpired e t \<Longrightarrow> only_expired_removed t m (m(k := None))"
  by (auto simp: only_expired_removed_def)

lemma removed_live:
  assumes "only_expired_removed t m m'" "t \<le> u"
  shows "live_value m' k u = live_value m k u"
proof (cases "m' k = m k")
  case True
  then show ?thesis by (simp add: live_value_def)
next
  case False
  with assms obtain e where "m k = Some e" "IsExpired e u" "m' k = None"
    by (metis only_expired_removed_def IsExpired_mono)
  then show ?thesis by (simp add: live_value_def)
qed

lemma swap_suffix:
  assumes "distinct ks" "i \<le> idx" "idx < length ks"
  defines "ks' \<equiv> ks[i := ks ! idx, idx := ks ! i]"
  shows "distinct ks'" "ks' ! i \<in> set (drop i ks)" "set (drop (Suc i) ks') \<subseteq> set (drop i ks) - {ks' ! i}"
proof -
  have i: "i < length ks" using assms by simp
  show d: "distinct ks'" unfolding ks'_def using assms i by (simp add: distinct_swap)
  let ?ds = "drop i ks"
  have "drop i ks' = ?ds[0 := ?ds ! (idx - i), idx - i := ?ds ! 0]"
    using assms i by (simp add: ks'_def drop_update_swap)
  moreover have "set (?ds[0 := ?ds ! (idx - i), idx - i := ?ds ! 0]) = set ?ds"
    using assms i by (intro set_swap) simp_all
  ultimately have "set (drop i ks') = set ?ds" by (simp only:)
  moreover have "drop i ks' = ks' ! i # drop (Suc i) ks'"
    using i by (simp add: ks'_def Cons_nth_drop_Suc)
  moreover have "distinct (drop i ks')" using d by simp
  ultimately show "ks' ! i \<in> set (drop i ks)" "set (drop (Suc i) ks') \<subseteq> set (drop i ks) - {ks' ! i}"
    by auto
qed

text \<open>Each sampled key is still in the map: the partial shuffle never draws one twice.\<close>

lemma sample_loop_total:
  assumes "intn_ok Intn"
  shows "distinct keys \<Longrightarrow> set (drop i keys) \<subseteq> dom (map_of m) \<Longrightarrow> i + n \<le> length keys \<Longrightarrow>
    sample_loop Intn now n i keys m st c \<noteq> None"
proof (induction n arbitrary: i keys m st c)
  case (Suc n)
  let ?idx = "Intn i (length keys - i) + i"
  let ?keys = "keys[i := keys ! ?idx, ?idx := keys ! i]"
  have idx: "?idx < length keys"
  proof -
    have "Intn i (length keys - i) < length keys - i"
      using assms Suc.prems(3) by (simp add: intn_ok_def)
    then show ?thesis by simp
  qed
  note sw = swap_suffix [OF Suc.prems(1) le_add2 idx]
  from sw(2) Suc.prems(2) obtain e where e: "map_of m (?keys ! i) = Some e" by blast
  have "sample_loop Intn now n (Suc i) ?keys m' st' c' \<noteq> None"
    if "m' = m \<or> m' = gm_del (?keys ! i) m" for m' st' c'
  proof (rule Suc.IH [OF sw(1)])
    have "dom (map_of m) - {?keys ! i} \<subseteq> dom (map_of m')"
      using that by (auto simp: delete_conv')
    with sw(3) Suc.prems(2) show "set (drop (Suc i) ?keys) \<subseteq> dom (map_of m')" by blast
    show "Suc i + n \<le> length ?keys" using Suc.prems(3) by simp
  qed
  with idx e show ?case by (simp add: Let_def)
qed simp

lemma sample_loop_effect:
  "sample_loop Intn now n i keys m st c = Some (m', st', c') \<Longrightarrow> gm_inv m \<Longrightarrow>
     gm_inv m' \<and> only_expired_removed now (map_of m) (map_of m') \<and>
     st' = st\<lparr>Expirations := Expirations st + of_nat (c' - c)\<rparr> \<and> c \<le> c' \<and>
     ((\<forall>k e. map_of m k = Some e \<longrightarrow> IsExpired e now) \<longrightarrow> c' = c + n)"
proof (induction n arbitrary: i keys m st c)
  case (Suc n)
  let ?idx = "Intn i (length keys - i) + i"
  let ?key = "keys[i := keys ! ?idx, ?idx := keys ! i] ! i"
  from Suc.prems(1) obtain e where e: "map_of m ?key = Some e"
    by (auto simp: Let_def split: if_splits option.splits)
  show ?case
  proof (cases "IsExpired e now")
    case True
    with Suc.prems(1) e have
      "sample_loop Intn now n (Suc i) (keys[i := keys ! ?idx, ?idx := keys ! i])
         (gm_del ?key m) (incExpirations st) (Suc c) = Some (m', st', c')"
      by (simp add: Let_def IsExpired_loop split: if_splits)
    note IH = Suc.IH [OF this alm.inv_del [OF Suc.prems(2)]]
    have "only_expired_removed now (map_of m) (map_of (gm_del ?key m))"
      using removed_delete [of "map_of m", OF e True] by (simp add: delete_conv')
    with IH have "only_expired_removed now (map_of m) (map_of m')"
      by (blast intro: removed_trans)
    moreover have "st' = st\<lparr>Expirations := Expirations st + of_nat (c' - c)\<rparr>"
    proof -
      have "Suc c \<le> c'" using IH by blast
      then have "Suc (c' - Suc c) = c' - c" by simp
      then have "1 + of_nat (c' - Suc c) = (of_nat (c' - c) :: u64)"
        by (metis of_nat_Suc)
      with IH show ?thesis by (simp add: incExpirations_def add.assoc)
    qed
    ultimately show ?thesis using IH by (auto simp: delete_conv' split: if_splits)
  next
    case False
    with Suc.prems e have "sample_loop Intn now n (Suc i) (keys[i := keys ! ?idx, ?idx := keys ! i])
         m st c = Some (m', st', c')"
      by (simp add: Let_def IsExpired_loop split: if_splits)
    from Suc.IH [OF this Suc.prems(2)] False e show ?thesis by blast
  qed
qed simp

lemma sampleAndExpire_cases:
  assumes "sampleAndExpire Intn rng now s index = Some (s', fr)" "items (shards s ! index) \<noteq> []"
  obtains samples m' st' c where
    "sample_loop Intn now samples 0 (map fst (rng (shard_items s index))) (shard_items s index) (stats s) 0
       = Some (m', st', c)"
    "s' = s\<lparr>shards := (shards s)[index := (shards s ! index)\<lparr>items := m'\<rparr>], stats := st'\<rparr>"
    "0 < samples" "samples = min samplesPerSweep (length (shard_items s index))"
    "fr = of_nat c / of_nat samples"
proof -
  let ?n = "length (shard_items s index)"
  have "(if samplesPerSweep > ?n then ?n else samplesPerSweep) = min samplesPerSweep ?n"
    by (simp add: min_def)
  moreover have "0 < min samplesPerSweep ?n"
    using assms(2) by (simp add: samplesPerSweep_def)
  ultimately show ?thesis
    using assms that by (auto simp: sampleAndExpire_def Let_def split: option.splits)
qed

lemma sampleAndExpire_total:
  assumes "intn_ok Intn" "range_order rng" "store_inv s" "index < length (shards s)"
  shows "sampleAndExpire Intn rng now s index \<noteq> None"
proof -
  let ?m = "shard_items s index"
  have m: "gm_inv ?m" using assms(3,4) by (simp add: store_inv_def shard_ok_def)
  have loop: "sample_loop Intn now n 0 (map fst (rng ?m)) ?m (stats s) 0 \<noteq> None" if "n \<le> length ?m" for n
  proof (rule sample_loop_total [OF assms(1)])
    show "distinct (map fst (rng ?m))"
      using m by (simp add: range_order.rng_distinct [OF assms(2)] gm_inv_def)
    show "set (drop 0 (map fst (rng ?m))) \<subseteq> dom (map_of ?m)"
      by (simp add: range_order.rng_set [OF assms(2)] dom_map_of_conv_image_fst)
    show "0 + n \<le> length (map fst (rng ?m))"
      using that by (simp add: range_order.rng_length [OF assms(2)])
  qed
  show ?thesis
    using loop [of "length ?m"] loop [of samplesPerSweep]
    by (cases "samplesPerSweep > length ?m") (auto simp: sampleAndExpire_def Let_def)
qed

lemma replace_shard_view:
  assumes "store_inv s" "index < length (shards s)"
  shows "lookup_entry (s\<lparr>shards := (shards s)[index := (shards s ! index)\<lparr>items := m'\<rparr>]\<rparr>) k =
    (if getShard s k = index then map_of m' k else lookup_entry s k)"
  using assms by (simp add: lookup_entry_def)

lemma sampleAndExpire_effect:
  assumes "sampleAndExpire Intn rng now s index = Some (s', fr)"
    and inv: "store_inv s" "index < length (shards s)"
  shows "store_inv s'" "only_expired_removed now (lookup_entry s) (lookup_entry s')"
    "\<And>i. i \<noteq> index \<Longrightarrow> shards s' ! i = shards s ! i"
proof -
  let ?m = "shard_items s index"
  have ok: "shard_ok s index" using inv by (simp add: store_inv_def)
  have "store_inv s' \<and> only_expired_removed now (lookup_entry s) (lookup_entry s') \<and>
    (\<forall>i. i \<noteq> index \<longrightarrow> shards s' ! i = shards s ! i)"
  proof (cases "?m = []")
    case True
    with assms(1) inv show ?thesis by (simp add: sampleAndExpire_def)
  next
    case False
    then obtain samples m' st' c where
      loop: "sample_loop Intn now samples 0 (map fst (rng ?m)) ?m (stats s) 0 = Some (m', st', c)"
      and s': "s' = s\<lparr>shards := (shards s)[index := (shards s ! index)\<lparr>items := m'\<rparr>], stats := st'\<rparr>"
      using sampleAndExpire_cases [OF assms(1)] by metis
    have m': "gm_inv m'" "only_expired_removed now (map_of ?m) (map_of m')"
      using sample_loop_effect [OF loop] ok by (auto simp: shard_ok_def)
    have keys: "getShard s k = index" if "k \<in> fst ` set m'" for k
    proof -
      have "map_of m' k \<noteq> None" using that by (simp add: map_of_eq_None_iff)
      then have "map_of ?m k \<noteq> None" using m'(2) by (metis only_expired_removed_def)
      then show ?thesis using shard_okD [OF ok] by (meson map_of_SomeD not_Some_eq option.exhaust)
    qed
    have "store_inv s'"
      using shard_inv_update [OF inv m'(1) keys] by (simp add: s')
    moreover have view: "lookup_entry s' k = (if getShard s k = index then map_of m' k else lookup_entry s k)" for k
      using replace_shard_view [OF inv, of m' k] by (simp add: s')
    have "only_expired_removed now (lookup_entry s) (lookup_entry s')"
      unfolding only_expired_removed_def view
      using m'(2) by (auto simp: only_expired_removed_def lookup_entry_def)
    ultimately show ?thesis using s' \<open>only_expired_removed now (lookup_entry s) (lookup_entry s')\<close> by simp
  qed
  then show "store_inv s'" "only_expired_removed now (lookup_entry s) (lookup_entry s')"
    "\<And>i. i \<noteq> index \<Longrightarrow> shards s' ! i = shards s ! i" by auto
qed

section \<open>Sweeping a shard\<close>

lemma sweepShard_result:
  "store_inv s \<Longrightarrow> index < length (shards s) \<Longrightarrow> \<forall>j. env_now env j \<le> t \<Longrightarrow> env_ok env \<Longrightarrow>
    \<exists>s'. sweepShard env index j s = Some s' \<and> store_inv s' \<and>
      only_expired_removed t (lookup_entry s) (lookup_entry s') \<and>
      length (shards s') = length (shards s) \<and> (\<forall>i. i \<noteq> index \<longrightarrow> shards s' ! i = shards s ! i)"
proof (induction env index j s rule: sweepShard.induct)
  case (1 env index j s)
  have ok: "intn_ok (env_Intn env j)" "range_order (env_rng env j)"
    using "1.prems"(4) by (auto simp: env_ok_def)
  obtain s1 fr where sample:
      "sampleAndExpire (env_Intn env j) (env_rng env j) (env_now env j) s index = Some (s1, fr)"
    using sampleAndExpire_total [OF ok "1.prems"(1,2)] by fastforce
  note eff = sampleAndExpire_effect [OF sample "1.prems"(1,2)]
  have rem: "only_expired_removed t (lookup_entry s) (lookup_entry s1)"
    using eff(2) "1.prems"(3) by (blast intro: removed_mono)
  have len: "length (shards s1) = length (shards s)"
    using sample by (rule sampleAndExpire_shards)
  note unfold = sweepShard.simps [of env index j s]
  show ?case
  proof (cases "fr < expiredThreshold \<or> env_stop env j")
    case True
    then have "sweepShard env index j s = Some s1"
      using sample "1.prems"(2) by (auto simp: unfold)
    with eff rem len show ?thesis by auto
  next
    case False
    then have step: "sweepShard env index j s = sweepShard env index (Suc j) s1"
      using sample "1.prems"(2) by (simp add: unfold)
    obtain s' where "sweepShard env index (Suc j) s1 = Some s'" "store_inv s'"
      "only_expired_removed t (lookup_entry s1) (lookup_entry s')"
      "length (shards s') = length (shards s1)" "\<forall>i. i \<noteq> index \<longrightarrow> shards s' ! i = shards s1 ! i"
      using "1.IH" [OF "1.prems"(2) sample refl] False eff(1) "1.prems" len by auto
    with step rem eff(3) len show ?thesis
      by (auto intro: removed_trans)
  qed
qed

text \<open>A shard all of whose entries have expired is emptied in one call, unless the sweeper is stopped.\<close>

lemma sample_all_expired:
  assumes "sampleAndExpire Intn rng now s index = Some (s', fr)"
    and "\<forall>(k, e) \<in> set (shard_items s index). IsExpired e now"
    and "gm_inv (shard_items s index)" "fr < expiredThreshold"
  shows "shard_items s index = [] \<and> s' = s"
proof (cases "shard_items s index = []")
  case True
  with assms(1) show ?thesis by (simp add: sampleAndExpire_def)
next
  case False
  obtain samples m' st' c where
    loop: "sample_loop Intn now samples 0 (map fst (rng (shard_items s index))) (shard_items s index) (stats s) 0
       = Some (m', st', c)"
    and s: "0 < samples" "fr = of_nat c / of_nat samples"
    using sampleAndExpire_cases [OF assms(1) False] by metis
  have "\<forall>k e. map_of (shard_items s index) k = Some e \<longrightarrow> IsExpired e now"
    using assms(2) by (auto dest: map_of_SomeD)
  then have "c = samples" using sample_loop_effect [OF loop assms(3)] by simp
  with s assms(4) show ?thesis by (simp add: expiredThreshold_def)
qed

lemma sweepShard_empties:
  assumes "sweepShard env index j s = Some s'" "env_ok env" "\<forall>j. \<not> env_stop env j"
    and "store_inv s" "\<forall>j. t \<le> env_now env j"
    and "\<forall>(k, e) \<in> set (shard_items s index). IsExpired e t"
  shows "shard_items s' index = []"
  using assms
proof (induction env index j s rule: sweepShard.induct)
  case (1 env index j s)
  note unfold = sweepShard.simps [of env index j s]
  from "1.prems"(1) have index: "index < length (shards s)"
    by (simp add: unfold split: if_splits)
  obtain s1 fr where sample:
      "sampleAndExpire (env_Intn env j) (env_rng env j) (env_now env j) s index = Some (s1, fr)"
    using "1.prems"(1) by (auto simp: unfold split: if_splits option.splits)
  note eff = sampleAndExpire_effect [OF sample "1.prems"(4) index]
  have m: "gm_inv (shard_items s index)"
    using "1.prems"(4) index by (simp add: store_inv_def shard_ok_def)
  have exp: "\<forall>(k, e) \<in> set (shard_items s index). IsExpired e (env_now env j)"
    using "1.prems"(5,6) IsExpired_mono [of _ t "env_now env j"] by fastforce
  show ?case
  proof (cases "fr < expiredThreshold")
    case True
    with sample "1.prems"(1) index have "s' = s1" by (simp add: unfold)
    with sample_all_expired [OF sample exp m True] show ?thesis by simp
  next
    case False
    have shrunk: "(k, e) \<in> set (shard_items s index)" if "(k, e) \<in> set (shard_items s1 index)" for k e
    proof -
      have "(k, e) \<in> set (all_entries s1)"
        using that index sampleAndExpire_shards [OF sample] by (auto simp: all_entries_def)
      then have "lookup_entry s1 k = Some e" by (simp add: in_all_entries [OF eff(1)])
      then have "lookup_entry s k = Some e" using eff(2) by (metis only_expired_removed_def option.distinct(1))
      moreover have "getShard s1 k = index"
        using eff(1) index that sampleAndExpire_shards [OF sample]
        by (auto simp: store_inv_def intro: shard_okD)
      moreover have "getShard s k = getShard s1 k"
        using sample by (auto simp: sampleAndExpire_def Let_def split: if_splits option.splits)
      ultimately show ?thesis by (simp add: lookup_entry_def map_of_SomeD)
    qed
    have "sweepShard env index (Suc j) s1 = Some s'"
      using "1.prems"(1,3) sample index False by (simp add: unfold)
    with shrunk show ?thesis
      using "1.IH" [OF index sample refl False] "1.prems" eff(1) by blast
  qed
qed

text \<open>
  C28. Sweeping a shard always ends and never panics, whatever \<open>rand.Intn\<close> draws and
  however long the expiry rate stays high: no sampled key is missing from the map. It keeps
  the store well-formed, leaves every other shard as it is, and removes no value that is
  live once the sweep's clock readings have passed.
\<close>

theorem sweepShard_safe:
  assumes "env_ok env" "store_inv s" "index < length (shards s)"
    and "\<forall>j. env_now env j \<le> t" "t \<le> u"
  shows "\<exists>s'. sweepShard env index 0 s = Some s' \<and> store_inv s' \<and>
    (\<forall>i. i \<noteq> index \<longrightarrow> shards s' ! i = shards s ! i) \<and>
    (\<forall>k. live_value (lookup_entry s') k u = live_value (lookup_entry s) k u)"
  using sweepShard_result [OF assms(2,3,4,1), of 0] removed_live [OF _ assms(5)] by blast

definition demo_env :: "instant \<Rightarrow> sweep_env" where
  "demo_env t = \<lparr>env_Intn = (\<lambda>j i n. n - 1), env_rng = (\<lambda>j m. rev m),
     env_now = (\<lambda>j. t), env_stop = (\<lambda>j. False)\<rparr>"

lemma demo_env_ok: "env_ok (demo_env t)"
  by (simp add: env_ok_def demo_env_def intn_ok_def rng_reverse.range_order_axioms)

theorem sweepShard_safe_witness:
  "\<exists>s'. sweepShard (demo_env 50) (getShard empty_store ''k'') 0 (store_Set empty_store ''k'' [1] 100 5 5) = Some s' \<and>
     live_value (lookup_entry s') ''k'' 60 = Some [1]"
proof -
  let ?s = "store_Set empty_store ''k'' [1] 100 5 5"
  have inv: "store_inv ?s" by (rule store_Set_inv [OF empty_store_inv])
  have "getShard empty_store ''k'' = getShard ?s ''k''"
    by (simp add: store_Set_def)
  then have "getShard empty_store ''k'' < length (shards ?s)"
    using getShard_lt [OF inv] by simp
  from sweepShard_safe [OF demo_env_ok inv this, of 50 50 60]
  show ?thesis
    by (auto simp: demo_env_def view_Set [OF empty_store_inv] live_value_mk_entry)
qed

section \<open>A full cycle\<close>

lemma sweeper_tick_empties:
  assumes "env_ok env" "\<forall>j. \<not> env_stop env j" "\<forall>j. t \<le> env_now env j \<and> env_now env j \<le> u"
    and "store_inv s" "i < length (shards s)" "\<forall>(k, e) \<in> set (shard_items s i). IsExpired e t"
  obtains s' where "sweeper_tick env (i, s) = Some ((i + 1) mod length (shards s), s')"
    "store_inv s'" "length (shards s') = length (shards s)" "shard_items s' i = []"
    "\<And>j. j \<noteq> i \<Longrightarrow> shards s' ! j = shards s ! j"
proof -
  obtain s' where s': "sweepShard env i 0 s = Some s'" "store_inv s'"
    "length (shards s') = length (shards s)" "\<forall>j. j \<noteq> i \<longrightarrow> shards s' ! j = shards s ! j"
    using sweepShard_result [OF assms(4,5) _ assms(1), of u 0] assms(3) by blast
  moreover have "shard_items s' i = []"
    using sweepShard_empties [OF s'(1) assms(1,2,4) _ assms(6)] assms(3) by blast
  ultimately show ?thesis using that by (simp add: sweeper_tick_def)
qed

lemma sweeper_run_empties:
  assumes "\<forall>env \<in> set envs. env_ok env \<and> (\<forall>j. \<not> env_stop env j \<and> t \<le> env_now env j \<and> env_now env j \<le> u)"
  shows "store_inv s \<Longrightarrow> i + length envs = length (shards s) \<Longrightarrow> envs \<noteq> [] \<Longrightarrow>
    \<forall>j < i. shard_items s j = [] \<Longrightarrow>
    \<forall>j < length (shards s). \<forall>(k, e) \<in> set (shard_items s j). IsExpired e t \<Longrightarrow>
    \<exists>s'. sweeper_run envs (i, s) = Some (0, s') \<and> store_inv s' \<and>
      (\<forall>j < length (shards s'). shard_items s' j = [])"
  using assms
proof (induction envs arbitrary: i s)
  case (Cons env envs)
  have i: "i < length (shards s)" using Cons.prems(2) by simp
  obtain s1 where s1: "sweeper_tick env (i, s) = Some ((i + 1) mod length (shards s), s1)"
    "store_inv s1" "length (shards s1) = length (shards s)" "shard_items s1 i = []"
    "\<And>j. j \<noteq> i \<Longrightarrow> shards s1 ! j = shards s ! j"
    using sweeper_tick_empties [of env t u s i] Cons.prems i by auto
  have empty1: "\<forall>j < Suc i. shard_items s1 j = []"
    using s1(4,5) Cons.prems(4) by (metis less_antisym)
  have expired1: "\<forall>j < length (shards s1). \<forall>(k, e) \<in> set (shard_items s1 j). IsExpired e t"
  proof (intro allI impI)
    fix j assume "j < length (shards s1)"
    with s1(3,4) Cons.prems(5) s1(5) [of j]
    show "\<forall>(k, e) \<in> set (shard_items s1 j). IsExpired e t" by (cases "j = i") auto
  qed
  show ?case
  proof (cases "envs = []")
    case True
    with Cons.prems(2) s1 empty1 show ?thesis by auto
  next
    case False
    then have "0 < length envs" by simp
    with Cons.prems(2) have "Suc i < length (shards s)" unfolding list.size by linarith
    then have "(i + 1) mod length (shards s) = Suc i" by simp
    moreover have "\<exists>s'. sweeper_run envs (Suc i, s1) = Some (0, s') \<and> store_inv s' \<and>
        (\<forall>j < length (shards s'). shard_items s' j = [])"
      using Cons.IH [OF s1(2) _ False empty1 expired1] Cons.prems(2,6) s1(3) by auto
    ultimately show ?thesis using s1(1) by simp
  qed
qed simp

text \<open>
  C29. A bulk expiry is reclaimed within one cycle: if every entry of the store has expired
  by \<open>t\<close> and the sweeper is not stopped, one tick per shard, each after \<open>t\<close>, brings the
  index back to 0 and leaves every shard empty.
\<close>

theorem sweeper_cycle_reclaims:
  assumes "\<forall>env \<in> set envs. env_ok env \<and> (\<forall>j. \<not> env_stop env j \<and> t \<le> env_now env j \<and> env_now env j \<le> u)"
    and "store_inv s" "length envs = length (shards s)"
    and "\<forall>k e. lookup_entry s k = Some e \<longrightarrow> IsExpired e t"
  shows "\<exists>s'. sweeper_run envs (0, s) = Some (0, s') \<and> store_inv s' \<and>
    (\<forall>j < length (shards s'). shard_items s' j = [])"
proof -
  have "envs \<noteq> []" using assms(2,3) by (auto simp: store_inv_def)
  moreover have "\<forall>j < length (shards s). \<forall>(k, e) \<in> set (shard_items s j). IsExpired e t"
  proof (intro allI impI ballI, clarify)
    fix j k e assume "j < length (shards s)" "(k, e) \<in> set (shard_items s j)"
    then have "(k, e) \<in> set (all_entries s)" by (auto simp: all_entries_def)
    with assms(2,4) show "IsExpired e t" by (simp add: in_all_entries)
  qed
  ultimately show ?thesis
    using sweeper_run_empties [OF assms(1,2), of 0] assms(3) by simp
qed

theorem sweeper_cycle_reclaims_witness:
  "\<exists>s'. sweeper_run (replicate 256 (demo_env 500)) (0, store_Set empty_store ''k'' [1] 100 5 5) = Some (0, s') \<and>
     (\<forall>j < length (shards s'). shard_items s' j = [])"
proof -
  let ?s = "store_Set empty_store ''k'' [1] 100 5 5"
  have "length (shards ?s) = 256"
    by (simp add: store_Set_def put_entry_def empty_store_def Let_def)
  moreover have "\<forall>k e. lookup_entry ?s k = Some e \<longrightarrow> IsExpired e 500"
    by (simp add: view_Set [OF empty_store_inv] lookup_empty mk_entry_def IsExpired_def
        IsZero_def After_def Add_def)
  ultimately show ?thesis
    using sweeper_cycle_reclaims [of "replicate 256 (demo_env 500)" 500 500 ?s]
      store_Set_inv [OF empty_store_inv] demo_env_ok
    by (auto simp: demo_env_def)
qed

end
