(* ===== verification/Hash_Ring.thy ===== *)
theory Hash_Ring
  imports Go_Map "HOL-Library.Char_ord" "HOL-Library.List_Lexorder"
begin

text \<open>
  The consistent hash ring with bounded loads, \<open>internal/hashing/ring.go\<close>.

  Two things the Go code leaves to the outside are arguments. \<open>sortf\<close> is what
  \<open>sort.Slice\<close> does to the virtual nodes: it sorts them by hash, and, not being stable, may
  order equal hashes as it likes (locale \<open>vnode_sort\<close>). \<open>fl\<close> is the rounding of one
  \<open>float64\<close> operation, applied wherever the code computes with floats. A registered
  callback is called after the lock is released; the model returns which callback is called
  and on what node, and the wiring in \<open>cmd/cachenode/main.go\<close> says what it does.

  \<open>GetNodes\<close> takes its count as a natural number: a negative count would panic in
  \<open>make\<close>, and the callers pass 1 or a replica count that is at least 1.
\<close>

section \<open>Data\<close>

record VNode =
  vHash :: u64
  vNodeID :: string
  vIndex :: nat

record NodeLoad =
  lNodeID :: string
  lActive :: int

record Ring =
  vnodes :: "VNode list"
  nodeVnodes :: int
  nodes :: "(string, bool) gomap"
  loads :: "(string, NodeLoad) gomap"
  maxLoadFactor :: rat
  onNodeAdded :: bool
  onNodeRemoved :: bool

datatype ring_call = CallAdded string | CallRemoved string

definition NewRing :: "int \<Rightarrow> rat \<Rightarrow> Ring" where
  "NewRing vnodeCount mlf =
     \<lparr>vnodes = [], nodeVnodes = (if vnodeCount \<le> 0 then 150 else vnodeCount), nodes = [], loads = [],
      maxLoadFactor = (if mlf < 0 then 1 / 4 else mlf), onNodeAdded = False, onNodeRemoved = False\<rparr>"

definition SetOnNodeAdded :: "Ring \<Rightarrow> Ring" where
  "SetOnNodeAdded r = r\<lparr>onNodeAdded := True\<rparr>"

definition SetOnNodeRemoved :: "Ring \<Rightarrow> Ring" where
  "SetOnNodeRemoved r = r\<lparr>onNodeRemoved := True\<rparr>"

section \<open>Hashing\<close>

definition hashKey :: "string \<Rightarrow> u64" where
  "hashKey key = fnv64a_write fnv64a_init (bytes_of key)"

definition vnode_label :: "string \<Rightarrow> nat \<Rightarrow> string" where
  "vnode_label nodeID index = nodeID @ ''#'' @ fmt_d index"

definition hashVNode :: "string \<Rightarrow> nat \<Rightarrow> u64" where
  "hashVNode nodeID index = fnv64a_write fnv64a_init (bytes_of (vnode_label nodeID index))"

section \<open>Membership of the ring\<close>

definition HasNode :: "Ring \<Rightarrow> string \<Rightarrow> bool" where
  "HasNode r nodeID \<longleftrightarrow> gm_get (nodes r) nodeID = Some True"

definition node_vnodes :: "int \<Rightarrow> string \<Rightarrow> VNode list" where
  "node_vnodes n nodeID =
     map (\<lambda>i. \<lparr>vHash = hashVNode nodeID i, vNodeID = nodeID, vIndex = i\<rparr>) [0..<nat n]"

definition AddNode :: "(VNode list \<Rightarrow> VNode list) \<Rightarrow> Ring \<Rightarrow> string \<Rightarrow> Ring \<times> bool \<times> ring_call list" where
  "AddNode sortf r nodeID =
     (if HasNode r nodeID then (r, False, [])
      else (r\<lparr>nodes := gm_put nodeID True (nodes r),
              loads := gm_put nodeID \<lparr>lNodeID = nodeID, lActive = 0\<rparr> (loads r),
              vnodes := sortf (vnodes r @ node_vnodes (nodeVnodes r) nodeID)\<rparr>,
            True, if onNodeAdded r then [CallAdded nodeID] else []))"

text \<open>
  \<open>None\<close> is the panic of \<open>make\<close> for a negative capacity \<open>len(r.vnodes)-r.nodeVnodes\<close>.
\<close>

definition RemoveNode :: "Ring \<Rightarrow> string \<Rightarrow> (Ring \<times> bool \<times> ring_call list) option" where
  "RemoveNode r nodeID =
     (if \<not> HasNode r nodeID then Some (r, False, [])
      else if int (length (vnodes r)) - nodeVnodes r < 0 then None
      else Some (r\<lparr>nodes := gm_del nodeID (nodes r), loads := gm_del nodeID (loads r),
                   vnodes := filter (\<lambda>vn. vNodeID vn \<noteq> nodeID) (vnodes r)\<rparr>,
                 True, if onNodeRemoved r then [CallRemoved nodeID] else []))"

section \<open>Lookup\<close>

text \<open>\<open>sort.Search\<close>: the library's binary search, step by step.\<close>

function sort_Search :: "(nat \<Rightarrow> bool) \<Rightarrow> nat \<Rightarrow> nat \<Rightarrow> nat" where
  "sort_Search f i j =
     (if i < j then
        let h = (i + j) div 2 in
        if \<not> f h then sort_Search f (Suc h) j else sort_Search f i h
      else i)"
  by pat_completeness auto
termination
  by (relation "measure (\<lambda>(f, i, j). j - i)") auto

declare sort_Search.simps [simp del]

definition search :: "Ring \<Rightarrow> u64 \<Rightarrow> nat" where
  "search r hash =
     (let idx = sort_Search (\<lambda>i. vHash (vnodes r ! i) \<ge> hash) 0 (length (vnodes r))
      in if idx \<ge> length (vnodes r) then 0 else idx)"

definition totalLoad :: "Ring \<Rightarrow> int" where
  "totalLoad r = foldl (\<lambda>total (_, load). int64 (total + lActive load)) 0 (loads r)"

definition averageLoad :: "(rat \<Rightarrow> rat) \<Rightarrow> Ring \<Rightarrow> rat" where
  "averageLoad fl r =
     (let n = length (nodes r) in
      if n = 0 then 0 else fl (fl (of_int (totalLoad r)) / fl (of_nat n)))"

definition go_trunc :: "rat \<Rightarrow> int" where
  "go_trunc x = (if 0 \<le> x then \<lfloor>x\<rfloor> else \<lceil>x\<rceil>)"

definition maxLoad :: "(rat \<Rightarrow> rat) \<Rightarrow> Ring \<Rightarrow> int" where
  "maxLoad fl r =
     (let m = go_trunc (fl (averageLoad fl r * fl (1 + maxLoadFactor r)))
      in if m < 1 then 1 else m)"

definition accepts :: "Ring \<Rightarrow> int \<Rightarrow> VNode \<Rightarrow> bool" where
  "accepts r bound vnode =
     (case gm_get (loads r) (vNodeID vnode) of None \<Rightarrow> True | Some load \<Rightarrow> lActive load < bound)"

definition GetNode :: "(rat \<Rightarrow> rat) \<Rightarrow> Ring \<Rightarrow> string \<Rightarrow> string option" where
  "GetNode fl r key =
     (if vnodes r = [] then None
      else
        let idx = search r (hashKey key); bound = maxLoad fl r; n = length (vnodes r) in
        case find (\<lambda>i. accepts r bound (vnodes r ! ((idx + i) mod n))) [0..<n] of
          Some i \<Rightarrow> Some (vNodeID (vnodes r ! ((idx + i) mod n)))
        | None \<Rightarrow> Some (vNodeID (vnodes r ! idx)))"

fun getNodes_loop :: "nat \<Rightarrow> VNode list \<Rightarrow> (string, bool) gomap \<Rightarrow> string list \<Rightarrow> string list" where
  "getNodes_loop n [] seen result = result"
| "getNodes_loop n (vnode # rest) seen result =
     (if length result < n then
        if gm_get seen (vNodeID vnode) \<noteq> Some True
        then getNodes_loop n rest (gm_put (vNodeID vnode) True seen) (result @ [vNodeID vnode])
        else getNodes_loop n rest seen result
      else result)"

definition GetNodes :: "Ring \<Rightarrow> string \<Rightarrow> nat \<Rightarrow> string list" where
  "GetNodes r key n0 =
     (if vnodes r = [] then []
      else
        let nodeCount = length (nodes r); n = (if n0 > nodeCount then nodeCount else n0);
            idx = search r (hashKey key); total = length (vnodes r) in
        getNodes_loop n (map (\<lambda>i. vnodes r ! ((idx + i) mod total)) [0..<total]) [] [])"

section \<open>Loads and queries\<close>

definition add_load :: "Ring \<Rightarrow> string \<Rightarrow> int \<Rightarrow> Ring" where
  "add_load r nodeID d =
     (case gm_get (loads r) nodeID of
        None \<Rightarrow> r
      | Some load \<Rightarrow>
          r\<lparr>loads := gm_put nodeID (load\<lparr>lActive := int64 (lActive load + d)\<rparr>) (loads r)\<rparr>)"

definition IncrementLoad :: "Ring \<Rightarrow> string \<Rightarrow> Ring" where
  "IncrementLoad r nodeID = add_load r nodeID 1"

definition DecrementLoad :: "Ring \<Rightarrow> string \<Rightarrow> Ring" where
  "DecrementLoad r nodeID = add_load r nodeID (-1)"

definition GetLoad :: "Ring \<Rightarrow> string \<Rightarrow> int" where
  "GetLoad r nodeID = (case gm_get (loads r) nodeID of None \<Rightarrow> 0 | Some load \<Rightarrow> lActive load)"

definition Members :: "Ring \<Rightarrow> string list" where
  "Members r = sort (map fst (nodes r))"

definition ring_Size :: "Ring \<Rightarrow> nat" where
  "ring_Size r = length (nodes r)"

definition IsEmpty :: "Ring \<Rightarrow> bool" where
  "IsEmpty r \<longleftrightarrow> ring_Size r = 0"

section \<open>The sorting contract and the invariant\<close>

locale vnode_sort =
  fixes sortf :: "VNode list \<Rightarrow> VNode list"
  assumes sortf_perm: "mset (sortf xs) = mset xs"
    and sortf_sorted: "sorted (map vHash (sortf xs))"
begin

text \<open>Without equal hashes there is one way to sort, so adding nodes in between does not reorder the others.\<close>

lemma sortf_filter:
  assumes "distinct (map vHash (xs @ ys))" "sorted (map vHash xs)"
    and "\<And>v. v \<in> set xs \<Longrightarrow> P v" "\<And>v. v \<in> set ys \<Longrightarrow> \<not> P v"
  shows "filter P (sortf (xs @ ys)) = xs"
proof (rule map_sorted_distinct_set_unique [of vHash])
  have "filter P (xs @ ys) = xs"
    using assms(3,4) by (simp add: filter_id_conv filter_empty_conv)
  then have ms: "mset (filter P (sortf (xs @ ys))) = mset xs"
    by (metis mset_filter sortf_perm)
  then show set: "set (filter P (sortf (xs @ ys))) = set xs"
    by (metis set_mset_mset)
  show "sorted (map vHash (filter P (sortf (xs @ ys))))"
    by (rule sorted_filter [OF sortf_sorted])
  show "sorted (map vHash xs)" by (rule assms(2))
  show "distinct (map vHash xs)" using assms(1) by simp
  then show "distinct (map vHash (filter P (sortf (xs @ ys))))"
    by (metis ms mset_eq_imp_distinct_iff mset_map)
  show "inj_on vHash (set (filter P (sortf (xs @ ys))) \<union> set xs)"
    using assms(1) by (simp add: set distinct_map del: set_filter)
qed

end

interpretation stable_sort: vnode_sort "sort_key vHash"
  by unfold_locales simp_all

definition ring_inv :: "Ring \<Rightarrow> bool" where
  "ring_inv r \<longleftrightarrow>
     0 < nodeVnodes r \<and> 0 \<le> maxLoadFactor r \<and>
     gm_inv (nodes r) \<and> (\<forall>(id, b) \<in> set (nodes r). b) \<and>
     gm_inv (loads r) \<and> fst ` set (loads r) = fst ` set (nodes r) \<and>
     sorted (map vHash (vnodes r)) \<and>
     mset (vnodes r) = mset (concat (map (node_vnodes (nodeVnodes r)) (map fst (nodes r))))"

lemma HasNode_iff:
  assumes "ring_inv r"
  shows "HasNode r x \<longleftrightarrow> x \<in> fst ` set (nodes r)"
proof (cases "gm_get (nodes r) x")
  case None
  then have "x \<notin> fst ` set (nodes r)" by (simp add: map_of_eq_None_iff)
  with None show ?thesis by (simp add: HasNode_def)
next
  case (Some b)
  then have "(x, b) \<in> set (nodes r)" by (rule map_of_SomeD)
  moreover from this have "b" using assms by (auto simp: ring_inv_def)
  ultimately show ?thesis using Some by (force simp: HasNode_def)
qed

lemma node_vnodes_id [simp]: "v \<in> set (node_vnodes n x) \<Longrightarrow> vNodeID v = x"
  by (auto simp: node_vnodes_def)

lemma length_node_vnodes [simp]: "length (node_vnodes n x) = nat n"
  by (simp add: node_vnodes_def)

lemma gm_put_new: "k \<notin> fst ` set m \<Longrightarrow> gm_put k v m = m @ [(k, v)]"
  by (induction m) auto

lemma filter_concat_vnodes:
  "filter (\<lambda>v. vNodeID v \<noteq> x) (concat (map (node_vnodes n) ids)) =
     concat (map (node_vnodes n) (filter (\<lambda>y. y \<noteq> x) ids))"
proof (induction ids)
  case (Cons y ids)
  have "filter (\<lambda>v. vNodeID v \<noteq> x) (node_vnodes n y) = (if y = x then [] else node_vnodes n y)"
    by (auto simp: filter_empty_conv filter_id_conv)
  with Cons show ?case by simp
qed simp

lemma NewRing_inv [cache_inv]: "ring_inv (NewRing n mlf)"
  by (simp add: ring_inv_def NewRing_def)

lemma SetOn_inv [cache_inv]:
  "ring_inv (SetOnNodeAdded r) = ring_inv r" "ring_inv (SetOnNodeRemoved r) = ring_inv r"
  by (simp_all add: ring_inv_def SetOnNodeAdded_def SetOnNodeRemoved_def)

lemma add_load_inv [cache_inv]: "ring_inv r \<Longrightarrow> ring_inv (add_load r x d)"
proof (cases "gm_get (loads r) x")
  case (Some l)
  assume inv: "ring_inv r"
  have "x \<in> fst ` set (loads r)" using Some by (force dest: map_of_SomeD)
  with inv Some show ?thesis
    by (auto simp: ring_inv_def add_load_def gm_keys_put alm.inv_put insert_absorb)
qed (simp add: add_load_def)

context vnode_sort
begin

lemma AddNode_inv: "ring_inv r \<Longrightarrow> ring_inv (fst (AddNode sortf r x))"
proof (cases "HasNode r x")
  case False
  assume inv: "ring_inv r"
  from False have new: "x \<notin> fst ` set (nodes r)" using HasNode_iff [OF inv] by simp
  with inv have "x \<notin> fst ` set (loads r)" by (simp add: ring_inv_def)
  with inv new False show ?thesis
    by (auto simp: ring_inv_def AddNode_def gm_put_new sortf_sorted sortf_perm gm_inv_def)
qed (simp add: AddNode_def)

end

lemma RemoveNode_inv:
  assumes "ring_inv r" "RemoveNode r x = Some (r', b, cs)"
  shows "ring_inv r'"
proof (cases "HasNode r x")
  case True
  have ids: "map fst (gm_del x (nodes r)) = filter (\<lambda>y. y \<noteq> x) (map fst (nodes r))"
    by (simp add: delete_keys removeAll_filter_not_eq neq_commute)
  from True assms have r': "r' = r\<lparr>nodes := gm_del x (nodes r), loads := gm_del x (loads r),
      vnodes := filter (\<lambda>vn. vNodeID vn \<noteq> x) (vnodes r)\<rparr>"
    by (simp add: RemoveNode_def split: if_splits)
  have "mset (filter (\<lambda>vn. vNodeID vn \<noteq> x) (vnodes r)) =
      mset (filter (\<lambda>vn. vNodeID vn \<noteq> x) (concat (map (node_vnodes (nodeVnodes r)) (map fst (nodes r)))))"
    using assms(1) by (simp add: ring_inv_def)
  also have "\<dots> = mset (concat (map (node_vnodes (nodeVnodes r)) (map fst (gm_del x (nodes r)))))"
    by (simp only: filter_concat_vnodes ids)
  finally have vs: "mset (filter (\<lambda>vn. vNodeID vn \<noteq> x) (vnodes r)) =
      mset (concat (map (node_vnodes (nodeVnodes r)) (map fst (gm_del x (nodes r)))))" .
  have "\<forall>(id, b) \<in> set (gm_del x (nodes r)). b"
    using assms(1) by (auto simp: ring_inv_def AList.delete_eq)
  with vs assms(1) show ?thesis
    unfolding r' ring_inv_def by (simp add: gm_keys_del alm.inv_del sorted_filter)
next
  case False
  with assms show ?thesis by (simp add: RemoveNode_def)
qed

end
