(* ===== verification/Ring_Correct.thy ===== *)
theory Ring_Correct
  imports Hash_Ring
begin

text \<open>
  Correctness of the hash ring: the binary search, the order in which a key meets the
  nodes (\<open>pref\<close>, its preference list), the lookups against it, and what adding and
  removing a node does to it.
\<close>

section \<open>Binary search\<close>

lemma sort_Search_between:
  assumes "\<forall>k < i. \<not> f k" "\<forall>k. j \<le> k \<and> k < n \<longrightarrow> f k" "i \<le> j" "j \<le> n"
    and mono: "\<forall>a b. a \<le> b \<and> b < n \<and> f a \<longrightarrow> f b"
  shows "sort_Search f i j \<le> n \<and> (\<forall>k < sort_Search f i j. \<not> f k) \<and>
    (\<forall>k. sort_Search f i j \<le> k \<and> k < n \<longrightarrow> f k)"
  using assms
proof (induction f i j rule: sort_Search.induct)
  case (1 f i j)
  let ?h = "(i + j) div 2"
  show ?case
  proof (cases "i < j")
    case True
    then have h: "i \<le> ?h" "?h < j" by auto
    show ?thesis
    proof (cases "f ?h")
      case fh: True
      have eq: "sort_Search f i j = sort_Search f i ?h"
        using True fh by (subst sort_Search.simps) (simp add: Let_def)
      have "\<forall>k. ?h \<le> k \<and> k < n \<longrightarrow> f k" using fh "1.prems"(5) by blast
      with "1.prems"(1,4,5) h fh show ?thesis
        unfolding eq by (intro "1.IH"(2) [OF True refl]) auto
    next
      case fh: False
      have eq: "sort_Search f i j = sort_Search f (Suc ?h) j"
        using True fh by (subst sort_Search.simps) (simp add: Let_def)
      have "\<not> f k" if "k < Suc ?h" for k
        using fh "1.prems"(4,5) h that by (meson less_Suc_eq_le less_le_trans)
      with "1.prems"(2,4,5) h fh show ?thesis
        unfolding eq by (intro "1.IH"(1) [OF True refl]) auto
    qed
  next
    case False
    then have "sort_Search f i j = i" by (subst sort_Search.simps) simp
    with "1.prems" False show ?thesis by simp
  qed
qed

lemma sort_Search_takeWhile:
  assumes "sorted (map vHash vs)"
  shows "sort_Search (\<lambda>i. vHash (vs ! i) \<ge> h) 0 (length vs) = length (takeWhile (\<lambda>v. vHash v < h) vs)"
proof -
  let ?f = "\<lambda>i. vHash (vs ! i) \<ge> h" and ?t = "length (takeWhile (\<lambda>v. vHash v < h) vs)"
  have mono: "\<forall>a b. a \<le> b \<and> b < length vs \<and> ?f a \<longrightarrow> ?f b"
  proof (intro allI impI, elim conjE)
    fix a b assume "a \<le> b" "b < length vs" "h \<le> vHash (vs ! a)"
    moreover from this have "vHash (vs ! a) \<le> vHash (vs ! b)"
      using sorted_nth_mono [OF assms, of a b] by simp
    ultimately show "h \<le> vHash (vs ! b)" by order
  qed
  have "sort_Search ?f 0 (length vs) \<le> length vs \<and>
      (\<forall>k < sort_Search ?f 0 (length vs). \<not> ?f k) \<and>
      (\<forall>k. sort_Search ?f 0 (length vs) \<le> k \<and> k < length vs \<longrightarrow> ?f k)"
    by (rule sort_Search_between [OF _ _ _ _ mono]) auto
  then have r: "sort_Search ?f 0 (length vs) \<le> length vs"
      "\<And>k. k < sort_Search ?f 0 (length vs) \<Longrightarrow> \<not> ?f k"
      "\<And>k. sort_Search ?f 0 (length vs) \<le> k \<Longrightarrow> k < length vs \<Longrightarrow> ?f k"
    by blast+
  have t: "?t \<le> length vs" by (rule length_takeWhile_le)
  have t2: "\<not> ?f k" if "k < ?t" for k
  proof -
    have "vHash (takeWhile (\<lambda>v. vHash v < h) vs ! k) < h"
      using set_takeWhileD [OF nth_mem [OF that]] by blast
    then show ?thesis by (simp add: takeWhile_nth [OF that])
  qed
  have t3: "?f ?t" if "?t < length vs"
    using nth_length_takeWhile [OF that] by (simp add: not_less)
  show ?thesis
  proof (rule antisym)
    show "sort_Search ?f 0 (length vs) \<le> ?t"
    proof (rule ccontr)
      assume "\<not> ?thesis"
      then have "\<not> ?f ?t" "?t < length vs" using r(1) r(2) [of ?t] by auto
      with t3 show False by blast
    qed
    show "?t \<le> sort_Search ?f 0 (length vs)"
    proof (rule ccontr)
      assume "\<not> ?thesis"
      then have "\<not> ?f (sort_Search ?f 0 (length vs))" "sort_Search ?f 0 (length vs) < length vs"
        using t t2 [of "sort_Search ?f 0 (length vs)"] by auto
      with r(3) show False by blast
    qed
  qed
qed

section \<open>The clockwise walk\<close>

definition clockwise :: "VNode list \<Rightarrow> u64 \<Rightarrow> VNode list" where
  "clockwise vs h = filter (\<lambda>v. h \<le> vHash v) vs @ filter (\<lambda>v. vHash v < h) vs"

lemma filter_above:
  assumes "sorted (map vHash (v # vs))" "\<not> vHash v < h"
  shows "filter (\<lambda>v. vHash v < h) vs = []" "filter (\<lambda>v. h \<le> vHash v) vs = vs"
proof -
  have "h \<le> vHash x" if "x \<in> set vs" for x
    using assms that by (auto simp: not_less intro: order_trans)
  then show "filter (\<lambda>v. vHash v < h) vs = []" "filter (\<lambda>v. h \<le> vHash v) vs = vs"
    by (auto simp: filter_empty_conv filter_id_conv not_less)
qed

lemma takeWhile_sorted_filter:
  "sorted (map vHash vs) \<Longrightarrow> takeWhile (\<lambda>v. vHash v < h) vs = filter (\<lambda>v. vHash v < h) vs"
  by (induction vs) (auto simp: filter_above)

lemma dropWhile_sorted_filter:
  "sorted (map vHash vs) \<Longrightarrow> dropWhile (\<lambda>v. vHash v < h) vs = filter (\<lambda>v. h \<le> vHash v) vs"
  by (induction vs) (auto simp: filter_above not_less)

lemma walk_rotate:
  "vs \<noteq> [] \<Longrightarrow> map (\<lambda>i. vs ! ((idx + i) mod length vs)) [0..<length vs] = rotate idx vs"
  by (rule nth_equalityI) (simp_all add: nth_rotate)

lemma walk_clockwise:
  assumes "sorted (map vHash (vnodes r))" "vnodes r \<noteq> []"
  shows "map (\<lambda>i. vnodes r ! ((search r h + i) mod length (vnodes r))) [0..<length (vnodes r)] =
    clockwise (vnodes r) h"
proof -
  let ?vs = "vnodes r" and ?t = "length (takeWhile (\<lambda>v. vHash v < h) (vnodes r))"
  have "search r h = (if ?t \<ge> length ?vs then 0 else ?t)"
    by (simp add: search_def sort_Search_takeWhile [OF assms(1)])
  then have "rotate (search r h) ?vs = drop ?t ?vs @ take ?t ?vs"
    using length_takeWhile_le [of "\<lambda>v. vHash v < h" ?vs]
    by (cases "?t = length ?vs") (simp_all add: rotate_drop_take)
  also have "\<dots> = dropWhile (\<lambda>v. vHash v < h) ?vs @ takeWhile (\<lambda>v. vHash v < h) ?vs"
    by (simp only: dropWhile_eq_drop takeWhile_eq_take [symmetric])
  finally show ?thesis
    using assms by (simp add: walk_rotate takeWhile_sorted_filter dropWhile_sorted_filter clockwise_def)
qed

lemma clockwise_filter: "clockwise (filter P vs) h = filter P (clockwise vs h)"
  by (simp add: clockwise_def conj_commute)

lemma set_clockwise [simp]: "set (clockwise vs h) = set vs"
  by (auto simp: clockwise_def)

lemma clockwise_eq_Nil [simp]: "clockwise vs h = [] \<longleftrightarrow> vs = []"
  by (metis set_clockwise set_empty)

text \<open>The nodes in the order a key meets them, each once.\<close>

definition pref :: "Ring \<Rightarrow> string \<Rightarrow> string list" where
  "pref r key = nub (map vNodeID (clockwise (vnodes r) (hashKey key)))"

lemma ring_members_vnodes:
  assumes "ring_inv r"
  shows "vNodeID ` set (vnodes r) = fst ` set (nodes r)"
proof -
  have "set (vnodes r) = set (concat (map (node_vnodes (nodeVnodes r)) (map fst (nodes r))))"
    using assms unfolding ring_inv_def by (metis set_mset_mset)
  moreover have "vNodeID ` set (node_vnodes (nodeVnodes r) x) = {x}" for x
    using assms by (simp add: ring_inv_def node_vnodes_def image_image image_constant_conv)
  ultimately show ?thesis by (auto simp: image_UN)
qed

lemma set_pref: "ring_inv r \<Longrightarrow> set (pref r key) = fst ` set (nodes r)"
  by (simp add: pref_def ring_members_vnodes)

lemma distinct_pref: "distinct (pref r key)"
  by (simp add: pref_def)

lemma length_pref: "ring_inv r \<Longrightarrow> length (pref r key) = length (nodes r)"
  using set_pref [of r key] distinct_card [OF distinct_pref, of r key]
  by (simp add: ring_inv_def gm_inv_def) (metis distinct_card length_map set_map)

lemma pref_eq_Nil: "ring_inv r \<Longrightarrow> pref r key = [] \<longleftrightarrow> nodes r = []"
  by (metis length_0_conv length_pref)

lemma vnodes_eq_Nil: "ring_inv r \<Longrightarrow> vnodes r = [] \<longleftrightarrow> nodes r = []"
  by (metis ring_members_vnodes image_is_empty set_empty)

lemma getNodes_loop_nub:
  assumes "length result \<le> n" "\<forall>x. gm_get seen x = Some True \<longleftrightarrow> x \<in> set result"
  shows "getNodes_loop n vs seen result =
    take n (result @ filter (\<lambda>x. x \<notin> set result) (nub (map vNodeID vs)))"
  using assms
proof (induction vs arbitrary: seen result)
  case (Cons v vs)
  let ?x = "vNodeID v"
  show ?case
  proof (cases "length result < n")
    case True
    show ?thesis
    proof (cases "?x \<in> set result")
      case in_result: True
      then have "filter (\<lambda>x. x \<notin> set result) (filter (\<lambda>y. y \<noteq> ?x) (nub (map vNodeID vs))) =
          filter (\<lambda>x. x \<notin> set result) (nub (map vNodeID vs))"
        by (auto intro: filter_cong)
      with True in_result Cons show ?thesis by simp
    next
      case False
      have "filter (\<lambda>x. x \<notin> set (result @ [?x])) (nub (map vNodeID vs)) =
          filter (\<lambda>x. x \<notin> set result) (filter (\<lambda>y. y \<noteq> ?x) (nub (map vNodeID vs)))"
        by (auto intro: filter_cong)
      with True False Cons.prems Cons.IH [of "result @ [?x]" "gm_put ?x True seen"]
      show ?thesis by simp
    qed
  next
    case False
    with Cons.prems show ?thesis by simp
  qed
qed simp

lemma GetNodes_pref:
  assumes "ring_inv r"
  shows "GetNodes r key n = take n (pref r key)"
proof (cases "vnodes r = []")
  case True
  with assms show ?thesis by (simp add: GetNodes_def pref_def clockwise_def)
next
  case False
  have "sorted (map vHash (vnodes r))" using assms by (simp add: ring_inv_def)
  note walk = walk_clockwise [OF this False, of "hashKey key"]
  have "GetNodes r key n = take (min n (length (nodes r))) (pref r key)"
    unfolding GetNodes_def Let_def walk
    using False by (simp add: getNodes_loop_nub pref_def min_def)
  then show ?thesis using length_pref [OF assms, of key] by (simp add: min_def)
qed

section \<open>Reachable rings\<close>

inductive ring_reach :: "(VNode list \<Rightarrow> VNode list) \<Rightarrow> Ring \<Rightarrow> bool" for sortf where
  reach_new: "ring_reach sortf (NewRing n mlf)"
| reach_add: "ring_reach sortf r \<Longrightarrow> ring_reach sortf (fst (AddNode sortf r x))"
| reach_remove: "ring_reach sortf r \<Longrightarrow> RemoveNode r x = Some (r', b, cs) \<Longrightarrow> ring_reach sortf r'"
| reach_inc: "ring_reach sortf r \<Longrightarrow> ring_reach sortf (IncrementLoad r x)"
| reach_dec: "ring_reach sortf r \<Longrightarrow> ring_reach sortf (DecrementLoad r x)"
| reach_on_added: "ring_reach sortf r \<Longrightarrow> ring_reach sortf (SetOnNodeAdded r)"
| reach_on_removed: "ring_reach sortf r \<Longrightarrow> ring_reach sortf (SetOnNodeRemoved r)"

context vnode_sort
begin

lemma ring_reach_inv: "ring_reach sortf r \<Longrightarrow> ring_inv r"
proof (induction rule: ring_reach.induct)
  case (reach_remove r x r' b cs)
  then show ?case by (blast intro: RemoveNode_inv)
next
  case (reach_add r x)
  then show ?case by (blast intro: AddNode_inv)
qed (simp_all add: NewRing_inv IncrementLoad_def DecrementLoad_def add_load_inv SetOn_inv)

end

lemma length_vnodes:
  assumes "ring_inv r"
  shows "length (vnodes r) = length (nodes r) * nat (nodeVnodes r)"
proof -
  have "length (concat (map (node_vnodes k) xs)) = length xs * nat k" for k xs
    by (induction xs) simp_all
  moreover have "length (vnodes r) = length (concat (map (node_vnodes (nodeVnodes r)) (map fst (nodes r))))"
    using assms unfolding ring_inv_def by (metis size_mset)
  ultimately show ?thesis by (simp only: length_map)
qed

lemma RemoveNode_total:
  assumes "ring_inv r"
  shows "RemoveNode r x \<noteq> None"
proof -
  have "nodeVnodes r \<le> int (length (vnodes r))" if "HasNode r x"
  proof -
    have "nodes r \<noteq> []" using that by (auto simp: HasNode_def)
    then have "1 * nat (nodeVnodes r) \<le> length (nodes r) * nat (nodeVnodes r)"
      by (intro mult_le_mono1) (simp add: Suc_le_eq)
    then show ?thesis using assms by (simp add: length_vnodes ring_inv_def nat_le_iff)
  qed
  then show ?thesis by (auto simp: RemoveNode_def)
qed

text \<open>
  C21. In every ring reachable from a new one by the ring's operations, whatever way
  \<open>sort.Slice\<close> orders equal hashes, the virtual nodes are sorted by hash and are exactly
  the \<open>nodeVnodes\<close> ones of each member, so there are \<open>nodeVnodes\<close> times as many as members;
  and \<open>RemoveNode\<close> never panics on the capacity it computes.
\<close>

theorem ring_reach_safe:
  assumes "vnode_sort sortf" "ring_reach sortf r"
  shows "ring_inv r \<and> length (vnodes r) = length (nodes r) * nat (nodeVnodes r) \<and> RemoveNode r x \<noteq> None"
  using vnode_sort.ring_reach_inv [OF assms] by (simp add: length_vnodes RemoveNode_total)

definition demo_ring :: Ring where
  "demo_ring = fst (AddNode (sort_key vHash) (fst (AddNode (sort_key vHash) (NewRing 3 (1 / 4)) ''n1'')) ''n2'')"

lemma demo_ring_reach: "ring_reach (sort_key vHash) demo_ring"
  unfolding demo_ring_def by (intro reach_add reach_new)

lemma demo_ring_inv: "ring_inv demo_ring"
  by (rule stable_sort.ring_reach_inv [OF demo_ring_reach])

lemma demo_ring_nodes: "nodes demo_ring = [(''n1'', True), (''n2'', True)]"
  by (simp add: demo_ring_def AddNode_def HasNode_def NewRing_def)

lemma demo_ring_fields: "nodeVnodes demo_ring = 3" "onNodeRemoved demo_ring = False" "onNodeAdded demo_ring = False"
  by (simp_all add: demo_ring_def AddNode_def HasNode_def NewRing_def)

theorem ring_reach_safe_witness:
  "length (vnodes demo_ring) = 6 \<and> RemoveNode demo_ring ''n1'' \<noteq> None"
  using ring_reach_safe [OF stable_sort.vnode_sort_axioms demo_ring_reach, of "''n1''"]
  by (simp add: demo_ring_nodes demo_ring_fields)

section \<open>Lookups\<close>

text \<open>The distance walked clockwise from \<open>h\<close> to \<open>a\<close>, with wrap-around at \<open>2 ^ 64\<close>, is \<open>a - h\<close>.\<close>

lemma distance_cases:
  fixes a b h :: u64
  assumes "h \<le> a \<and> (b < h \<or> a \<le> b) \<or> a < h \<and> b < h \<and> a \<le> b"
  shows "a - h \<le> b - h"
  using assms by uint_arith

lemma hd_clockwise:
  assumes "sorted (map vHash vs)" "vs \<noteq> []" "w \<in> set vs"
  shows "vHash (hd (clockwise vs h)) - h \<le> vHash w - h"
proof (cases "filter (\<lambda>v. h \<le> vHash v) vs")
  case Nil
  then have low: "vHash v < h" if "v \<in> set vs" for v
    using that by (auto simp: filter_empty_conv not_le)
  then have "clockwise vs h = vs" using Nil by (simp add: clockwise_def filter_id_conv)
  moreover have "vHash (hd vs) \<le> vHash w"
    using assms by (cases vs) auto
  ultimately show ?thesis using low assms by (intro distance_cases) simp
next
  case (Cons v us)
  have "sorted (map vHash (v # us))"
    using sorted_filter [OF assms(1), of "\<lambda>v. h \<le> vHash v"] Cons by simp
  moreover have "w \<in> set (v # us)" if "h \<le> vHash w"
    using that assms(3) by (simp flip: Cons)
  ultimately have "vHash w < h \<or> vHash v \<le> vHash w"
    by (cases "h \<le> vHash w") auto
  moreover have "h \<le> vHash v"
    using Cons by (metis (mono_tags, lifting) filter_eq_ConsD)
  ultimately have "vHash v - h \<le> vHash w - h" by (intro distance_cases) blast
  then show ?thesis by (simp add: clockwise_def Cons)
qed

text \<open>
  C20. \<open>GetNodes\<close> returns \<open>n\<close> distinct members, or all of them when there are fewer; asking
  for more nodes only extends the list; and the first node, the primary, owns a virtual node
  at minimal clockwise distance (subtraction with wrap-around at \<open>2 ^ 64\<close>) from the hash of
  the key.
\<close>

theorem GetNodes_correct:
  assumes "ring_inv r"
  shows "distinct (GetNodes r key n) \<and> set (GetNodes r key n) \<subseteq> set (map fst (nodes r)) \<and>
    length (GetNodes r key n) = min n (length (nodes r)) \<and>
    (m \<le> n \<longrightarrow> GetNodes r key m = take m (GetNodes r key n)) \<and>
    (0 < n \<longrightarrow> nodes r \<noteq> [] \<longrightarrow>
      (\<exists>v \<in> set (vnodes r). vNodeID v = hd (GetNodes r key n) \<and>
        (\<forall>w \<in> set (vnodes r). vHash v - hashKey key \<le> vHash w - hashKey key)))"
proof -
  have pref: "GetNodes r key i = take i (pref r key)" for i
    using assms by (rule GetNodes_pref)
  have "\<exists>v \<in> set (vnodes r). vNodeID v = hd (take n (pref r key)) \<and>
      (\<forall>w \<in> set (vnodes r). vHash v - hashKey key \<le> vHash w - hashKey key)"
    if "0 < n" "nodes r \<noteq> []"
  proof -
    let ?c = "clockwise (vnodes r) (hashKey key)"
    have ne: "vnodes r \<noteq> []" using that(2) vnodes_eq_Nil [OF assms] by simp
    then have "?c \<noteq> []" by simp
    then have "hd (take n (pref r key)) = vNodeID (hd ?c)" "hd ?c \<in> set (vnodes r)"
      using that(1) hd_in_set [of ?c] by (simp_all add: pref_def hd_nub hd_map)
    moreover have "sorted (map vHash (vnodes r))" using assms by (simp add: ring_inv_def)
    ultimately show ?thesis using hd_clockwise [OF _ ne] by auto
  qed
  moreover have "set (take n (pref r key)) \<subseteq> set (map fst (nodes r))"
    using set_take_subset [of n "pref r key"] set_pref [OF assms, of key] by simp
  moreover have "length (take n (pref r key)) = min n (length (nodes r))"
    using length_pref [OF assms, of key] by (simp add: min.commute)
  ultimately show ?thesis
    by (simp add: pref distinct_pref min_def)
qed

theorem GetNodes_correct_witness:
  "distinct (GetNodes demo_ring ''key'' 5) \<and> length (GetNodes demo_ring ''key'' 5) = 2"
proof -
  note correct = GetNodes_correct [OF demo_ring_inv, of "''key''" 5 0]
  have "length (GetNodes demo_ring ''key'' 5) = min 5 (length (nodes demo_ring))"
    by (rule correct [THEN conjunct2, THEN conjunct2, THEN conjunct1])
  with conjunct1 [OF correct] show ?thesis by (simp add: demo_ring_nodes)
qed

section \<open>Minimal disruption\<close>

lemma pref_filter:
  "pref (r\<lparr>nodes := a, loads := b, vnodes := filter (\<lambda>v. vNodeID v \<noteq> x) (vnodes r)\<rparr>) key =
     filter (\<lambda>y. y \<noteq> x) (pref r key)"
  by (simp add: pref_def clockwise_filter nub_filter filter_map o_def flip: nub_filter)

lemma pref_RemoveNode:
  assumes "ring_inv r" "RemoveNode r x = Some (r', b, cs)"
  shows "pref r' key = filter (\<lambda>y. y \<noteq> x) (pref r key)"
proof (cases "HasNode r x")
  case True
  with assms(2) have "r' = r\<lparr>nodes := gm_del x (nodes r), loads := gm_del x (loads r),
      vnodes := filter (\<lambda>vn. vNodeID vn \<noteq> x) (vnodes r)\<rparr>"
    by (simp add: RemoveNode_def split: if_splits)
  then show ?thesis by (simp only: pref_filter)
next
  case False
  then have "x \<notin> set (pref r key)"
    using set_pref [OF assms(1)] HasNode_iff [OF assms(1)] by simp
  then have "filter (\<lambda>y. y \<noteq> x) (pref r key) = pref r key" by (auto simp: filter_id_conv)
  with False assms(2) show ?thesis by (simp add: RemoveNode_def)
qed

lemma take_filter_neq:
  assumes "distinct xs"
  shows "take n (filter (\<lambda>y. y \<noteq> x) xs) = take n (filter (\<lambda>y. y \<noteq> x) (take (Suc n) xs))"
  using assms
proof (induction xs arbitrary: n)
  case (Cons y ys)
  show ?case
  proof (cases "y = x")
    case True
    with Cons.prems have "filter (\<lambda>y. y \<noteq> x) ys = ys" by (auto simp: filter_id_conv)
    moreover from this have "filter (\<lambda>y. y \<noteq> x) (take n ys) = take n ys"
      by (metis filter_True filter_id_conv in_set_takeD)
    ultimately show ?thesis using True by simp
  next
    case False
    with Cons show ?thesis by (cases n) auto
  qed
qed simp

text \<open>
  C19. Removing a node disrupts only that node: the replica list of every key afterwards is
  its old list, one longer, without the removed node. So a key that had another primary
  keeps it, and the keys of the removed node go to the node that was their next replica.
\<close>

theorem RemoveNode_minimal_disruption:
  assumes "ring_inv r" "RemoveNode r x = Some (r', b, cs)"
  shows "GetNodes r' key n = take n (filter (\<lambda>y. y \<noteq> x) (GetNodes r key (Suc n)))"
proof -
  have "GetNodes r' key n = take n (filter (\<lambda>y. y \<noteq> x) (pref r key))"
    using GetNodes_pref [OF RemoveNode_inv [OF assms]] pref_RemoveNode [OF assms] by simp
  also have "\<dots> = take n (filter (\<lambda>y. y \<noteq> x) (take (Suc n) (pref r key)))"
    using distinct_pref by (rule take_filter_neq)
  finally show ?thesis by (simp only: GetNodes_pref [OF assms(1)])
qed

theorem RemoveNode_minimal_disruption_witness:
  "\<exists>r'. RemoveNode demo_ring ''n1'' = Some (r', True, []) \<and>
     GetNodes r' ''k'' 1 = take 1 (filter (\<lambda>y. y \<noteq> ''n1'') (GetNodes demo_ring ''k'' 2))"
proof -
  obtain r' b cs where r': "RemoveNode demo_ring ''n1'' = Some (r', b, cs)"
    using RemoveNode_total [OF demo_ring_inv, of "''n1''"] by auto
  moreover have "b" "cs = []"
    using r' by (auto simp: RemoveNode_def HasNode_def demo_ring_nodes demo_ring_fields split: if_splits)
  moreover have "GetNodes r' ''k'' 1 = take 1 (filter (\<lambda>y. y \<noteq> ''n1'') (GetNodes demo_ring ''k'' (Suc 1)))"
    by (rule RemoveNode_minimal_disruption [OF demo_ring_inv r'])
  ultimately show ?thesis by (auto simp: numeral_2_eq_2)
qed

definition no_collision :: "Ring \<Rightarrow> string \<Rightarrow> bool" where
  "no_collision r x \<longleftrightarrow> distinct (map vHash (vnodes r @ node_vnodes (nodeVnodes r) x))"

lemma gm_del_put_new: "k \<notin> fst ` set m \<Longrightarrow> gm_del k (gm_put k v m) = m"
  by (induction m) (auto simp: AList.delete_eq)

context vnode_sort
begin

lemma AddNode_then_filter:
  assumes "ring_inv r" "\<not> HasNode r x" "no_collision r x"
  shows "filter (\<lambda>v. vNodeID v \<noteq> x) (sortf (vnodes r @ node_vnodes (nodeVnodes r) x)) = vnodes r"
proof (rule sortf_filter)
  show "distinct (map vHash (vnodes r @ node_vnodes (nodeVnodes r) x))"
    using assms(3) by (simp only: no_collision_def)
  show "sorted (map vHash (vnodes r))" using assms(1) by (simp add: ring_inv_def)
  show "vNodeID v \<noteq> x" if "v \<in> set (vnodes r)" for v
    using that ring_members_vnodes [OF assms(1)] HasNode_iff [OF assms(1)] assms(2) by blast
  show "\<not> vNodeID v \<noteq> x" if "v \<in> set (node_vnodes (nodeVnodes r) x)" for v
    using that by simp
qed

lemma RemoveNode_AddNode:
  assumes "ring_inv r" "\<not> HasNode r x" "no_collision r x"
  shows "map_option fst (RemoveNode (fst (AddNode sortf r x)) x) = Some r"
proof -
  let ?r = "fst (AddNode sortf r x)"
  have new: "x \<notin> fst ` set (nodes r)" "x \<notin> fst ` set (loads r)"
    using assms(1,2) HasNode_iff [OF assms(1)] by (auto simp: ring_inv_def)
  have "RemoveNode ?r x \<noteq> None"
    using AddNode_inv [OF assms(1)] by (rule RemoveNode_total)
  moreover have "HasNode ?r x" using assms(2) by (simp add: AddNode_def HasNode_def)
  ultimately have "map_option fst (RemoveNode ?r x) =
      Some (?r\<lparr>nodes := gm_del x (nodes ?r), loads := gm_del x (loads ?r),
              vnodes := filter (\<lambda>vn. vNodeID vn \<noteq> x) (vnodes ?r)\<rparr>)"
    by (auto simp: RemoveNode_def split: if_splits)
  also have "\<dots> = Some r"
    using new assms(2) AddNode_then_filter [OF assms] by (simp add: AddNode_def gm_del_put_new)
  finally show ?thesis .
qed

end

text \<open>
  C30. When no two virtual nodes share a hash, adding a node and removing it again restores
  the ring exactly, and adding it moves keys only to it: the new replica list of any key,
  without the new node, is the old list. So a key's primary stays or becomes the new node.
\<close>

theorem AddNode_minimal_disruption:
  assumes "vnode_sort sortf" "ring_inv r" "\<not> HasNode r x" "no_collision r x"
  shows "map_option fst (RemoveNode (fst (AddNode sortf r x)) x) = Some r \<and>
    GetNodes r key n = take n (filter (\<lambda>y. y \<noteq> x) (GetNodes (fst (AddNode sortf r x)) key (Suc n)))"
proof -
  let ?r = "fst (AddNode sortf r x)"
  have inv: "ring_inv ?r" using assms(1,2) by (rule vnode_sort.AddNode_inv)
  have restored: "map_option fst (RemoveNode ?r x) = Some r"
    using assms by (rule vnode_sort.RemoveNode_AddNode)
  then obtain b cs where r: "RemoveNode ?r x = Some (r, b, cs)" by auto
  have "GetNodes r key n = take n (filter (\<lambda>y. y \<noteq> x) (pref ?r key))"
    using GetNodes_pref [OF assms(2)] pref_RemoveNode [OF inv r] by simp
  also have "\<dots> = take n (filter (\<lambda>y. y \<noteq> x) (take (Suc n) (pref ?r key)))"
    using distinct_pref by (rule take_filter_neq)
  finally show ?thesis using restored by (simp only: GetNodes_pref [OF inv])
qed

theorem AddNode_minimal_disruption_witness:
  "map_option fst (RemoveNode (fst (AddNode (sort_key vHash) (NewRing 2 (1 / 4)) ''n1'')) ''n1'')
     = Some (NewRing 2 (1 / 4))"
proof -
  have "distinct (map vHash (node_vnodes 2 ''n1''))"
    by code_simp
  then have "no_collision (NewRing 2 (1 / 4)) ''n1''"
    by (simp add: no_collision_def NewRing_def)
  moreover have "\<not> HasNode (NewRing 2 (1 / 4)) ''n1''"
    by (simp add: HasNode_def NewRing_def)
  ultimately show ?thesis
    using AddNode_minimal_disruption [OF stable_sort.vnode_sort_axioms NewRing_inv] by blast
qed

section \<open>Bounded loads\<close>

lemma maxLoad_pos: "0 < maxLoad fl r"
  by (simp add: maxLoad_def Let_def)

lemma accepts_load: "accepts r (maxLoad fl r) v \<longleftrightarrow> GetLoad r (vNodeID v) < maxLoad fl r"
  using maxLoad_pos [of fl r] by (simp add: accepts_def GetLoad_def split: option.splits)

lemma GetNode_pref:
  assumes "ring_inv r"
  shows "GetNode fl r key =
    (if nodes r = [] then None
     else case find (\<lambda>y. GetLoad r y < maxLoad fl r) (pref r key) of
       Some y \<Rightarrow> Some y | None \<Rightarrow> Some (hd (pref r key)))"
proof (cases "vnodes r = []")
  case True
  with assms show ?thesis by (simp add: GetNode_def vnodes_eq_Nil)
next
  case False
  let ?vs = "vnodes r" and ?h = "hashKey key" and ?b = "maxLoad fl r"
  let ?n = "length ?vs" and ?c = "clockwise ?vs ?h"
  let ?at = "\<lambda>i. ?vs ! ((search r ?h + i) mod ?n)"
  have "sorted (map vHash ?vs)" using assms by (simp add: ring_inv_def)
  note walk = walk_clockwise [OF this False, of ?h]
  have "find (\<lambda>y. GetLoad r y < ?b) (pref r key) = find (\<lambda>y. GetLoad r y < ?b) (map vNodeID (map ?at [0..<?n]))"
    by (simp only: pref_def find_nub walk)
  also have "\<dots> = map_option (\<lambda>i. vNodeID (?at i)) (find (\<lambda>i. accepts r ?b (?at i)) [0..<?n])"
    by (simp add: find_map accepts_load o_def option.map_comp)
  finally have found: "find (\<lambda>y. GetLoad r y < ?b) (pref r key) =
    map_option (\<lambda>i. vNodeID (?at i)) (find (\<lambda>i. accepts r ?b (?at i)) [0..<?n])" .
  have "hd (map ?at [0..<?n]) = ?at 0" using False by (simp add: hd_map)
  moreover have "search r ?h < ?n" using False by (simp add: search_def Let_def)
  moreover have "?c \<noteq> []" using False by simp
  ultimately have "hd (pref r key) = vNodeID (?vs ! search r ?h)"
    unfolding pref_def hd_nub walk [symmetric] by (simp add: hd_map)
  with found False vnodes_eq_Nil [OF assms] show ?thesis
    by (simp add: GetNode_def Let_def split: option.splits)
qed


lemma demo_ring_loads: "GetLoad demo_ring y \<le> 0"
  by (simp add: GetLoad_def demo_ring_def AddNode_def HasNode_def NewRing_def)


end
