(* ===== verification/Hot_Key.thy ===== *)
theory Hot_Key
  imports Prelude
begin

text \<open>
  The hot-key detector, \<open>internal/hotkey/detector.go\<close>: the Count-Min sketch on 64-bit
  counters and the detector over it. The sketch is compared with the history of what was done
  to it: \<open>weight P h\<close> counts the increments of the keys in \<open>P\<close>, halving at every decay, on
  unbounded numbers. The contract the detector relies on is the locale \<open>freq_sketch\<close>.

  A slice index out of range would panic; \<open>cms_inv\<close> gives the slices the sizes the
  constructor makes, which no operation changes, so every index below is in range.
\<close>

section \<open>The sketch\<close>

record CountMinSketch =
  cms_width :: u32
  cms_depth :: u32
  cms_table :: "u64 list list"
  cms_seeds :: "u64 list"
  cms_total :: u64

definition cms_seed :: "u32 \<Rightarrow> u64" where
  "cms_seed i = ucast (i * 2654435761 + 1)"

definition NewCountMinSketch :: "u32 \<Rightarrow> u32 \<Rightarrow> CountMinSketch" where
  "NewCountMinSketch width0 depth0 =
     (let width = (if width0 = 0 then 4096 else width0); depth = (if depth0 = 0 then 4 else depth0) in
      \<lparr>cms_width = width, cms_depth = depth,
       cms_table = replicate (unat depth) (replicate (unat width) 0),
       cms_seeds = map (\<lambda>i. cms_seed (of_nat i)) [0..<unat depth],
       cms_total = 0\<rparr>)"

definition seedBytes :: "u64 \<Rightarrow> bytes" where
  "seedBytes seed =
     [ucast seed, ucast (drop_bit 8 seed), ucast (drop_bit 16 seed), ucast (drop_bit 24 seed)]"

definition cms_hash :: "CountMinSketch \<Rightarrow> string \<Rightarrow> nat \<Rightarrow> u32" where
  "cms_hash cms key i =
     fnv32a_write (fnv32a_write fnv32a_init (seedBytes (cms_seeds cms ! i))) (bytes_of key)"

definition cms_index :: "CountMinSketch \<Rightarrow> string \<Rightarrow> nat \<Rightarrow> nat" where
  "cms_index cms key i = unat (cms_hash cms key i mod cms_width cms)"

definition cms_Increment :: "CountMinSketch \<Rightarrow> string \<Rightarrow> CountMinSketch" where
  "cms_Increment cms key =
     cms\<lparr>cms_table :=
           update_range (unat (cms_depth cms))
             (\<lambda>i row. row[cms_index cms key i := row ! cms_index cms key i + 1]) (cms_table cms),
         cms_total := cms_total cms + 1\<rparr>"

definition Estimate :: "CountMinSketch \<Rightarrow> string \<Rightarrow> u64" where
  "Estimate cms key =
     (let m = foldl (\<lambda>m i. if cms_table cms ! i ! cms_index cms key i < m
                            then cms_table cms ! i ! cms_index cms key i else m)
                (- 1) [0..<unat (cms_depth cms)]
      in if m = - 1 then 0 else m)"

definition Decay :: "CountMinSketch \<Rightarrow> CountMinSketch" where
  "Decay cms =
     cms\<lparr>cms_table :=
           update_range (unat (cms_depth cms))
             (\<lambda>_ row. update_range (unat (cms_width cms)) (\<lambda>_ c. c div 2) row) (cms_table cms),
         cms_total := cms_total cms div 2\<rparr>"

definition cms_Reset :: "CountMinSketch \<Rightarrow> CountMinSketch" where
  "cms_Reset cms =
     cms\<lparr>cms_table :=
           update_range (unat (cms_depth cms))
             (\<lambda>_ row. update_range (unat (cms_width cms)) (\<lambda>_ _. 0) row) (cms_table cms),
         cms_total := 0\<rparr>"

definition cms_Total :: "CountMinSketch \<Rightarrow> u64" where
  "cms_Total cms = cms_total cms"

section \<open>Histories and their weight\<close>

datatype cms_event = Inc string | Halve | Zero

fun cms_apply :: "CountMinSketch \<Rightarrow> cms_event \<Rightarrow> CountMinSketch" where
  "cms_apply cms (Inc k) = cms_Increment cms k"
| "cms_apply cms Halve = Decay cms"
| "cms_apply cms Zero = cms_Reset cms"

fun weigh :: "(string \<Rightarrow> bool) \<Rightarrow> nat \<Rightarrow> cms_event \<Rightarrow> nat" where
  "weigh P n (Inc k) = (if P k then Suc n else n)"
| "weigh P n Halve = n div 2"
| "weigh P n Zero = 0"

definition weight :: "(string \<Rightarrow> bool) \<Rightarrow> cms_event list \<Rightarrow> nat" where
  "weight P h = foldl (weigh P) 0 h"

lemma weight_Nil [simp]: "weight P [] = 0"
  by (simp add: weight_def)

lemma weight_snoc [simp]: "weight P (h @ [e]) = weigh P (weight P h) e"
  by (simp add: weight_def)

lemma weigh_mono: "(\<And>k. P k \<Longrightarrow> Q k) \<Longrightarrow> m \<le> n \<Longrightarrow> weigh P m e \<le> weigh Q n e"
  by (cases e) (auto simp: div_le_mono)

lemma weight_mono:
  assumes "\<And>k. P k \<Longrightarrow> Q k"
  shows "weight P h \<le> weight Q h"
  by (induction h rule: rev_induct) (simp_all add: weigh_mono assms)

lemma weight_le_length: "weight P h \<le> length h"
proof (induction h rule: rev_induct)
  case (snoc e h)
  have "weigh P (weight P h) e \<le> Suc (weight P h)"
    by (cases e) (simp_all add: div_le_dividend le_SucI)
  with snoc show ?case by simp
qed simp

lemma weight_cong:
  assumes "\<And>k. Inc k \<in> set h \<Longrightarrow> P k = Q k"
  shows "weight P h = weight Q h"
  using assms
proof (induction h rule: rev_induct)
  case (snoc e h)
  then show ?case by (cases e) simp_all
qed simp

section \<open>The sketch against its history\<close>

definition cms_inv :: "CountMinSketch \<Rightarrow> bool" where
  "cms_inv cms \<longleftrightarrow>
     0 < cms_width cms \<and> 0 < cms_depth cms \<and> length (cms_seeds cms) = unat (cms_depth cms) \<and>
     length (cms_table cms) = unat (cms_depth cms) \<and>
     (\<forall>row \<in> set (cms_table cms). length row = unat (cms_width cms))"

definition class_of :: "CountMinSketch \<Rightarrow> nat \<Rightarrow> nat \<Rightarrow> string \<Rightarrow> bool" where
  "class_of cms i j k \<longleftrightarrow> cms_index cms k i = j"

definition tracks :: "CountMinSketch \<Rightarrow> cms_event list \<Rightarrow> bool" where
  "tracks cms h \<longleftrightarrow> cms_inv cms \<and>
     (length h < 2 ^ 64 \<longrightarrow>
        unat (cms_total cms) = weight (\<lambda>_. True) h \<and>
        (\<forall>i < unat (cms_depth cms). \<forall>j < unat (cms_width cms).
           unat (cms_table cms ! i ! j) = weight (class_of cms i j) h))"

lemma cms_index_less: "cms_inv cms \<Longrightarrow> cms_index cms k i < unat (cms_width cms)"
  unfolding cms_index_def cms_inv_def
  by (metis unat_mono word_mod_less_divisor)

lemma cms_row_length: "cms_inv cms \<Longrightarrow> i < unat (cms_depth cms) \<Longrightarrow> length (cms_table cms ! i) = unat (cms_width cms)"
  by (simp add: cms_inv_def)

lemma cms_New_inv: "cms_inv (NewCountMinSketch w d)"
  by (simp add: cms_inv_def NewCountMinSketch_def Let_def word_gt_0)

text \<open>What the three operations keep, and the cells they leave.\<close>

lemma cms_apply_frame [simp]:
  "cms_width (cms_apply cms e) = cms_width cms" "cms_depth (cms_apply cms e) = cms_depth cms"
  "cms_seeds (cms_apply cms e) = cms_seeds cms" "class_of (cms_apply cms e) i j = class_of cms i j"
  by (cases e; simp add: cms_Increment_def Decay_def cms_Reset_def class_of_def fun_eq_iff
      cms_index_def cms_hash_def)+

fun cell :: "CountMinSketch \<Rightarrow> cms_event \<Rightarrow> nat \<Rightarrow> nat \<Rightarrow> u64 \<Rightarrow> u64" where
  "cell cms (Inc k) i j c = (if class_of cms i j k then c + 1 else c)"
| "cell cms Halve i j c = c div 2"
| "cell cms Zero i j c = 0"

lemma cms_apply_cell:
  assumes "cms_inv cms" "i < unat (cms_depth cms)" "j < unat (cms_width cms)"
  shows "cms_table (cms_apply cms e) ! i ! j = cell cms e i j (cms_table cms ! i ! j)"
proof -
  have "i < length (cms_table cms)" "length (cms_table cms ! i) = unat (cms_width cms)"
    "length (cms_table cms) = unat (cms_depth cms)"
    using assms by (simp_all add: cms_inv_def)
  with assms(2,3) show ?thesis
    by (cases e) (simp_all add: cms_Increment_def Decay_def cms_Reset_def
        nth_list_update class_of_def)
qed

lemma cms_apply_inv: "cms_inv cms \<Longrightarrow> cms_inv (cms_apply cms e)"
proof -
  assume inv: "cms_inv cms"
  have len: "length (cms_table (cms_apply cms e)) = length (cms_table cms)"
    by (cases e) (simp_all add: cms_Increment_def Decay_def cms_Reset_def)
  have "length (cms_table (cms_apply cms e) ! i) = length (cms_table cms ! i)"
    if "i < unat (cms_depth cms)" for i
    using that inv by (cases e) (simp_all add: cms_Increment_def Decay_def cms_Reset_def
        cms_inv_def)
  with inv len show ?thesis
    by (simp add: cms_inv_def all_set_conv_all_nth)
qed

lemma unat_div_2: "unat (c div 2 :: u64) = unat c div 2"
  by (simp add: unat_div)

lemma tracks_step:
  assumes "tracks cms h"
  shows "tracks (cms_apply cms e) (h @ [e])"
proof -
  have inv: "cms_inv cms" using assms by (simp add: tracks_def)
  have "unat (cms_total (cms_apply cms e)) = weight (\<lambda>_. True) (h @ [e]) \<and>
      (\<forall>i < unat (cms_depth cms). \<forall>j < unat (cms_width cms).
         unat (cms_table (cms_apply cms e) ! i ! j) = weight (class_of cms i j) (h @ [e]))"
    if len: "length (h @ [e]) < 2 ^ 64"
  proof -
    from assms len have tot: "unat (cms_total cms) = weight (\<lambda>_. True) h"
      and cells: "\<And>i j. i < unat (cms_depth cms) \<Longrightarrow> j < unat (cms_width cms) \<Longrightarrow>
        unat (cms_table cms ! i ! j) = weight (class_of cms i j) h"
      by (simp_all add: tracks_def)
    have small: "Suc (weight P h) < 2 ^ 64" for P
      using len weight_le_length [of P h] by simp
    have incr: "unat (c + 1 :: u64) = Suc (weight P h)" if "unat c = weight P h" for c P
      using that small [of P] by (simp add: unat_word_ariths)
    have "unat (cms_total (cms_apply cms e)) = weight (\<lambda>_. True) (h @ [e])"
      by (cases e) (simp_all add: cms_Increment_def Decay_def cms_Reset_def unat_div_2 tot
          incr [OF tot])
    moreover have "unat (cell cms e i j (cms_table cms ! i ! j)) = weight (class_of cms i j) (h @ [e])"
      if "i < unat (cms_depth cms)" "j < unat (cms_width cms)" for i j
      by (cases e) (simp_all add: cells [OF that] unat_div_2 incr [OF cells [OF that]])
    ultimately show ?thesis by (simp add: cms_apply_cell [OF inv])
  qed
  then show ?thesis using cms_apply_inv [OF inv] by (simp add: tracks_def)
qed

lemma tracks_New: "tracks (NewCountMinSketch w d) []"
  using cms_New_inv [of w d] by (simp add: tracks_def) (simp add: NewCountMinSketch_def Let_def)

lemma tracks_run: "tracks (foldl cms_apply (NewCountMinSketch w d) h) h"
  by (induction h rule: rev_induct) (simp_all add: tracks_New tracks_step)

text \<open>
  The estimate is the weight of the lightest of the classes the key falls into. The value
  \<open>2 ^ 64 - 1\<close> is the code's own mark for "no row", so histories stay below it.
\<close>

lemma Estimate_Min:
  assumes "tracks cms h" "length h < 2 ^ 64 - 1"
  shows "unat (Estimate cms k) =
    Min ((\<lambda>i. weight (class_of cms i (cms_index cms k i)) h) ` {0..<unat (cms_depth cms)})"
proof -
  let ?d = "unat (cms_depth cms)" and ?c = "\<lambda>i. cms_table cms ! i ! cms_index cms k i"
  have inv: "cms_inv cms" using assms(1) by (simp add: tracks_def)
  have cell: "unat (?c i) = weight (class_of cms i (cms_index cms k i)) h" if "i < ?d" for i
    using assms that cms_index_less [OF inv] by (simp add: tracks_def)
  have small: "?c i < - 1" if "i < ?d" for i
  proof -
    have "unat (?c i) < 2 ^ 64 - 1"
      using cell [OF that] weight_le_length [of _ h] assms(2) by (metis le_less_trans)
    moreover have "unat (- 1 :: u64) = 2 ^ 64 - 1" by (simp add: unsigned_minus_1_eq_mask mask_eq_exp_minus_1)
    ultimately show ?thesis by (simp only: word_less_nat_alt)
  qed
  have ne: "{0..<?d} \<noteq> {}" using inv by (simp add: cms_inv_def unat_gt_0 flip: word_neq_0_conv)
  have fin: "finite (?c ` {0..<?d})" by simp
  have "Min (?c ` {0..<?d}) \<in> ?c ` {0..<?d}" using ne by (intro Min_in) auto
  with small have less: "Min (?c ` {0..<?d}) < - 1" by auto
  have "Min (insert (- 1) (?c ` {0..<?d})) = Min (?c ` {0..<?d})"
    using less ne by (simp add: min.absorb2 del: Min_gr_iff Min_less_iff)
  then have "Estimate cms k = Min (?c ` {0..<?d})"
    unfolding Estimate_def foldl_least Let_def set_upt by (simp only: less_imp_neq [OF less] if_False)
  then have "unat (Estimate cms k) = unat (Min (?c ` {0..<?d}))" by simp
  also have "\<dots> = Min (unat ` ?c ` {0..<?d})"
    using ne by (intro mono_Min_commute) (auto simp: mono_def word_le_nat_alt)
  also have "unat ` ?c ` {0..<?d} = (\<lambda>i. weight (class_of cms i (cms_index cms k i)) h) ` {0..<?d}"
    using cell by (auto simp: image_image intro!: image_cong)
  finally show ?thesis .
qed

text \<open>
  C23. On any history of increments, decays and resets shorter than \<open>2 ^ 64 - 1\<close> the sketch
  never underestimates a key's decayed count, never exceeds the total it reports, and is exact
  for a key that is alone in its cell in some row.
\<close>

theorem Estimate_bounds:
  assumes "length h < 2 ^ 64 - 1"
  shows "let cms = foldl cms_apply (NewCountMinSketch w d) h in
    weight (\<lambda>k. k = key) h \<le> unat (Estimate cms key) \<and>
    Estimate cms key \<le> cms_Total cms \<and> unat (cms_Total cms) = weight (\<lambda>_. True) h \<and>
    ((\<exists>i < unat (cms_depth cms). \<forall>k. Inc k \<in> set h \<longrightarrow> cms_index cms k i = cms_index cms key i \<longrightarrow> k = key)
      \<longrightarrow> unat (Estimate cms key) = weight (\<lambda>k. k = key) h)"
proof -
  let ?cms = "foldl cms_apply (NewCountMinSketch w d) h"
  let ?w = "\<lambda>i. weight (class_of ?cms i (cms_index ?cms key i)) h" and ?d = "unat (cms_depth ?cms)"
  have tr: "tracks ?cms h" by (rule tracks_run)
  have est: "unat (Estimate ?cms key) = Min (?w ` {0..<?d})"
    using tr assms by (rule Estimate_Min)
  have ne: "?w ` {0..<?d} \<noteq> {}" "0 < ?d"
    using tr by (simp_all add: tracks_def cms_inv_def word_less_nat_alt)
  have low: "weight (\<lambda>k. k = key) h \<le> ?w i" for i
    by (rule weight_mono) (simp add: class_of_def)
  have lower: "weight (\<lambda>k. k = key) h \<le> unat (Estimate ?cms key)"
    unfolding est using ne low by (subst Min_ge_iff) auto
  have le: "unat (Estimate ?cms key) \<le> ?w i" if "i < ?d" for i
    unfolding est using that by (intro Min_le) auto
  have total: "unat (cms_Total ?cms) = weight (\<lambda>_. True) h"
    using tr assms by (simp add: tracks_def cms_Total_def)
  have "?w 0 \<le> weight (\<lambda>_. True) h" by (rule weight_mono) simp
  with le [OF ne(2)] total have "unat (Estimate ?cms key) \<le> unat (cms_Total ?cms)" by simp
  then have upper: "Estimate ?cms key \<le> cms_Total ?cms" by (simp add: word_le_nat_alt)
  have "unat (Estimate ?cms key) = weight (\<lambda>k. k = key) h"
    if "i < ?d" "\<forall>k. Inc k \<in> set h \<longrightarrow> cms_index ?cms k i = cms_index ?cms key i \<longrightarrow> k = key" for i
  proof -
    have "?w i = weight (\<lambda>k. k = key) h"
      using that(2) by (intro weight_cong) (auto simp: class_of_def)
    with le [OF that(1)] lower show ?thesis by simp
  qed
  with lower upper total show ?thesis by (auto simp: Let_def)
qed

theorem Estimate_bounds_witness:
  "2 \<le> unat (Estimate (foldl cms_apply (NewCountMinSketch 8 2) [Inc ''a'', Inc ''b'', Inc ''a'']) ''a'')"
  using Estimate_bounds [of "[Inc ''a'', Inc ''b'', Inc ''a'']" 8 2 "''a''"]
  by (simp add: Let_def weight_def)

section \<open>The detector\<close>

record Detector =
  sketch :: CountMinSketch
  hotThreshold :: u64
  decayPeriod :: duration

definition NewDetector :: "u64 \<Rightarrow> duration \<Rightarrow> Detector" where
  "NewDetector threshold period =
     \<lparr>sketch = NewCountMinSketch 4096 4, hotThreshold = threshold, decayPeriod = period\<rparr>"

definition RecordAccess :: "Detector \<Rightarrow> string \<Rightarrow> Detector \<times> bool" where
  "RecordAccess d key =
     (let d' = d\<lparr>sketch := cms_Increment (sketch d) key\<rparr>
      in (d', Estimate (sketch d') key \<ge> hotThreshold d'))"

definition IsHot :: "Detector \<Rightarrow> string \<Rightarrow> bool" where
  "IsHot d key \<longleftrightarrow> Estimate (sketch d) key \<ge> hotThreshold d"

definition GetFrequency :: "Detector \<Rightarrow> string \<Rightarrow> u64" where
  "GetFrequency d key = Estimate (sketch d) key"

definition decay_tick :: "Detector \<Rightarrow> Detector" where
  "decay_tick d = d\<lparr>sketch := Decay (sketch d)\<rparr>"

text \<open>What the detector relies on: a sketch that follows a history and bounds each key's weight in it.\<close>

locale freq_sketch =
  fixes inc :: "'s \<Rightarrow> string \<Rightarrow> 's" and halve :: "'s \<Rightarrow> 's" and est :: "'s \<Rightarrow> string \<Rightarrow> u64"
    and follows :: "'s \<Rightarrow> cms_event list \<Rightarrow> bool" and cap :: nat
  assumes inc_follows: "follows s h \<Longrightarrow> follows (inc s k) (h @ [Inc k])"
    and halve_follows: "follows s h \<Longrightarrow> follows (halve s) (h @ [Halve])"
    and est_low: "follows s h \<Longrightarrow> length h < cap \<Longrightarrow> weight (\<lambda>x. x = k) h \<le> unat (est s k)"
    and est_high: "follows s h \<Longrightarrow> length h < cap \<Longrightarrow> unat (est s k) \<le> weight (\<lambda>_. True) h"
begin

lemma hot_complete:
  assumes "follows s h" "length h < cap" "unat t \<le> weight (\<lambda>x. x = k) h"
  shows "t \<le> est s k"
  using est_low [OF assms(1,2), of k] assms(3) by (simp add: word_le_nat_alt)

lemma hot_sound:
  assumes "follows s h" "length h < cap" "weight (\<lambda>_. True) h < unat t"
  shows "\<not> t \<le> est s k"
  using est_high [OF assms(1,2), of k] assms(3) by (simp add: word_le_nat_alt)

lemma inc_weight:
  assumes "follows s h" "Suc (length h) < cap"
  shows "Suc (weight (\<lambda>x. x = k) h) \<le> unat (est (inc s k) k)"
  using est_low [OF inc_follows [OF assms(1)], of k k] assms(2) by simp

end

interpretation cms: freq_sketch cms_Increment Decay Estimate tracks "2 ^ 64 - 1"
proof
  fix s h k
  assume tr: "tracks s h"
  show "tracks (cms_Increment s k) (h @ [Inc k])" using tracks_step [OF tr, of "Inc k"] by simp
  show "tracks (Decay s) (h @ [Halve])" using tracks_step [OF tr, of Halve] by simp
  assume len: "length h < 2 ^ 64 - 1"
  let ?w = "\<lambda>i. weight (class_of s i (cms_index s k i)) h" and ?d = "unat (cms_depth s)"
  have ne: "?w ` {0..<?d} \<noteq> {}" using tr by (simp add: tracks_def cms_inv_def word_less_nat_alt)
  have "weight (\<lambda>x. x = k) h \<le> ?w i" "?w i \<le> weight (\<lambda>_. True) h" for i
    by (auto intro!: weight_mono simp: class_of_def)
  with ne show "weight (\<lambda>x. x = k) h \<le> unat (Estimate s k)"
    and "unat (Estimate s k) \<le> weight (\<lambda>_. True) h"
    unfolding Estimate_Min [OF tr len] by (auto simp: Min_le_iff)
qed

text \<open>The detector as the accesses and decay ticks it served, in any order.\<close>

datatype detector_event = Access string | Tick

fun detector_step :: "Detector \<Rightarrow> detector_event \<Rightarrow> Detector" where
  "detector_step d (Access k) = fst (RecordAccess d k)"
| "detector_step d Tick = decay_tick d"

fun sketch_event :: "detector_event \<Rightarrow> cms_event" where
  "sketch_event (Access k) = Inc k"
| "sketch_event Tick = Halve"

lemma detector_follows:
  "tracks (sketch (foldl detector_step (NewDetector t p) es)) (map sketch_event es) \<and>
   hotThreshold (foldl detector_step (NewDetector t p) es) = t"
proof (induction es rule: rev_induct)
  case Nil
  show ?case by (simp add: NewDetector_def tracks_New)
next
  case (snoc e es)
  then show ?case
    by (cases e) (simp_all add: RecordAccess_def decay_tick_def Let_def cms.inc_follows cms.halve_follows)
qed

text \<open>
  C32. The detector has no false negatives against the decayed count: after any accesses and
  decay ticks, the access that brings a key's own count to the threshold reports it hot, and
  so does every later check until a decay; and no key is hot while fewer accesses than the
  threshold, decayed, were made in all.
\<close>

theorem detector_no_false_negatives:
  assumes "length es < 2 ^ 64 - 2"
  shows "let d = foldl detector_step (NewDetector t p) es; h = map sketch_event es in
    (unat t \<le> Suc (weight (\<lambda>k. k = key) h) \<longrightarrow> snd (RecordAccess d key) \<and> IsHot (fst (RecordAccess d key)) key) \<and>
    (weight (\<lambda>_. True) h < unat t \<longrightarrow> \<not> IsHot d key)"
proof -
  let ?d = "foldl detector_step (NewDetector t p) es" and ?h = "map sketch_event es"
  have tr: "tracks (sketch ?d) ?h" and t: "hotThreshold ?d = t"
    using detector_follows [of t p es] by simp_all
  have len: "length ?h < 2 ^ 64 - 1" "Suc (length ?h) < 2 ^ 64 - 1" using assms by simp_all
  have "t \<le> Estimate (cms_Increment (sketch ?d) key) key"
    if "unat t \<le> Suc (weight (\<lambda>k. k = key) ?h)"
    using cms.inc_weight [OF tr len(2), of key] that by (simp add: word_le_nat_alt)
  moreover have "\<not> t \<le> Estimate (sketch ?d) key" if "weight (\<lambda>_. True) ?h < unat t"
    using cms.hot_sound [OF tr len(1) that] .
  ultimately show ?thesis by (auto simp: Let_def RecordAccess_def IsHot_def t)
qed

theorem detector_no_false_negatives_witness:
  "snd (RecordAccess (foldl detector_step (NewDetector 3 60) [Access ''k'', Access ''j'', Access ''k'']) ''k'')"
  using detector_no_false_negatives [of "[Access ''k'', Access ''j'', Access ''k'']" 3 60 "''k''"]
  by (simp add: Let_def weight_def)

end
