(* ===== verification/Mitigator.thy ===== *)
theory Mitigator
  imports Store Hot_Key
begin

text \<open>
  The hot-key mitigator, \<open>internal/hotkey/mitigator.go\<close>. It shares the store and the
  detector with the server, so the operations take and return them. The clock readings of an
  operation are numbered: the \<open>i\<close>-th call of \<open>time.Now\<close> in it returns \<open>clk i\<close>. Each
  operation is the sequence of the store's critical sections it calls.
\<close>

section \<open>Data\<close>

datatype MitigationStrategy = StrategyNone | StrategyKeySplit | StrategyReadReplica

fun strategy_String :: "MitigationStrategy \<Rightarrow> string" where
  "strategy_String StrategyKeySplit = ''KEY_SPLIT''"
| "strategy_String StrategyReadReplica = ''READ_REPLICA''"
| "strategy_String StrategyNone = ''NONE''"

record Mitigator =
  splitCount :: int
  mitigatedKeys :: "(string, MitigationStrategy) gomap"
  mitigationCount :: u64

definition NewMitigator :: "int \<Rightarrow> Mitigator" where
  "NewMitigator shardCount =
     \<lparr>splitCount = (if shardCount < 2 then 4 else shardCount), mitigatedKeys = [], mitigationCount = 0\<rparr>"

section \<open>Operations\<close>

definition ShardKeyName :: "string \<Rightarrow> nat \<Rightarrow> string" where
  "ShardKeyName key shardIndex = key @ '':shard_'' @ fmt_d shardIndex"

definition hashString :: "string \<Rightarrow> u32" where
  "hashString s = foldl (\<lambda>h i. (h XOR of_char (s ! i)) * 16777619) 2166136261 [0..<length s]"

definition write_shards :: "Store \<Rightarrow> string \<Rightarrow> bytes \<Rightarrow> duration \<Rightarrow> (nat \<Rightarrow> instant) \<Rightarrow> nat \<Rightarrow> Store" where
  "write_shards s key value ttl clk n =
     foldl (\<lambda>s i. store_Set s (ShardKeyName key i) value ttl (clk (2 + 2 * i)) (clk (3 + 2 * i))) s [0..<n]"

definition applySplitting :: "Mitigator \<Rightarrow> Store \<Rightarrow> string \<Rightarrow> (nat \<Rightarrow> instant) \<Rightarrow> Store" where
  "applySplitting m s key clk =
     (case store_Get s key (clk 0) (clk 1) of
        (s', value, found) \<Rightarrow>
          if \<not> found then s' else write_shards s' key value 0 clk (nat (splitCount m)))"

definition CheckAndMitigate :: "Detector \<Rightarrow> Mitigator \<Rightarrow> Store \<Rightarrow> string \<Rightarrow> (nat \<Rightarrow> instant) \<Rightarrow>
    Detector \<times> Mitigator \<times> Store \<times> bool" where
  "CheckAndMitigate d m s key clk =
     (case RecordAccess d key of
        (d', isHot) \<Rightarrow>
          if \<not> isHot then (d', m, s, False)
          else if gm_get (mitigatedKeys m) key \<noteq> None then (d', m, s, True)
          else (d', m\<lparr>mitigatedKeys := gm_put key StrategyKeySplit (mitigatedKeys m),
                      mitigationCount := mitigationCount m + 1\<rparr>,
                applySplitting m s key clk, True))"

text \<open>\<open>None\<close> is the panic of a division by zero, when the shard count is a multiple of \<open>2 ^ 32\<close>.\<close>

definition GetShardedKey :: "Mitigator \<Rightarrow> string \<Rightarrow> string \<Rightarrow> string option" where
  "GetShardedKey m key clientID =
     (if gm_get (mitigatedKeys m) key \<noteq> Some StrategyKeySplit then Some key
      else if (word_of_int (splitCount m) :: u32) = 0 then None
      else Some (ShardKeyName key (unat (hashString clientID mod word_of_int (splitCount m)))))"

definition WriteToShards :: "Mitigator \<Rightarrow> Store \<Rightarrow> string \<Rightarrow> bytes \<Rightarrow> duration \<Rightarrow> (nat \<Rightarrow> instant) \<Rightarrow> Store" where
  "WriteToShards m s key value ttl clk =
     (let s' = store_Set s key value ttl (clk 0) (clk 1) in
      if gm_get (mitigatedKeys m) key \<noteq> Some StrategyKeySplit then s'
      else write_shards s' key value ttl clk (nat (splitCount m)))"

definition IsMitigated :: "Mitigator \<Rightarrow> string \<Rightarrow> bool" where
  "IsMitigated m key \<longleftrightarrow> gm_get (mitigatedKeys m) key \<noteq> None"

definition GetMitigatedKeys :: "((string, MitigationStrategy) gomap \<Rightarrow> (string, MitigationStrategy) gomap) \<Rightarrow>
    Mitigator \<Rightarrow> (string, MitigationStrategy) gomap" where
  "GetMitigatedKeys rng m = foldl (\<lambda>result (k, v). gm_put k v result) [] (rng (mitigatedKeys m))"

definition MitigationCount :: "Mitigator \<Rightarrow> u64" where
  "MitigationCount m = mitigationCount m"

section \<open>Shard names and client hashing\<close>

lemma ShardKeyName_inj: "ShardKeyName k i = ShardKeyName k' j \<longleftrightarrow> k = k' \<and> i = j"
proof
  assume "ShardKeyName k i = ShardKeyName k' j"
  then have "(k @ '':shard'') @ [CHR ''_''] @ fmt_d i = (k' @ '':shard'') @ [CHR ''_''] @ fmt_d j"
    by (simp add: ShardKeyName_def)
  from fmt_d_suffix [OF this] show "k = k' \<and> i = j" by simp
qed simp

lemma ShardKeyName_neq [simp]: "ShardKeyName k i \<noteq> k" "k \<noteq> ShardKeyName k i"
  by (simp_all add: ShardKeyName_def)

lemma hashString_fnv: "hashString s = fnv32a_write fnv32a_init (bytes_of s)"
proof -
  have "foldl (\<lambda>h i. (h XOR of_char (s ! i)) * 16777619) a [0..<n] =
      foldl (\<lambda>h c. (h XOR of_char c) * 16777619) (a :: u32) (take n s)" if "n \<le> length s" for n a
    using that by (induction n) (simp_all add: take_Suc_conv_app_nth)
  moreover have "ucast (of_char c :: byte) = (of_char c :: u32)" for c
    by (cases c) (simp add: of_char_def)
  ultimately show ?thesis
    by (simp add: hashString_def fnv32a_write_def fnv32a_init_def bytes_of_def foldl_map)
qed

lemma foldl_gm_put_view:
  "gm_get (foldl (\<lambda>result (k, v). gm_put k v result) m xs) = gm_get m ++ map_of (rev xs)"
  by (induction xs arbitrary: m) (auto simp: map_add_upd_left)

section \<open>Writing the shards\<close>

definition shard_writes :: "string \<Rightarrow> (nat \<Rightarrow> instant) \<Rightarrow> nat \<Rightarrow> (string \<times> instant \<times> instant) list" where
  "shard_writes key clk n = map (\<lambda>i. (ShardKeyName key i, clk (2 + 2 * i), clk (3 + 2 * i))) [0..<n]"

lemma write_shards_set_all:
  "write_shards s key value ttl clk n =
     foldl (\<lambda>s (k, a, b). store_Set s k value ttl a b) s (shard_writes key clk n)"
  by (simp add: write_shards_def shard_writes_def foldl_map)

lemma shard_writes_keys:
  "fst ` set (shard_writes key clk n) = ShardKeyName key ` {0..<n}" "distinct (map fst (shard_writes key clk n))"
  by (auto simp: shard_writes_def image_image o_def distinct_map inj_on_def ShardKeyName_inj)

lemma write_shards_inv: "store_inv s \<Longrightarrow> store_inv (write_shards s key value ttl clk n)"
  unfolding write_shards_set_all by (rule st.set_all_inv)

lemma write_shards_other:
  "store_inv s \<Longrightarrow> j \<notin> ShardKeyName key ` {0..<n} \<Longrightarrow>
     lookup_entry (write_shards s key value ttl clk n) j = lookup_entry s j"
  unfolding write_shards_set_all by (rule st.set_all_view_other) (simp_all add: shard_writes_keys)

lemma write_shards_at:
  assumes "store_inv s" "i < n"
  shows "lookup_entry (write_shards s key value ttl clk n) (ShardKeyName key i) =
    Some (mk_entry value ttl (clk (2 + 2 * i)) (clk (3 + 2 * i)))"
  unfolding write_shards_set_all
  by (rule st.set_all_view [OF assms(1) shard_writes_keys(2)]) (use assms(2) in \<open>simp add: shard_writes_def\<close>)

lemma GetShardedKey_cases:
  assumes "gm_get (mitigatedKeys m) key = Some StrategyKeySplit" "2 \<le> splitCount m" "splitCount m < 2 ^ 32"
  obtains i where "i < nat (splitCount m)" "GetShardedKey m key clientID = Some (ShardKeyName key i)"
proof
  let ?n = "word_of_int (splitCount m) :: u32"
  have n: "uint ?n = splitCount m" using assms(2,3) by (simp add: uint_word_of_int mod_pos_pos_trivial)
  then have "?n \<noteq> 0" using assms(2) by auto
  then have "unat (hashString clientID mod ?n) < unat ?n"
    by (intro unat_mod_less) (simp add: word_gt_0)
  also have "unat ?n = nat (splitCount m)" by (simp only: unat_eq_nat_uint n)
  finally show "unat (hashString clientID mod ?n) < nat (splitCount m)" .
  show "GetShardedKey m key clientID = Some (ShardKeyName key (unat (hashString clientID mod ?n)))"
    using assms(1) \<open>?n \<noteq> 0\<close> by (simp add: GetShardedKey_def)
qed

section \<open>Properties\<close>

text \<open>
  C33. A client reading a split key never misses a write: after \<open>WriteToShards\<close>, whichever
  shard a client is sent to, and the original key too, holds the written value until its TTL
  has passed, and every key that is neither the original nor one of its shards is as before.
\<close>

theorem WriteToShards_read:
  assumes "store_inv s" "gm_get (mitigatedKeys m) key = Some StrategyKeySplit"
    and "2 \<le> splitCount m" "splitCount m < 2 ^ 32" "mono clk" "0 \<le> clk 0"
  shows "let s' = WriteToShards m s key value ttl clk in
    (ttl \<le> 0 \<or> t \<le> clk 0 + ttl \<longrightarrow>
      snd (store_Get s' key t t') = (value, True) \<and>
      snd (store_Get s' (the (GetShardedKey m key clientID)) t t') = (value, True)) \<and>
    (\<forall>j. j \<noteq> key \<and> j \<notin> ShardKeyName key ` {0..<nat (splitCount m)} \<longrightarrow> lookup_entry s' j = lookup_entry s j)"
proof -
  let ?s = "store_Set s key value ttl (clk 0) (clk 1)" and ?n = "nat (splitCount m)"
  let ?s' = "WriteToShards m s key value ttl clk"
  have s': "?s' = write_shards ?s key value ttl clk ?n"
    using assms(2) by (simp add: WriteToShards_def Let_def)
  have inv: "store_inv ?s" by (rule st.set_inv [OF assms(1)])
  then have inv': "store_inv ?s'" unfolding s' by (rule write_shards_inv)
  have pos: "0 \<le> clk i" "clk 0 \<le> clk i" for i
    using assms(5,6) by (auto simp: mono_def intro: order_trans)
  have read: "snd (store_Get ?s' k t t') = (value, True)"
    if "lookup_entry ?s' k = Some (mk_entry value ttl a (clk b))" "ttl \<le> 0 \<or> t \<le> clk 0 + ttl" for k a b
    using that pos(1,2) [of b] by (auto simp: st.get_reply [OF inv'] live_value_at)
  obtain i where i: "i < ?n" "GetShardedKey m key clientID = Some (ShardKeyName key i)"
    using assms(2-4) by (rule GetShardedKey_cases)
  have "lookup_entry ?s' key = Some (mk_entry value ttl (clk 0) (clk 1))"
    unfolding s' by (subst write_shards_other [OF inv]) (auto simp: st.set_view [OF assms(1)])
  moreover have "lookup_entry ?s' (ShardKeyName key i) = Some (mk_entry value ttl (clk (2 + 2 * i)) (clk (3 + 2 * i)))"
    unfolding s' by (rule write_shards_at [OF inv i(1)])
  moreover have "lookup_entry ?s' j = lookup_entry s j"
    if "j \<noteq> key" "j \<notin> ShardKeyName key ` {0..<?n}" for j
    using that unfolding s' by (subst write_shards_other [OF inv]) (simp_all add: st.set_view [OF assms(1)])
  ultimately show ?thesis using read i(2) by (simp add: Let_def)
qed

definition demo_mitigator :: Mitigator where
  "demo_mitigator = (NewMitigator 4)\<lparr>mitigatedKeys := [(''k'', StrategyKeySplit)]\<rparr>"

theorem WriteToShards_read_witness:
  "snd (store_Get (WriteToShards demo_mitigator empty_store ''k'' [1, 2] 50 int)
     (the (GetShardedKey demo_mitigator ''k'' ''client'')) 20 20) = ([1, 2], True)"
  using WriteToShards_read [OF empty_store_inv, of demo_mitigator "''k''" int "[1, 2]" 50 20 20 "''client''"]
  by (simp add: demo_mitigator_def NewMitigator_def mono_def Let_def)


lemma first_access_hot: "snd (RecordAccess (NewDetector 1 p) key)"
proof -
  have "1 \<le> unat (Estimate (cms_Increment (NewCountMinSketch 4096 4) key) key)"
    using cms.inc_weight [OF tracks_New [of 4096 4], of key] by simp
  then show ?thesis by (simp add: RecordAccess_def NewDetector_def word_le_nat_alt)
qed


end
