(* ===== verification/L1_Cache.thy ===== *)
theory L1_Cache
  imports Go_Map
begin

text \<open>
  The client-side LRU cache, \<open>client/l1cache.go\<close>. \<open>container/list\<close> is modelled with its
  elements as addresses: \<open>evictList\<close> is the list of element addresses from front to back,
  \<open>elements\<close> holds the \<open>l1Entry\<close> each element points to, in order of allocation, and
  \<open>l1items\<close> maps a key to the address of its element, as the Go map does. The operations
  update the list and the map separately, as the code does; that the two stay consistent is
  the invariant \<open>l1_inv\<close>, and \<open>l1_abs\<close>, the entries in list order, makes the cache an LRU
  list (\<open>lru_get\<close>, \<open>lru_set\<close>, \<open>lru_delete\<close>).
\<close>

section \<open>The cache\<close>

record l1Entry =
  l1key :: string
  l1value :: bytes
  l1expiresAt :: instant

record L1Cache =
  capacity :: int
  evictList :: "nat list"
  elements :: "l1Entry list"
  l1items :: "(string, nat) gomap"
  defaultTTL :: duration

definition NewL1Cache :: "int \<Rightarrow> duration \<Rightarrow> L1Cache" where
  "NewL1Cache cap ttl =
     \<lparr>capacity = (if cap \<le> 0 then 1000 else cap), evictList = [], elements = [], l1items = [],
      defaultTTL = (if ttl \<le> 0 then 5000 * Millisecond else ttl)\<rparr>"

definition MoveToFront :: "nat \<Rightarrow> nat list \<Rightarrow> nat list" where
  "MoveToFront e xs = (if e \<in> set xs then e # remove1 e xs else xs)"

definition removeElement :: "L1Cache \<Rightarrow> nat \<Rightarrow> L1Cache" where
  "removeElement c elem =
     c\<lparr>evictList := remove1 elem (evictList c),
       l1items := gm_del (l1key (elements c ! elem)) (l1items c)\<rparr>"

definition evictOldest :: "L1Cache \<Rightarrow> L1Cache" where
  "evictOldest c = (if evictList c = [] then c else removeElement c (last (evictList c)))"

definition l1_Get :: "L1Cache \<Rightarrow> string \<Rightarrow> instant \<Rightarrow> L1Cache \<times> bytes \<times> bool" where
  "l1_Get c key now =
     (case gm_get (l1items c) key of
        None \<Rightarrow> (c, [], False)
      | Some elem \<Rightarrow>
          let entry = elements c ! elem in
          if After now (l1expiresAt entry) then (removeElement c elem, [], False)
          else (c\<lparr>evictList := MoveToFront elem (evictList c)\<rparr>, l1value entry, True))"

definition l1_Set :: "L1Cache \<Rightarrow> string \<Rightarrow> bytes \<Rightarrow> duration \<Rightarrow> instant \<Rightarrow> L1Cache" where
  "l1_Set c key value ttl0 now =
     (let ttl = (if ttl0 \<le> 0 then defaultTTL c else ttl0); expiresAt = Add now ttl in
      case gm_get (l1items c) key of
        Some elem \<Rightarrow>
          c\<lparr>evictList := MoveToFront elem (evictList c),
            elements := (elements c)[elem := (elements c ! elem)\<lparr>l1value := value, l1expiresAt := expiresAt\<rparr>]\<rparr>
      | None \<Rightarrow>
          let elem = length (elements c);
              c' = c\<lparr>elements := elements c @ [\<lparr>l1key = key, l1value = value, l1expiresAt = expiresAt\<rparr>],
                     evictList := elem # evictList c,
                     l1items := gm_put key elem (l1items c)\<rparr>
          in if int (length (evictList c')) > capacity c' then evictOldest c' else c')"

definition l1_Delete :: "L1Cache \<Rightarrow> string \<Rightarrow> L1Cache" where
  "l1_Delete c key =
     (case gm_get (l1items c) key of None \<Rightarrow> c | Some elem \<Rightarrow> removeElement c elem)"

definition l1_Clear :: "L1Cache \<Rightarrow> L1Cache" where
  "l1_Clear c = c\<lparr>evictList := [], l1items := []\<rparr>"

definition l1_Len :: "L1Cache \<Rightarrow> nat" where
  "l1_Len c = length (evictList c)"

section \<open>Invariant and abstraction\<close>

definition l1_wf :: "L1Cache \<Rightarrow> bool" where
  "l1_wf c \<longleftrightarrow>
     0 < capacity c \<and> 0 < defaultTTL c \<and> gm_inv (l1items c) \<and> distinct (evictList c) \<and>
     (\<forall>e \<in> set (evictList c). e < length (elements c)) \<and>
     (\<forall>k e. gm_get (l1items c) k = Some e \<longleftrightarrow> e \<in> set (evictList c) \<and> l1key (elements c ! e) = k)"

definition l1_inv :: "L1Cache \<Rightarrow> bool" where
  "l1_inv c \<longleftrightarrow> l1_wf c \<and> length (evictList c) \<le> nat (capacity c)"

definition l1_abs :: "L1Cache \<Rightarrow> l1Entry list" where
  "l1_abs c = map (\<lambda>e. elements c ! e) (evictList c)"

definition others :: "string \<Rightarrow> l1Entry list \<Rightarrow> l1Entry list" where
  "others k l = filter (\<lambda>e. l1key e \<noteq> k) l"

definition lru_find :: "string \<Rightarrow> l1Entry list \<Rightarrow> l1Entry option" where
  "lru_find k l = find (\<lambda>e. l1key e = k) l"

definition lru_get :: "l1Entry list \<Rightarrow> string \<Rightarrow> instant \<Rightarrow> l1Entry list \<times> bytes \<times> bool" where
  "lru_get l k now =
     (case lru_find k l of
        None \<Rightarrow> (l, [], False)
      | Some e \<Rightarrow> if l1expiresAt e < now then (others k l, [], False) else (e # others k l, l1value e, True))"

definition lru_set :: "nat \<Rightarrow> l1Entry list \<Rightarrow> string \<Rightarrow> bytes \<Rightarrow> instant \<Rightarrow> l1Entry list" where
  "lru_set cap l k v t = take cap (\<lparr>l1key = k, l1value = v, l1expiresAt = t\<rparr> # others k l)"

definition lru_delete :: "l1Entry list \<Rightarrow> string \<Rightarrow> l1Entry list" where
  "lru_delete l k = others k l"

lemma NewL1Cache_inv: "l1_inv (NewL1Cache n t)"
  by (simp add: l1_inv_def l1_wf_def NewL1Cache_def Millisecond_def)

lemma l1_keys_inj:
  assumes "l1_wf c" "e \<in> set (evictList c)" "f \<in> set (evictList c)"
    and "l1key (elements c ! e) = l1key (elements c ! f)"
  shows "e = f"
  using assms unfolding l1_wf_def by (metis option.inject)

lemma others_l1_abs:
  assumes "l1_wf c" "e \<in> set (evictList c)"
  shows "others (l1key (elements c ! e)) (l1_abs c) = map (\<lambda>e. elements c ! e) (remove1 e (evictList c))"
proof -
  have "remove1 e (evictList c) = filter (\<lambda>f. f \<noteq> e) (evictList c)"
    using assms(1) by (simp add: l1_wf_def distinct_remove1_removeAll removeAll_filter_not_eq neq_commute)
  also have "\<dots> = filter (\<lambda>f. l1key (elements c ! f) \<noteq> l1key (elements c ! e)) (evictList c)"
    using l1_keys_inj [OF assms(1)] assms(2) by (auto intro!: filter_cong)
  finally show ?thesis by (simp add: others_def l1_abs_def filter_map o_def)
qed

lemma lru_find_l1_abs:
  assumes "l1_wf c"
  shows "lru_find k (l1_abs c) = map_option (\<lambda>e. elements c ! e) (gm_get (l1items c) k)"
proof (cases "gm_get (l1items c) k")
  case None
  then have "l1key (elements c ! e) \<noteq> k" if "e \<in> set (evictList c)" for e
    using assms that unfolding l1_wf_def by (metis option.distinct(1))
  with None show ?thesis by (auto simp: lru_find_def l1_abs_def find_None_iff)
next
  case (Some e)
  then have e: "e \<in> set (evictList c)" "l1key (elements c ! e) = k"
    using assms unfolding l1_wf_def by metis+
  have "find (\<lambda>f. l1key (elements c ! f) = k) (evictList c) \<noteq> None"
    using e by (auto simp: find_None_iff)
  then obtain f where f: "find (\<lambda>f. l1key (elements c ! f) = k) (evictList c) = Some f" by blast
  then have "f \<in> set (evictList c)" "l1key (elements c ! f) = k" by (auto simp: find_Some_iff)
  with e have "f = e" using l1_keys_inj [OF assms] by blast
  with f Some show ?thesis by (simp add: lru_find_def l1_abs_def find_map o_def)
qed

lemma l1_lengths:
  assumes "l1_wf c"
  shows "distinct (map l1key (l1_abs c))" "length (l1items c) = length (evictList c)"
proof -
  show dist: "distinct (map l1key (l1_abs c))"
    using assms l1_keys_inj [OF assms] by (auto simp: l1_abs_def distinct_map inj_on_def l1_wf_def)
  have "x \<in> set (map fst (l1items c)) \<longleftrightarrow> x \<in> set (map l1key (l1_abs c))" for x
  proof -
    have "x \<in> set (map fst (l1items c)) \<longleftrightarrow> gm_get (l1items c) x \<noteq> None"
      by (simp add: map_of_eq_None_iff)
    also have "\<dots> \<longleftrightarrow> (\<exists>e \<in> set (evictList c). l1key (elements c ! e) = x)"
      using assms unfolding l1_wf_def by (metis not_None_eq)
    finally show ?thesis by (auto simp: l1_abs_def)
  qed
  then have "set (map fst (l1items c)) = set (map l1key (l1_abs c))" by blast
  then show "length (l1items c) = length (evictList c)"
    using dist assms distinct_card [of "map fst (l1items c)"] distinct_card [OF dist]
    by (simp add: l1_wf_def gm_inv_def l1_abs_def)
qed

lemma others_absent: "lru_find k l = None \<Longrightarrow> others k l = l"
  by (auto simp: lru_find_def others_def find_None_iff filter_id_conv)

lemma l1items_elem:
  assumes "l1_wf c" "gm_get (l1items c) k = Some e"
  shows "e \<in> set (evictList c)" "l1key (elements c ! e) = k" "e < length (elements c)"
  using assms unfolding l1_wf_def by metis+

section \<open>Each operation is the LRU operation\<close>

lemma removeElement_abs:
  assumes "l1_wf c" "e \<in> set (evictList c)"
  shows "l1_abs (removeElement c e) = others (l1key (elements c ! e)) (l1_abs c)"
  unfolding others_l1_abs [OF assms] by (simp add: l1_abs_def removeElement_def)

lemma removeElement_wf:
  assumes "l1_wf c" "e \<in> set (evictList c)"
  shows "l1_wf (removeElement c e)"
proof -
  have "gm_get (gm_del (l1key (elements c ! e)) (l1items c)) k = Some f \<longleftrightarrow>
      f \<in> set (remove1 e (evictList c)) \<and> l1key (elements c ! f) = k" for k f
    using assms l1_keys_inj [OF assms(1) _ assms(2)] by (auto simp: l1_wf_def)
  then show ?thesis
    using assms unfolding l1_wf_def removeElement_def
    by (simp add: alm.inv_del set_remove1_eq del: gm_simps)
qed

lemma MoveToFront_wf:
  assumes "l1_wf c" "e \<in> set (evictList c)" "elements c' = elements c \<or>
    (\<exists>x. elements c' = (elements c)[e := x] \<and> l1key x = l1key (elements c ! e))"
    and "evictList c' = MoveToFront e (evictList c)" "l1items c' = l1items c" "capacity c' = capacity c"
      "defaultTTL c' = defaultTTL c"
  shows "l1_wf c'"
proof -
  have keys: "l1key (elements c' ! f) = l1key (elements c ! f)" if "f < length (elements c)" for f
    using assms(3) that by (cases "f = e") auto
  have len: "length (elements c') = length (elements c)" using assms(3) by auto
  have els: "set (evictList c') = set (evictList c)" "distinct (evictList c')"
    using assms(1,2,4) by (auto simp: MoveToFront_def l1_wf_def)
  have lt: "f < length (elements c)" if "f \<in> set (evictList c)" for f
    using assms(1) that by (simp add: l1_wf_def)
  have "gm_get (l1items c') k = Some f \<longleftrightarrow> f \<in> set (evictList c') \<and> l1key (elements c' ! f) = k" for k f
    using assms(1,5) keys [OF lt] els(1) unfolding l1_wf_def by metis
  with assms(1,5-7) els len lt show ?thesis by (simp add: l1_wf_def)
qed

lemma l1_Get_refines:
  assumes "l1_wf c"
  shows "l1_wf (fst (l1_Get c k now)) \<and> l1_abs (fst (l1_Get c k now)) = fst (lru_get (l1_abs c) k now) \<and>
    snd (l1_Get c k now) = snd (lru_get (l1_abs c) k now)"
proof (cases "gm_get (l1items c) k")
  case None
  then show ?thesis using assms by (simp add: l1_Get_def lru_get_def lru_find_l1_abs)
next
  case (Some e)
  note e = l1items_elem [OF assms Some]
  let ?c = "c\<lparr>evictList := MoveToFront e (evictList c)\<rparr>"
  have "l1_wf ?c" using assms e(1) by (rule MoveToFront_wf) simp_all
  moreover have "l1_abs ?c = elements c ! e # others k (l1_abs c)"
    using others_l1_abs [OF assms e(1)] e(1,2) by (simp add: l1_abs_def MoveToFront_def)
  ultimately show ?thesis
    using Some e removeElement_wf [OF assms e(1)] removeElement_abs [OF assms e(1)]
    by (simp add: l1_Get_def lru_get_def lru_find_l1_abs [OF assms] After_def Let_def)
qed

lemma l1_Delete_refines:
  assumes "l1_wf c"
  shows "l1_wf (l1_Delete c k) \<and> l1_abs (l1_Delete c k) = lru_delete (l1_abs c) k"
proof (cases "gm_get (l1items c) k")
  case None
  then have "lru_find k (l1_abs c) = None" using lru_find_l1_abs [OF assms] by simp
  with None assms show ?thesis by (simp add: l1_Delete_def lru_delete_def others_absent)
next
  case (Some e)
  note e = l1items_elem [OF assms Some]
  with Some show ?thesis
    using removeElement_wf [OF assms e(1)] removeElement_abs [OF assms e(1)]
    by (simp add: l1_Delete_def lru_delete_def)
qed

text \<open>A write to a cached key, and a write of a new one with its eviction.\<close>

definition set_expiry :: "L1Cache \<Rightarrow> duration \<Rightarrow> instant \<Rightarrow> instant" where
  "set_expiry c ttl now = now + (if ttl \<le> 0 then defaultTTL c else ttl)"

lemma length_remove1_Suc: "e \<in> set xs \<Longrightarrow> Suc (length (remove1 e xs)) = length xs"
  by (induction xs) auto

lemma l1_Set_known:
  assumes "l1_wf c" "gm_get (l1items c) k = Some e"
  shows "l1_wf (l1_Set c k v ttl now) \<and>
    l1_abs (l1_Set c k v ttl now) =
      \<lparr>l1key = k, l1value = v, l1expiresAt = set_expiry c ttl now\<rparr> # others k (l1_abs c) \<and>
    length (others k (l1_abs c)) < length (evictList c)"
proof -
  note e = l1items_elem [OF assms]
  let ?x = "(elements c ! e)\<lparr>l1value := v, l1expiresAt := set_expiry c ttl now\<rparr>"
  let ?c = "c\<lparr>evictList := MoveToFront e (evictList c), elements := (elements c)[e := ?x]\<rparr>"
  have set: "l1_Set c k v ttl now = ?c"
    using assms(2) by (simp add: l1_Set_def set_expiry_def Add_def Let_def)
  have "l1_wf ?c" using assms(1) e(1) by (rule MoveToFront_wf) auto
  moreover have "distinct (evictList c)" using assms(1) by (simp add: l1_wf_def)
  then have rest: "map (\<lambda>f. (elements c)[e := ?x] ! f) (remove1 e (evictList c)) = others k (l1_abs c)"
    using others_l1_abs [OF assms(1) e(1)] e(2) by (auto intro!: map_cong)
  moreover have "l1_abs ?c = ?x # others k (l1_abs c)"
    using e(1,3) rest by (simp add: l1_abs_def MoveToFront_def)
  moreover have "?x = \<lparr>l1key = k, l1value = v, l1expiresAt = set_expiry c ttl now\<rparr>" using e(2) by simp
  moreover have "length (others k (l1_abs c)) < length (evictList c)"
    using length_remove1_Suc [OF e(1)] by (simp flip: rest)
  ultimately show ?thesis unfolding set by metis
qed

definition l1_push :: "L1Cache \<Rightarrow> l1Entry \<Rightarrow> L1Cache" where
  "l1_push c x = c\<lparr>elements := elements c @ [x], evictList := length (elements c) # evictList c,
     l1items := gm_put (l1key x) (length (elements c)) (l1items c)\<rparr>"

lemma l1_push_wf:
  assumes "l1_wf c" "gm_get (l1items c) (l1key x) = None"
  shows "l1_wf (l1_push c x) \<and> l1_abs (l1_push c x) = x # l1_abs c"
proof -
  have lt: "f < length (elements c)" if "f \<in> set (evictList c)" for f
    using assms(1) that by (simp add: l1_wf_def)
  have absent: "l1key (elements c ! f) \<noteq> l1key x" if "f \<in> set (evictList c)" for f
    using assms that unfolding l1_wf_def by (metis option.distinct(1))
  have old: "(elements c @ [x]) ! f = elements c ! f" if "f \<in> set (evictList c)" for f
    using lt [OF that] by (simp add: nth_append)
  have "gm_get (gm_put (l1key x) (length (elements c)) (l1items c)) k = Some f \<longleftrightarrow>
      f \<in> set (length (elements c) # evictList c) \<and> l1key ((elements c @ [x]) ! f) = k" for k f
    using assms(1) absent old unfolding l1_wf_def by (auto simp: nth_append)
  then have "l1_wf (l1_push c x)"
    using assms(1) lt unfolding l1_wf_def l1_push_def
    by (auto simp: alm.inv_put less_Suc_eq simp del: gm_simps)
  moreover have "l1_abs (l1_push c x) = x # l1_abs c"
    using old by (simp add: l1_abs_def l1_push_def)
  ultimately show ?thesis ..
qed

lemma evictOldest_wf:
  assumes "l1_wf c" "evictList c \<noteq> []"
  shows "l1_wf (evictOldest c) \<and> l1_abs (evictOldest c) = butlast (l1_abs c)"
proof -
  have "distinct (butlast (evictList c) @ [last (evictList c)])"
    using assms by (simp add: l1_wf_def)
  then have "remove1 (last (evictList c)) (evictList c) = butlast (evictList c)"
    by (metis append_butlast_last_id assms(2) distinct_append disjoint_iff list.set_intros(1)
        remove1.simps(2) remove1_append append_Nil2)
  then show ?thesis
    using removeElement_wf [OF assms(1) last_in_set [OF assms(2)]] assms(2)
    by (simp add: evictOldest_def l1_abs_def removeElement_def map_butlast)
qed

lemma l1_Set_new:
  assumes "l1_wf c" "gm_get (l1items c) k = None"
  shows "l1_Set c k v ttl now =
    (let c' = l1_push c \<lparr>l1key = k, l1value = v, l1expiresAt = set_expiry c ttl now\<rparr>
     in if length (evictList c) < nat (capacity c) then c' else evictOldest c')"
proof -
  have "Suc n \<le> nat (capacity c) \<longleftrightarrow> \<not> int (Suc n) > capacity c" for n
    using assms(1) by (auto simp: l1_wf_def)
  with assms(2) show ?thesis
    by (simp add: l1_Set_def l1_push_def set_expiry_def Add_def Let_def not_less less_eq_Suc_le)
qed

lemma l1_Set_refines:
  assumes "l1_inv c"
  shows "l1_inv (l1_Set c k v ttl now) \<and>
    l1_abs (l1_Set c k v ttl now) = lru_set (nat (capacity c)) (l1_abs c) k v (set_expiry c ttl now)"
proof -
  let ?x = "\<lparr>l1key = k, l1value = v, l1expiresAt = set_expiry c ttl now\<rparr>" and ?c = "l1_Set c k v ttl now"
  have wf: "l1_wf c" and len: "length (evictList c) \<le> nat (capacity c)"
    using assms by (simp_all add: l1_inv_def)
  have cap: "0 < nat (capacity c)" using wf by (simp add: l1_wf_def)
  have "l1_wf ?c \<and> l1_abs ?c = take (nat (capacity c)) (?x # others k (l1_abs c))"
  proof (cases "gm_get (l1items c) k")
    case (Some e)
    with l1_Set_known [OF wf Some, of v ttl now] len show ?thesis by simp
  next
    case None
    then have "others k (l1_abs c) = l1_abs c"
      using lru_find_l1_abs [OF wf, of k] by (intro others_absent) simp
    moreover have "l1_wf (l1_push c ?x)" "l1_abs (l1_push c ?x) = ?x # l1_abs c"
      using l1_push_wf [OF wf, of ?x] None by simp_all
    moreover have "length (l1_abs c) = length (evictList c)" by (simp add: l1_abs_def)
    ultimately show ?thesis
      using evictOldest_wf [of "l1_push c ?x"] len cap unfolding l1_Set_new [OF wf None]
      by (auto simp: Let_def l1_push_def butlast_conv_take take_Cons')
  qed
  moreover have "capacity ?c = capacity c"
    by (simp add: l1_Set_def evictOldest_def removeElement_def Let_def split: option.splits)
  ultimately show ?thesis
    using cap by (simp add: l1_inv_def lru_set_def) (metis l1_abs_def length_map length_take min.cobounded2)
qed

section \<open>Runs of the cache\<close>

datatype l1_op = LGet string instant | LSet string bytes duration instant | LDelete string | LClear

fun l1_exec :: "L1Cache \<Rightarrow> l1_op \<Rightarrow> L1Cache \<times> (bytes \<times> bool) option" where
  "l1_exec c (LGet k now) = (case l1_Get c k now of (c', r) \<Rightarrow> (c', Some r))"
| "l1_exec c (LSet k v ttl now) = (l1_Set c k v ttl now, None)"
| "l1_exec c (LDelete k) = (l1_Delete c k, None)"
| "l1_exec c LClear = (l1_Clear c, None)"

fun lru_exec :: "nat \<Rightarrow> duration \<Rightarrow> l1Entry list \<Rightarrow> l1_op \<Rightarrow> l1Entry list \<times> (bytes \<times> bool) option" where
  "lru_exec cap d l (LGet k now) = (case lru_get l k now of (l', r) \<Rightarrow> (l', Some r))"
| "lru_exec cap d l (LSet k v ttl now) = (lru_set cap l k v (now + (if ttl \<le> 0 then d else ttl)), None)"
| "lru_exec cap d l (LDelete k) = (lru_delete l k, None)"
| "lru_exec cap d l LClear = ([], None)"

fun run_ops :: "('s \<Rightarrow> 'o \<Rightarrow> 's \<times> 'r) \<Rightarrow> 's \<Rightarrow> 'o list \<Rightarrow> 's \<times> 'r list" where
  "run_ops f s [] = (s, [])"
| "run_ops f s (x # xs) = (case f s x of (s', r) \<Rightarrow> case run_ops f s' xs of (s'', rs) \<Rightarrow> (s'', r # rs))"

lemma l1_frame [simp]:
  "capacity (fst (l1_exec c x)) = capacity c" "defaultTTL (fst (l1_exec c x)) = defaultTTL c"
  by (cases x; simp add: l1_Get_def l1_Set_def l1_Delete_def l1_Clear_def evictOldest_def removeElement_def
      Let_def split: option.splits)+

lemma lru_get_length: "length (fst (lru_get l k now)) \<le> length l"
proof -
  have "length (others k l) < length l" if "lru_find k l = Some e" for e
    unfolding others_def by (rule length_filter_less [of e])
      (use that in \<open>auto simp: lru_find_def find_Some_iff\<close>)
  then show ?thesis by (auto simp: lru_get_def others_def Suc_le_eq split: option.splits)
qed

lemma l1_exec_refines:
  assumes "l1_inv c"
  shows "l1_inv (fst (l1_exec c x)) \<and>
    lru_exec (nat (capacity c)) (defaultTTL c) (l1_abs c) x = (l1_abs (fst (l1_exec c x)), snd (l1_exec c x))"
proof -
  have wf: "l1_wf c" and len: "length (l1_abs c) \<le> nat (capacity c)"
    using assms by (simp_all add: l1_inv_def l1_abs_def)
  have bound: "l1_inv (fst (l1_exec c x))"
    if "l1_wf (fst (l1_exec c x))" "length (l1_abs (fst (l1_exec c x))) \<le> length (l1_abs c)"
    using that len by (simp add: l1_inv_def l1_abs_def)
  show ?thesis
  proof (cases x)
    case (LGet k now)
    with l1_Get_refines [OF wf, of k now] lru_get_length [of "l1_abs c" k now] bound show ?thesis
      by (cases "l1_Get c k now"; cases "lru_get (l1_abs c) k now") simp
  next
    case (LSet k v ttl now)
    with l1_Set_refines [OF assms] show ?thesis by (simp add: set_expiry_def)
  next
    case (LDelete k)
    with l1_Delete_refines [OF wf, of k] bound show ?thesis by (simp add: lru_delete_def others_def)
  next
    case LClear
    with wf show ?thesis by (simp add: l1_Clear_def l1_inv_def l1_wf_def l1_abs_def)
  qed
qed

lemma l1_run_refines:
  assumes "l1_inv c"
  shows "l1_inv (fst (run_ops l1_exec c ops)) \<and>
    run_ops (lru_exec (nat (capacity c)) (defaultTTL c)) (l1_abs c) ops =
      (l1_abs (fst (run_ops l1_exec c ops)), snd (run_ops l1_exec c ops))"
  using assms
proof (induction ops arbitrary: c)
  case (Cons x ops)
  note step = l1_exec_refines [OF Cons.prems, of x]
  from step have "l1_inv (fst (l1_exec c x))" ..
  from Cons.IH [OF this] step show ?case by (simp add: split_beta)
qed simp

text \<open>
  C22. On every sequence of operations the cache, with its linked list and its map updated
  separately, gives exactly the replies of an abstract LRU list and holds its entries in its
  order; it never holds more than its capacity, and list and map have the same keys.
\<close>

theorem l1_refines_lru:
  "let c = NewL1Cache cap ttl; (c', rs) = run_ops l1_exec c ops in
    (l1_abs c', rs) = run_ops (lru_exec (nat (capacity c)) (defaultTTL c)) [] ops \<and>
    l1_Len c' \<le> nat (capacity c) \<and> l1_Len c' = length (l1items c')"
proof -
  let ?c = "NewL1Cache cap ttl"
  obtain c' rs where run: "run_ops l1_exec ?c ops = (c', rs)" by (cases "run_ops l1_exec ?c ops")
  have ref: "l1_inv c'" "(l1_abs c', rs) = run_ops (lru_exec (nat (capacity ?c)) (defaultTTL ?c)) (l1_abs ?c) ops"
    using l1_run_refines [OF NewL1Cache_inv, of cap ttl ops] run by simp_all
  have cap: "capacity (fst (run_ops l1_exec c ops)) = capacity c" for c
    by (induction ops arbitrary: c) (simp_all add: split_beta)
  have "length (l1items c') = length (evictList c')"
    using ref(1) by (intro l1_lengths) (simp add: l1_inv_def)
  with ref run cap [of ?c] show ?thesis
    by (simp add: Let_def l1_inv_def l1_Len_def l1_abs_def) (simp add: NewL1Cache_def)
qed

section \<open>What stays cached\<close>

fun op_key :: "l1_op \<Rightarrow> string option" where
  "op_key (LGet k _) = Some k"
| "op_key (LSet k _ _ _) = Some k"
| "op_key (LDelete k) = Some k"
| "op_key LClear = None"

definition behind :: "l1Entry list \<Rightarrow> l1Entry \<Rightarrow> string set \<Rightarrow> bool" where
  "behind l e T \<longleftrightarrow> distinct (map l1key l) \<and>
     (\<exists>as bs. l = as @ e # bs \<and> l1key ` set as \<subseteq> T)"

lemma others_keys: "l1key ` set (others k l) = l1key ` set l - {k}"
  by (auto simp: others_def)

lemma distinct_others: "distinct (map l1key l) \<Longrightarrow> distinct (map l1key (others k l))"
  by (simp add: others_def distinct_map_filter)

lemma behind_front:
  assumes "behind l e T" "l1key x = j" "j \<noteq> l1key e"
  shows "behind (x # others j l) e (insert j T)"
proof -
  from assms(1) obtain as bs where l: "l = as @ e # bs" "l1key ` set as \<subseteq> T" by (auto simp: behind_def)
  then have "x # others j l = (x # others j as) @ e # others j bs" using assms(3) by (simp add: others_def)
  moreover have "l1key ` set (x # others j as) \<subseteq> insert j T" using l(2) assms(2) by (auto simp: others_def)
  moreover have "distinct (map l1key (x # others j l))"
    using assms(1,2) distinct_others [of l j] by (simp add: behind_def others_keys)
  ultimately show ?thesis unfolding behind_def by blast
qed

lemma behind_others:
  assumes "behind l e T" "j \<noteq> l1key e"
  shows "behind (others j l) e T"
proof -
  from assms(1) obtain as bs where l: "l = as @ e # bs" "l1key ` set as \<subseteq> T" by (auto simp: behind_def)
  then have "others j l = others j as @ e # others j bs" using assms(2) by (simp add: others_def)
  moreover have "l1key ` set (others j as) \<subseteq> T" using l(2) by (auto simp: others_def)
  ultimately show ?thesis using assms(1) distinct_others unfolding behind_def by blast
qed

lemma behind_take:
  assumes "behind l e T" "finite T" "card T < n"
  shows "behind (take n l) e T"
proof -
  from assms(1) obtain as bs where l: "l = as @ e # bs" "l1key ` set as \<subseteq> T" "distinct (map l1key l)"
    by (auto simp: behind_def)
  then have "length as = card (l1key ` set as)" using distinct_card [of "map l1key as"] by simp
  also have "\<dots> \<le> card T" using assms(2) l(2) by (rule card_mono)
  finally have "length as < n" using assms(3) by simp
  then have "take n l = as @ e # take (n - Suc (length as)) bs"
    using l(1) by (simp add: take_Cons')
  moreover have "distinct (map l1key (take n l))" using l(3) by (simp add: take_map flip: take_map)
  ultimately show ?thesis using l(2) unfolding behind_def by metis
qed

lemma behind_find: "behind l e T \<Longrightarrow> lru_find (l1key e) l = Some e"
proof -
  assume "behind l e T"
  then obtain as bs where l: "l = as @ e # bs" "distinct (map l1key l)" by (auto simp: behind_def)
  then have "l1key e \<notin> l1key ` set as" by simp
  then have "\<forall>a \<in> set as. l1key a \<noteq> l1key e" by (metis image_eqI)
  then have "find (\<lambda>x. l1key x = l1key e) as = None" by (simp add: find_None_iff)
  then show ?thesis using l(1) by (simp add: lru_find_def find_append)
qed

lemma behind_step:
  assumes "behind l e T" "finite T" "card (insert j T) < cap" "op_key x = Some j" "j \<noteq> l1key e"
  shows "behind (fst (lru_exec cap d l x)) e (insert j T)"
proof -
  have weaken: "behind l' e (insert j T)" if "behind l' e T" for l'
    using that unfolding behind_def by blast
  show ?thesis
  proof (cases x)
    case (LGet k now)
    with assms(4) have k: "k = j" by simp
    show ?thesis
    proof (cases "lru_find j l")
      case (Some e')
      then have "l1key e' = j" by (auto simp: lru_find_def find_Some_iff)
      with LGet k Some behind_front [OF assms(1) this assms(5)] weaken [OF behind_others [OF assms(1,5)]]
      show ?thesis by (simp add: lru_get_def)
    qed (use LGet k weaken [OF assms(1)] in \<open>simp add: lru_get_def\<close>)
  next
    case (LSet k v ttl now)
    with assms(4) have "k = j" by simp
    moreover have "behind (lru_set cap l j v t) e (insert j T)" for t
      unfolding lru_set_def using behind_front [OF assms(1) _ assms(5)] assms(2,3)
      by (intro behind_take) simp_all
    ultimately show ?thesis using LSet by simp
  next
    case (LDelete k)
    with assms(4) have "k = j" by simp
    with LDelete weaken [OF behind_others [OF assms(1,5)]] show ?thesis by (simp add: lru_delete_def)
  qed (use assms(4) in simp)
qed

lemma behind_run:
  assumes "behind l e T" "finite T" "\<forall>x \<in> set ops. op_key x \<notin> {None, Some (l1key e)}"
    and "card (T \<union> (the \<circ> op_key) ` set ops) < cap"
  shows "behind (fst (run_ops (lru_exec cap d) l ops)) e (T \<union> (the \<circ> op_key) ` set ops)"
  using assms
proof (induction ops arbitrary: l T)
  case (Cons x ops)
  obtain j where j: "op_key x = Some j" "j \<noteq> l1key e" using Cons.prems(3) by auto
  have eq: "insert j T \<union> (the \<circ> op_key) ` set ops = T \<union> (the \<circ> op_key) ` set (x # ops)"
    using j(1) by auto
  have "card (insert j T) \<le> card (insert j T \<union> (the \<circ> op_key) ` set ops)"
    using Cons.prems(2) by (intro card_mono) auto
  with Cons.prems(4) have "card (insert j T) < cap" unfolding eq by simp
  from behind_step [OF Cons.prems(1,2) this j] have "behind (fst (lru_exec cap d l x)) e (insert j T)" .
  from Cons.IH [OF this] Cons.prems(2-4) show ?case unfolding eq by (simp add: split_beta)
qed simp

text \<open>
  An entry is evicted only for use: after a \<open>Set\<close>, if the operations that follow
  concern fewer other keys than the capacity, none of them the key itself, a \<open>Get\<close> before
  the expiry returns the value set.
\<close>

theorem l1_retains_recent:
  assumes "l1_inv c" "\<forall>x \<in> set ops. op_key x \<notin> {None, Some k}"
    and "card ((the \<circ> op_key) ` set ops) < nat (capacity c)" "now \<le> set_expiry c ttl t"
  shows "snd (l1_Get (fst (run_ops l1_exec (l1_Set c k v ttl t) ops)) k now) = (v, True)"
proof -
  let ?c = "l1_Set c k v ttl t" and ?e = "\<lparr>l1key = k, l1value = v, l1expiresAt = set_expiry c ttl t\<rparr>"
  let ?l = "run_ops (lru_exec (nat (capacity c)) (defaultTTL c)) (l1_abs ?c) ops"
  have same: "capacity ?c = capacity c" "defaultTTL ?c = defaultTTL c"
    using l1_frame [of c "LSet k v ttl t"] by simp_all
  have inv: "l1_inv ?c" and abs: "l1_abs ?c = lru_set (nat (capacity c)) (l1_abs c) k v (set_expiry c ttl t)"
    using l1_Set_refines [OF assms(1)] by simp_all
  have run: "l1_inv (fst (run_ops l1_exec ?c ops))" "?l = (l1_abs (fst (run_ops l1_exec ?c ops)), snd (run_ops l1_exec ?c ops))"
    using l1_run_refines [OF inv, of ops] by (simp_all add: same)
  have cap: "0 < nat (capacity c)" using assms(3) by simp
  have "distinct (map l1key (l1_abs ?c))" using inv by (intro l1_lengths) (simp add: l1_inv_def)
  moreover have "l1_abs ?c = [] @ ?e # take (nat (capacity c) - 1) (others k (l1_abs c))"
    using cap by (simp add: abs lru_set_def take_Cons')
  ultimately have "behind (l1_abs ?c) ?e {}" unfolding behind_def by force
  from behind_run [OF this, of ops] assms(2,3)
  have "behind (fst ?l) ?e ((the \<circ> op_key) ` set ops)" by simp
  from behind_find [OF this] have "lru_find k (l1_abs (fst (run_ops l1_exec ?c ops))) = Some ?e"
    by (simp add: run(2))
  with run(1) assms(4) show ?thesis
    using l1_Get_refines [of "fst (run_ops l1_exec ?c ops)" k now] by (simp add: lru_get_def l1_inv_def)
qed

theorem l1_retains_recent_witness:
  "snd (l1_Get (fst (run_ops l1_exec (l1_Set (NewL1Cache 3 1000) ''a'' [1] 500 0)
      [LSet ''b'' [2] 0 10, LGet ''c'' 20])) ''a'' 400) = ([1], True)"
  using l1_retains_recent [OF NewL1Cache_inv, of "[LSet ''b'' [2] 0 10, LGet ''c'' 20]" "''a''" 3 1000 400 500 0 "[1]"]
  by (simp add: NewL1Cache_def set_expiry_def card_insert_if)

end
