(* ===== verification/Messages.thy ===== *)
theory Messages
  imports Prelude
begin

text \<open>
  The messages of the cache service, \<open>api/proto/messages.go\<close>. Milliseconds are \<open>int64\<close>
  values, kept as integers. \<open>Operation\<close> is a Go \<open>int\<close>: a value other than the two named
  ones can arrive from the wire, so it has its own constructor.
\<close>

record GetRequest =
  gq_Key :: string

record GetResponse =
  gr_Key :: string
  gr_Value :: bytes
  gr_Found :: bool
  gr_TtlMs :: int
  gr_IsHot :: bool

record SetRequest =
  sq_Key :: string
  sq_Value :: bytes
  sq_TtlMs :: int

record SetResponse =
  sr_Success :: bool

record DeleteRequest =
  dq_Key :: string

record DeleteResponse =
  dr_Existed :: bool

record ExpireRequest =
  eq_Key :: string
  eq_TtlMs :: int

record ExpireResponse =
  er_Found :: bool

record KeysRequest =
  kq_Pattern :: string

record KeysResponse =
  kr_Keys :: "string list"

record PingResponse =
  pr_NodeId :: string
  pr_UptimeMs :: int
  pr_KeysCount :: int

datatype Operation = OpSet | OpDelete | OpOther int

record ReplicateRequest =
  rq_Key :: string
  rq_Value :: bytes
  rq_TtlMs :: int
  rq_Sequence :: u64
  rq_SourceNode :: string
  rq_Op :: Operation

record ReplicateResponse =
  rr_Success :: bool

record TransferKeysRequest =
  tq_RangeStart :: u64
  tq_RangeEnd :: u64
  tq_RequestingNode :: string

record KeyValuePair =
  kv_Key :: string
  kv_Value :: bytes
  kv_TtlMs :: int

end
