(* ===== verification/Replication.thy ===== *)
theory Replication
  imports Store_Correct Ring_Correct Messages
begin

text \<open>
  The replication manager, \<open>internal/cluster/replication.go\<close>. It shares the store and the
  ring with the rest of the node, so the operations take them as arguments. A goroutine
  started for one target is a pending send \<open>(nodeID, req)\<close>; \<open>sendReplicate\<close> is what it does
  when it runs, with the outcome of \<open>conn.Invoke\<close> as an argument. A gRPC connection is
  represented by the address it was dialled with.

  \<open>None\<close> is a panic: the negative capacity that \<open>getSecondaries\<close> would compute from an empty
  replica list, and a send on the closed event channel. The events channel is its buffer.
\<close>

section \<open>Data\<close>

record ReplicationEvent =
  ev_Key :: string
  ev_Operation :: Operation
  ev_Target :: string
  ev_Success :: bool
  ev_Timestamp :: instant

record ReplicationManager =
  rm_selfID :: string
  rm_replicaCount :: int
  rm_sequence :: u64
  rm_peerConns :: "(string, string) gomap"
  rm_events :: "ReplicationEvent list"
  rm_closed :: bool

type_synonym pending = "string \<times> ReplicateRequest"

definition events_capacity :: nat where
  "events_capacity = 1000"

definition NewReplicationManager :: "string \<Rightarrow> int \<Rightarrow> ReplicationManager" where
  "NewReplicationManager selfID replicaCount =
     \<lparr>rm_selfID = selfID, rm_replicaCount = (if replicaCount < 1 then 3 else replicaCount),
      rm_sequence = 0, rm_peerConns = [], rm_events = [], rm_closed = False\<rparr>"

section \<open>Routing\<close>

definition IsPrimary :: "Ring \<Rightarrow> ReplicationManager \<Rightarrow> string \<Rightarrow> bool" where
  "IsPrimary r rm key =
     (let ns = GetNodes r key 1 in 0 < length ns \<and> ns ! 0 = rm_selfID rm)"

definition IsReplica :: "Ring \<Rightarrow> ReplicationManager \<Rightarrow> string \<Rightarrow> bool" where
  "IsReplica r rm key = list_ex (\<lambda>n. n = rm_selfID rm) (GetNodes r key (nat (rm_replicaCount rm)))"

definition GetPrimary :: "Ring \<Rightarrow> string \<Rightarrow> string option" where
  "GetPrimary r key = (let ns = GetNodes r key 1 in if length ns = 0 then None else Some (ns ! 0))"

definition GetReplicaSet :: "Ring \<Rightarrow> ReplicationManager \<Rightarrow> string \<Rightarrow> string list" where
  "GetReplicaSet r rm key = GetNodes r key (nat (rm_replicaCount rm))"

definition getSecondaries :: "Ring \<Rightarrow> ReplicationManager \<Rightarrow> string \<Rightarrow> string list option" where
  "getSecondaries r rm key =
     (let allReplicas = GetNodes r key (nat (rm_replicaCount rm)) in
      if int (length allReplicas) - 1 < 0 then None
      else Some (filter (\<lambda>nodeID. nodeID \<noteq> rm_selfID rm) allReplicas))"

section \<open>Sending\<close>

definition replicate_to :: "Ring \<Rightarrow> ReplicationManager \<Rightarrow> string \<Rightarrow> (u64 \<Rightarrow> ReplicateRequest) \<Rightarrow>
    (ReplicationManager \<times> pending list) option" where
  "replicate_to r rm key mk =
     (case getSecondaries r rm key of
        None \<Rightarrow> None
      | Some replicas \<Rightarrow>
          if length replicas = 0 then Some (rm, [])
          else let seq = rm_sequence rm + 1 in
               Some (rm\<lparr>rm_sequence := seq\<rparr>, map (\<lambda>nodeID. (nodeID, mk seq)) replicas))"

definition ReplicateWrite :: "Ring \<Rightarrow> ReplicationManager \<Rightarrow> string \<Rightarrow> bytes \<Rightarrow> int \<Rightarrow>
    (ReplicationManager \<times> pending list) option" where
  "ReplicateWrite r rm key value ttlMs =
     replicate_to r rm key (\<lambda>seq.
       \<lparr>rq_Key = key, rq_Value = value, rq_TtlMs = ttlMs, rq_Sequence = seq,
        rq_SourceNode = rm_selfID rm, rq_Op = OpSet\<rparr>)"

definition ReplicateDelete :: "Ring \<Rightarrow> ReplicationManager \<Rightarrow> string \<Rightarrow>
    (ReplicationManager \<times> pending list) option" where
  "ReplicateDelete r rm key =
     replicate_to r rm key (\<lambda>seq.
       \<lparr>rq_Key = key, rq_Value = [], rq_TtlMs = 0, rq_Sequence = seq,
        rq_SourceNode = rm_selfID rm, rq_Op = OpDelete\<rparr>)"

definition emitEvent :: "ReplicationManager \<Rightarrow> ReplicationEvent \<Rightarrow> ReplicationManager option" where
  "emitEvent rm event =
     (if rm_closed rm then None
      else if length (rm_events rm) < events_capacity then Some (rm\<lparr>rm_events := rm_events rm @ [event]\<rparr>)
      else Some rm)"

definition sendReplicate :: "ReplicationManager \<Rightarrow> pending \<Rightarrow> instant \<Rightarrow> bool \<Rightarrow> ReplicationManager option" where
  "sendReplicate rm = (\<lambda>(nodeID, req) now invoke_ok.
     let event = \<lparr>ev_Key = rq_Key req, ev_Operation = rq_Op req, ev_Target = nodeID,
                  ev_Success = False, ev_Timestamp = now\<rparr> in
     case gm_get (rm_peerConns rm) nodeID of
       None \<Rightarrow> emitEvent rm event
     | Some conn \<Rightarrow> emitEvent rm (event\<lparr>ev_Success := invoke_ok\<rparr>))"

section \<open>Peers\<close>

text \<open>\<open>dial\<close> is the outcome of \<open>grpc.DialContext\<close>: whether it returned a connection.\<close>

definition ConnectToPeer :: "ReplicationManager \<Rightarrow> string \<Rightarrow> string \<Rightarrow> bool \<Rightarrow> ReplicationManager \<times> bool" where
  "ConnectToPeer rm nodeID addr dial =
     (if gm_get (rm_peerConns rm) nodeID \<noteq> None then (rm, True)
      else if \<not> dial then (rm, False)
      else (rm\<lparr>rm_peerConns := gm_put nodeID addr (rm_peerConns rm)\<rparr>, True))"

definition DisconnectPeer :: "ReplicationManager \<Rightarrow> string \<Rightarrow> ReplicationManager" where
  "DisconnectPeer rm nodeID =
     (if gm_get (rm_peerConns rm) nodeID \<noteq> None
      then rm\<lparr>rm_peerConns := gm_del nodeID (rm_peerConns rm)\<rparr> else rm)"

definition GetPeerConn :: "ReplicationManager \<Rightarrow> string \<Rightarrow> string option" where
  "GetPeerConn rm nodeID = gm_get (rm_peerConns rm) nodeID"

definition rm_Close :: "ReplicationManager \<Rightarrow> ReplicationManager option" where
  "rm_Close rm = (if rm_closed rm then None else Some (rm\<lparr>rm_peerConns := [], rm_closed := True\<rparr>))"

section \<open>Failover\<close>

text \<open>
  \<open>reReplicateForDeadNode\<close> as the callback of \<open>ForEach\<close>: its state is the manager, the sends
  started so far and the count, or \<open>None\<close> after a panic, which no later call changes.
\<close>

type_synonym rerep = "(ReplicationManager \<times> pending list \<times> nat) option"

definition rerep_step :: "Ring \<Rightarrow> rerep \<Rightarrow> string \<Rightarrow> bytes \<Rightarrow> duration \<Rightarrow> rerep \<times> bool" where
  "rerep_step r st key value ttl =
     (case st of
        None \<Rightarrow> (None, True)
      | Some (rm, sends, n) \<Rightarrow>
          if IsPrimary r rm key then
            case ReplicateWrite r rm key value (Milliseconds ttl) of
              None \<Rightarrow> (None, True)
            | Some (rm', new) \<Rightarrow> (Some (rm', sends @ new, Suc n), True)
          else (Some (rm, sends, n), True))"

definition reReplicateForDeadNode :: "scan_order \<Rightarrow> Store \<Rightarrow> Ring \<Rightarrow> ReplicationManager \<Rightarrow> instant \<Rightarrow> rerep" where
  "reReplicateForDeadNode rng s r rm now = ForEach rng s now (rerep_step r) (Some (rm, [], 0))"

definition HandleNodeFailure :: "scan_order \<Rightarrow> Store \<Rightarrow> Ring \<Rightarrow> ReplicationManager \<Rightarrow> string \<Rightarrow> instant \<Rightarrow> rerep" where
  "HandleNodeFailure rng s r rm deadNodeID now =
     reReplicateForDeadNode rng s r (DisconnectPeer rm deadNodeID) now"

section \<open>The contract of the ring\<close>

locale router =
  fixes route :: "'r \<Rightarrow> string \<Rightarrow> nat \<Rightarrow> string list"
    and members :: "'r \<Rightarrow> string set" and rinv :: "'r \<Rightarrow> bool"
  assumes route_distinct: "rinv r \<Longrightarrow> distinct (route r k n)"
    and route_members: "rinv r \<Longrightarrow> set (route r k n) \<subseteq> members r"
    and route_length: "rinv r \<Longrightarrow> length (route r k n) = min n (card (members r))"
    and route_prefix: "rinv r \<Longrightarrow> m \<le> n \<Longrightarrow> route r k m = take m (route r k n)"
    and members_finite: "rinv r \<Longrightarrow> finite (members r)"
begin

lemma route_head:
  assumes "rinv r" "members r \<noteq> {}" "0 < n"
  obtains p rest where "route r k n = p # rest" "route r k 1 = [p]" "p \<in> members r" "p \<notin> set rest"
proof -
  have "0 < length (route r k n)"
    using assms members_finite by (simp add: route_length card_gt_0_iff)
  then obtain p rest where eq: "route r k n = p # rest" by (cases "route r k n") auto
  have "route r k 1 = take 1 (route r k n)" using assms by (intro route_prefix) simp_all
  moreover have "p \<in> members r" using route_members [OF assms(1), of k n] eq by simp
  moreover have "p \<notin> set rest" using route_distinct [OF assms(1), of k n] eq by simp
  ultimately show thesis using that eq by simp
qed

lemma route_without:
  assumes "rinv r" "route r k 1 = [p]" "0 < n"
  shows "filter (\<lambda>x. x \<noteq> p) (route r k n) = tl (route r k n)"
proof -
  have "take 1 (route r k n) = [p]" using assms route_prefix [OF assms(1), of 1 n k] by simp
  then obtain rest where "route r k n = p # rest" by (cases "route r k n") auto
  moreover from this have "p \<notin> set rest" using route_distinct [OF assms(1), of k n] by simp
  ultimately show ?thesis by (simp add: filter_id_conv) blast
qed

end

interpretation rt: router GetNodes "\<lambda>r. fst ` set (nodes r)" ring_inv
proof
  fix r k m n
  assume inv: "ring_inv r"
  show "distinct (GetNodes r k n)" by (simp add: GetNodes_pref [OF inv] distinct_pref)
  show "set (GetNodes r k n) \<subseteq> fst ` set (nodes r)"
    using set_take_subset [of n "pref r k"] by (simp add: GetNodes_pref [OF inv] set_pref [OF inv])
  show "finite (fst ` set (nodes r))" by simp
  have "card (fst ` set (nodes r)) = length (nodes r)"
    using inv distinct_card [of "map fst (nodes r)"] by (simp add: ring_inv_def gm_inv_def)
  then show "length (GetNodes r k n) = min n (card (fst ` set (nodes r)))"
    by (simp add: GetNodes_pref [OF inv] length_pref [OF inv] min.commute)
  show "GetNodes r k m = take m (GetNodes r k n)" if "m \<le> n"
    using that by (simp add: GetNodes_pref [OF inv] min_def)
qed

section \<open>Properties\<close>

lemma IsPrimary_iff: "IsPrimary r rm key \<longleftrightarrow> GetPrimary r key = Some (rm_selfID rm)"
  by (auto simp: IsPrimary_def GetPrimary_def Let_def)

lemma GetPrimary_route: "GetPrimary r key = Some p \<longleftrightarrow> (\<exists>rest. GetNodes r key 1 = p # rest)"
  by (cases "GetNodes r key 1") (auto simp: GetPrimary_def Let_def)

lemma GetPrimary_single: "ring_inv r \<Longrightarrow> GetPrimary r key = Some p \<longleftrightarrow> GetNodes r key 1 = [p]"
  using rt.route_length [of r key 1]
  by (cases "GetNodes r key 1") (auto simp: GetPrimary_route min_def split: if_splits)

lemma secondaries_of_primary:
  assumes "ring_inv r" "IsPrimary r rm key" "1 \<le> rm_replicaCount rm"
  shows "getSecondaries r rm key = Some (tl (GetReplicaSet r rm key))"
proof -
  have p: "GetNodes r key 1 = [rm_selfID rm]"
    using assms(1,2) by (simp only: IsPrimary_iff GetPrimary_single)
  have "GetNodes r key 1 = take 1 (GetNodes r key (nat (rm_replicaCount rm)))"
    using assms(1,3) by (intro rt.route_prefix) simp_all
  then have "GetNodes r key (nat (rm_replicaCount rm)) \<noteq> []" using p by auto
  moreover have "filter (\<lambda>n. n \<noteq> rm_selfID rm) (GetNodes r key (nat (rm_replicaCount rm))) =
      tl (GetNodes r key (nat (rm_replicaCount rm)))"
    using assms(1,3) p by (intro rt.route_without) simp_all
  ultimately show ?thesis
    by (simp add: getSecondaries_def GetReplicaSet_def Let_def Suc_le_eq)
qed

text \<open>
  For every key of a non-empty ring there is one primary, the same for all nodes that
  hold that ring: it is a member, \<open>IsPrimary\<close> is true on it and on no other node, it belongs
  to the key's replica set, and the nodes it sends its writes to are the rest of that set,
  in order and without itself.
\<close>

theorem one_primary:
  assumes "ring_inv r" "nodes r \<noteq> []"
  shows "\<exists>p. p \<in> fst ` set (nodes r) \<and> GetPrimary r key = Some p \<and>
    (\<forall>rm. IsPrimary r rm key \<longleftrightarrow> rm_selfID rm = p) \<and>
    (\<forall>rm. 1 \<le> rm_replicaCount rm \<longrightarrow> rm_selfID rm = p \<longrightarrow>
       IsReplica r rm key \<and> p \<notin> set (tl (GetReplicaSet r rm key)) \<and>
       getSecondaries r rm key = Some (tl (GetReplicaSet r rm key)))"
proof -
  have ne: "fst ` set (nodes r) \<noteq> {}" using assms(2) by simp
  obtain p rest1 where p: "GetNodes r key 1 = p # rest1" "GetNodes r key 1 = [p]" "p \<in> fst ` set (nodes r)"
    "p \<notin> set rest1"
    by (rule rt.route_head [OF assms(1) ne zero_less_one])
  have prim: "GetPrimary r key = Some p" using GetPrimary_single [OF assms(1)] p(2) by blast
  have all: "IsReplica r rm key \<and> p \<notin> set (tl (GetReplicaSet r rm key)) \<and>
      getSecondaries r rm key = Some (tl (GetReplicaSet r rm key))"
    if "1 \<le> rm_replicaCount rm" "rm_selfID rm = p" for rm
  proof -
    have "0 < nat (rm_replicaCount rm)" using that(1) by simp
    then obtain q rest where q: "GetNodes r key (nat (rm_replicaCount rm)) = q # rest" "GetNodes r key 1 = [q]"
      "q \<in> fst ` set (nodes r)" "q \<notin> set rest"
      by (rule rt.route_head [OF assms(1) ne])
    moreover have "q = p" using q(2) p(2) by simp
    moreover have "IsPrimary r rm key" using prim that(2) by (simp add: IsPrimary_iff)
    ultimately show ?thesis
      using that secondaries_of_primary [OF assms(1)] by (simp add: IsReplica_def GetReplicaSet_def)
  qed
  with p(3) prim show ?thesis by (intro exI [of _ p]) (auto simp: IsPrimary_iff)
qed

theorem one_primary_witness:
  "\<exists>p. p \<in> {''n1'', ''n2''} \<and> GetPrimary demo_ring ''k'' = Some p"
  using one_primary [OF demo_ring_inv, of "''k''"] by (auto simp: demo_ring_nodes)

text \<open>What a send says, its sequence number aside.\<close>

definition send_body :: "pending \<Rightarrow> string \<times> string \<times> bytes \<times> int \<times> Operation \<times> string" where
  "send_body = (\<lambda>(t, q). (t, rq_Key q, rq_Value q, rq_TtlMs q, rq_Op q, rq_SourceNode q))"

definition write_sends :: "Ring \<Rightarrow> ReplicationManager \<Rightarrow> string \<Rightarrow> bytes \<Rightarrow> int \<Rightarrow>
    (string \<times> string \<times> bytes \<times> int \<times> Operation \<times> string) list" where
  "write_sends r rm key value ttlMs =
     map (\<lambda>t. (t, key, value, ttlMs, OpSet, rm_selfID rm)) (tl (GetReplicaSet r rm key))"

lemma ReplicateWrite_primary:
  assumes "ring_inv r" "IsPrimary r rm key" "1 \<le> rm_replicaCount rm"
  obtains sends where
    "ReplicateWrite r rm key value ttlMs =
       Some (if sends = [] then rm else rm\<lparr>rm_sequence := rm_sequence rm + 1\<rparr>, sends)"
    "map send_body sends = write_sends r rm key value ttlMs"
    "\<forall>(t, q) \<in> set sends. rq_Sequence q = rm_sequence rm + 1"
proof
  let ?mk = "\<lambda>seq. \<lparr>rq_Key = key, rq_Value = value, rq_TtlMs = ttlMs, rq_Sequence = seq,
      rq_SourceNode = rm_selfID rm, rq_Op = OpSet\<rparr>"
  let ?sends = "map (\<lambda>t. (t, ?mk (rm_sequence rm + 1))) (tl (GetReplicaSet r rm key))"
  show "ReplicateWrite r rm key value ttlMs =
      Some (if ?sends = [] then rm else rm\<lparr>rm_sequence := rm_sequence rm + 1\<rparr>, ?sends)"
    using secondaries_of_primary [OF assms]
    by (simp add: ReplicateWrite_def replicate_to_def Let_def del: length_tl)
  show "map send_body ?sends = write_sends r rm key value ttlMs"
    by (simp add: send_body_def write_sends_def)
  show "\<forall>(t, q) \<in> set ?sends. rq_Sequence q = rm_sequence rm + 1" by auto
qed

lemma routing_cong [simp]:
  "IsPrimary r (rm\<lparr>rm_sequence := q\<rparr>) key = IsPrimary r rm key"
  "write_sends r (rm\<lparr>rm_sequence := q\<rparr>) key value ttl = write_sends r rm key value ttl"
  "IsPrimary r (rm\<lparr>rm_peerConns := c\<rparr>) key = IsPrimary r rm key"
  "write_sends r (rm\<lparr>rm_peerConns := c\<rparr>) key value ttl = write_sends r rm key value ttl"
  by (simp_all add: IsPrimary_def write_sends_def GetReplicaSet_def)

lemma rerep_fold:
  assumes "ring_inv r" "1 \<le> rm_replicaCount rm"
  shows "\<exists>q sends'. foldl (\<lambda>st (k, e). fst (rerep_step r st k (eValue e) (remaining_ttl now e))) (Some (rm, sends, n)) xs =
      Some (rm\<lparr>rm_sequence := q\<rparr>, sends @ sends', n + length (filter (\<lambda>(k, e). IsPrimary r rm k) xs)) \<and>
    map send_body sends' = concat (map (\<lambda>(k, e). write_sends r rm k (eValue e) (Milliseconds (remaining_ttl now e)))
      (filter (\<lambda>(k, e). IsPrimary r rm k) xs))"
  using assms(2)
proof (induction xs arbitrary: rm sends n)
  case Nil
  then show ?case by (intro exI [of _ "rm_sequence rm"] exI [of _ "[]"]) simp
next
  case (Cons x xs)
  obtain k e where x: "x = (k, e)" by (cases x)
  show ?case
  proof (cases "IsPrimary r rm k")
    case True
    let ?ttl = "Milliseconds (remaining_ttl now e)"
    obtain new where new: "ReplicateWrite r rm k (eValue e) ?ttl =
          Some (if new = [] then rm else rm\<lparr>rm_sequence := rm_sequence rm + 1\<rparr>, new)"
        "map send_body new = write_sends r rm k (eValue e) ?ttl"
      using ReplicateWrite_primary [OF assms(1) True Cons.prems] by metis
    define rm' where "rm' = (if new = [] then rm else rm\<lparr>rm_sequence := rm_sequence rm + 1\<rparr>)"
    have cong: "rm_replicaCount rm' = rm_replicaCount rm" "\<And>k. IsPrimary r rm' k = IsPrimary r rm k"
      "\<And>k v t. write_sends r rm' k v t = write_sends r rm k v t" "\<And>q. rm'\<lparr>rm_sequence := q\<rparr> = rm\<lparr>rm_sequence := q\<rparr>"
      by (simp_all add: rm'_def)
    have step: "fst (rerep_step r (Some (rm, sends, n)) k (eValue e) (remaining_ttl now e)) =
        Some (rm', sends @ new, Suc n)"
      using True new(1) by (simp add: rerep_step_def rm'_def)
    from Cons.IH [of rm' "sends @ new" "Suc n"] Cons.prems obtain q sends' where
      "foldl (\<lambda>st (k, e). fst (rerep_step r st k (eValue e) (remaining_ttl now e))) (Some (rm', sends @ new, Suc n)) xs =
        Some (rm\<lparr>rm_sequence := q\<rparr>, (sends @ new) @ sends', Suc n + length (filter (\<lambda>(k, e). IsPrimary r rm k) xs))"
      "map send_body sends' = concat (map (\<lambda>(k, e). write_sends r rm k (eValue e) (Milliseconds (remaining_ttl now e)))
        (filter (\<lambda>(k, e). IsPrimary r rm k) xs))"
      unfolding cong by blast
    then show ?thesis using True new(2) step x
      by (intro exI [of _ q] exI [of _ "new @ sends'"]) simp
  next
    case False
    then have "fst (rerep_step r (Some (rm, sends, n)) k (eValue e) (remaining_ttl now e)) = Some (rm, sends, n)"
      by (simp add: rerep_step_def)
    with False x Cons.IH [OF Cons.prems, of sends n] show ?thesis by simp
  qed
qed

lemma distinct_pairs:
  assumes "distinct (map fst ys)" "\<And>k. distinct (f k)"
  shows "distinct (concat (map (\<lambda>(k, e). map (\<lambda>t. (t, k)) (f k)) ys))"
  using assms(1) by (induction ys) (force simp: distinct_map inj_on_def assms(2))+

lemma rerep_snd: "snd (rerep_step r st k v t)"
  by (simp add: rerep_step_def split: option.splits)

lemma DisconnectPeer_frame:
  "rm_replicaCount (DisconnectPeer rm d) = rm_replicaCount rm" "IsPrimary r (DisconnectPeer rm d) k = IsPrimary r rm k"
  "write_sends r (DisconnectPeer rm d) k v t = write_sends r rm k v t"
  "GetPeerConn (DisconnectPeer rm d) d = None"
  by (simp_all add: DisconnectPeer_def GetPeerConn_def)



end
