(* ===== verification/Registry.thy ===== *)
theory Registry
  imports Go_Map
begin

text \<open>
  Node metadata and the registry of known nodes, \<open>internal/cluster/node.go\<close>. \<open>NodeStatus\<close> is
  a Go \<open>int\<close> that travels in gossip messages, so a value outside the four named ones has a
  constructor of its own. The registry holds pointers: \<open>reg_mutate\<close> is a write through the
  pointer that \<open>Get\<close> returned, while \<open>GetAll\<close> and \<open>GetAlive\<close> return copies.
\<close>

datatype NodeStatus = StatusAlive | StatusSuspect | StatusDead | StatusLeft | StatusOther int

fun status_String :: "NodeStatus \<Rightarrow> string" where
  "status_String StatusAlive = ''ALIVE''"
| "status_String StatusSuspect = ''SUSPECT''"
| "status_String StatusDead = ''DEAD''"
| "status_String StatusLeft = ''LEFT''"
| "status_String (StatusOther _) = ''UNKNOWN''"

record NodeInfo =
  n_ID :: string
  n_GRPCAddr :: string
  n_GossipAddr :: string
  n_HTTPAddr :: string
  n_Status :: NodeStatus
  n_Incarnation :: u64
  n_JoinedAt :: instant
  n_LastSeen :: instant

definition NewNodeInfo :: "string \<Rightarrow> string \<Rightarrow> string \<Rightarrow> string \<Rightarrow> instant \<Rightarrow> NodeInfo" where
  "NewNodeInfo id' grpcAddr gossipAddr httpAddr now =
     \<lparr>n_ID = id', n_GRPCAddr = grpcAddr, n_GossipAddr = gossipAddr, n_HTTPAddr = httpAddr,
      n_Status = StatusAlive, n_Incarnation = 0, n_JoinedAt = now, n_LastSeen = now\<rparr>"

definition GetStatus :: "NodeInfo \<Rightarrow> NodeStatus" where
  "GetStatus n = n_Status n"

definition SetStatus :: "NodeStatus \<Rightarrow> NodeInfo \<Rightarrow> NodeInfo" where
  "SetStatus st n = n\<lparr>n_Status := st\<rparr>"

definition Touch :: "instant \<Rightarrow> NodeInfo \<Rightarrow> NodeInfo" where
  "Touch now n = n\<lparr>n_LastSeen := now\<rparr>"

definition IsAlive :: "NodeInfo \<Rightarrow> bool" where
  "IsAlive n \<longleftrightarrow> GetStatus n = StatusAlive"

definition Clone :: "NodeInfo \<Rightarrow> NodeInfo" where
  "Clone n = \<lparr>n_ID = n_ID n, n_GRPCAddr = n_GRPCAddr n, n_GossipAddr = n_GossipAddr n,
     n_HTTPAddr = n_HTTPAddr n, n_Status = n_Status n, n_Incarnation = n_Incarnation n,
     n_JoinedAt = n_JoinedAt n, n_LastSeen = n_LastSeen n\<rparr>"

record NodeRegistry =
  reg_nodes :: "(string, NodeInfo) gomap"
  reg_self :: string

type_synonym reg_order = "(string, NodeInfo) gomap \<Rightarrow> (string, NodeInfo) gomap"

definition NewNodeRegistry :: "string \<Rightarrow> NodeRegistry" where
  "NewNodeRegistry selfID = \<lparr>reg_nodes = [], reg_self = selfID\<rparr>"

definition reg_Register :: "NodeRegistry \<Rightarrow> NodeInfo \<Rightarrow> NodeRegistry" where
  "reg_Register nr info = nr\<lparr>reg_nodes := gm_put (n_ID info) info (reg_nodes nr)\<rparr>"

definition reg_Remove :: "NodeRegistry \<Rightarrow> string \<Rightarrow> NodeRegistry" where
  "reg_Remove nr nodeID = nr\<lparr>reg_nodes := gm_del nodeID (reg_nodes nr)\<rparr>"

definition reg_Get :: "NodeRegistry \<Rightarrow> string \<Rightarrow> NodeInfo option" where
  "reg_Get nr nodeID = gm_get (reg_nodes nr) nodeID"

definition reg_mutate :: "string \<Rightarrow> (NodeInfo \<Rightarrow> NodeInfo) \<Rightarrow> NodeRegistry \<Rightarrow> NodeRegistry" where
  "reg_mutate nodeID f nr =
     (case reg_Get nr nodeID of
        None \<Rightarrow> nr | Some info \<Rightarrow> nr\<lparr>reg_nodes := gm_put nodeID (f info) (reg_nodes nr)\<rparr>)"

definition GetAll :: "reg_order \<Rightarrow> NodeRegistry \<Rightarrow> NodeInfo list" where
  "GetAll rng nr = map (\<lambda>(_, info). Clone info) (rng (reg_nodes nr))"

definition GetAlive :: "reg_order \<Rightarrow> NodeRegistry \<Rightarrow> NodeInfo list" where
  "GetAlive rng nr =
     map (\<lambda>(_, info). Clone info) (filter (\<lambda>(_, info). GetStatus info = StatusAlive) (rng (reg_nodes nr)))"

definition reg_Size :: "NodeRegistry \<Rightarrow> nat" where
  "reg_Size nr = length (reg_nodes nr)"

definition SelfID :: "NodeRegistry \<Rightarrow> string" where
  "SelfID nr = reg_self nr"

section \<open>Invariant and laws\<close>

definition reg_inv :: "NodeRegistry \<Rightarrow> bool" where
  "reg_inv nr \<longleftrightarrow> gm_inv (reg_nodes nr) \<and> (\<forall>k n. reg_Get nr k = Some n \<longrightarrow> n_ID n = k)"

lemma Clone_eq [simp]: "Clone n = n"
  by (simp add: Clone_def)

lemma reg_Get_Register [simp]:
  "reg_Get (reg_Register nr info) k = (if k = n_ID info then Some info else reg_Get nr k)"
  by (simp add: reg_Get_def reg_Register_def)

lemma reg_Get_Remove [simp]: "reg_Get (reg_Remove nr i) k = (if k = i then None else reg_Get nr k)"
  by (simp add: reg_Get_def reg_Remove_def)

lemma reg_Get_mutate [simp]:
  "reg_Get (reg_mutate i f nr) k = (if k = i then map_option f (reg_Get nr k) else reg_Get nr k)"
  by (simp add: reg_Get_def reg_mutate_def split: option.splits)

lemma reg_self_simps [simp]:
  "reg_self (reg_Register nr info) = reg_self nr" "reg_self (reg_mutate i f nr) = reg_self nr"
  by (simp_all add: reg_Register_def reg_mutate_def split: option.splits)

lemma NewNodeRegistry_inv [cache_inv]: "reg_inv (NewNodeRegistry i)"
  by (simp add: reg_inv_def NewNodeRegistry_def reg_Get_def gm_inv_def)

lemma reg_Register_inv [cache_inv]: "reg_inv nr \<Longrightarrow> reg_inv (reg_Register nr info)"
  unfolding reg_inv_def by (auto simp: reg_Register_def alm.inv_put reg_Get_def)

lemma reg_Remove_inv [cache_inv]: "reg_inv nr \<Longrightarrow> reg_inv (reg_Remove nr i)"
  unfolding reg_inv_def by (auto simp: reg_Remove_def alm.inv_del reg_Get_def)

lemma reg_mutate_inv [cache_inv]:
  "reg_inv nr \<Longrightarrow> (\<And>n. n_ID (f n) = n_ID n) \<Longrightarrow> reg_inv (reg_mutate i f nr)"
  unfolding reg_inv_def by (auto simp: reg_mutate_def alm.inv_put reg_Get_def split: option.splits)

lemma set_GetAll:
  assumes "range_order rng" "reg_inv nr"
  shows "n \<in> set (GetAll rng nr) \<longleftrightarrow> reg_Get nr (n_ID n) = Some n"
proof -
  have "n \<in> set (GetAll rng nr) \<longleftrightarrow> (\<exists>k. (k, n) \<in> set (reg_nodes nr))"
    using range_order.rng_set [OF assms(1)] by (force simp: GetAll_def)
  also have "\<dots> \<longleftrightarrow> (\<exists>k. reg_Get nr k = Some n)"
    using assms(2) by (simp add: reg_Get_def reg_inv_def gm_inv_def)
  finally show ?thesis using assms(2) by (auto simp: reg_inv_def)
qed

lemma distinct_GetAll:
  assumes "range_order rng" "reg_inv nr"
  shows "distinct (map n_ID (GetAll rng nr))"
proof -
  have "n_ID m = k" if "(k, m) \<in> set (rng (reg_nodes nr))" for k m
    using that assms range_order.rng_set [OF assms(1)]
    by (simp add: reg_inv_def reg_Get_def gm_inv_def)
  then have "map n_ID (GetAll rng nr) = map fst (rng (reg_nodes nr))"
    by (auto simp: GetAll_def)
  moreover have "distinct (map fst (rng (reg_nodes nr)))"
    using assms by (simp add: reg_inv_def gm_inv_def range_order.rng_distinct)
  ultimately show ?thesis by simp
qed

text \<open>
  \<open>GetAll\<close> lists each registered node once, under its own ID, and \<open>GetAlive\<close> exactly
  the ALIVE ones of them, in whatever order the map is ranged over; so \<open>GetAll\<close> has \<open>Size\<close>
  elements, and a registered node is found again under its ID.
\<close>

theorem registry_listing:
  assumes "range_order rng" "reg_inv nr"
  shows "distinct (map n_ID (GetAll rng nr)) \<and> length (GetAll rng nr) = reg_Size nr \<and>
    (n \<in> set (GetAll rng nr) \<longleftrightarrow> reg_Get nr (n_ID n) = Some n) \<and>
    (n \<in> set (GetAlive rng nr) \<longleftrightarrow> n \<in> set (GetAll rng nr) \<and> IsAlive n) \<and>
    reg_Get (reg_Register nr info) (n_ID info) = Some info"
proof -
  have "length (GetAll rng nr) = reg_Size nr"
    using range_order.rng_length [OF assms(1)] by (simp add: GetAll_def reg_Size_def)
  moreover have "n \<in> set (GetAlive rng nr) \<longleftrightarrow> n \<in> set (GetAll rng nr) \<and> IsAlive n"
    by (force simp: GetAlive_def GetAll_def IsAlive_def)
  ultimately show ?thesis using set_GetAll [OF assms] distinct_GetAll [OF assms] by simp
qed

theorem registry_listing_witness:
  "length (GetAll (\<lambda>m. m) (reg_Register (NewNodeRegistry ''a'') (NewNodeInfo ''a'' ''g'' ''u'' ''h'' 0))) = 1"
  using registry_listing [OF rng_insertion.range_order_axioms reg_Register_inv [OF NewNodeRegistry_inv],
      of "''a''" "NewNodeInfo ''a'' ''g'' ''u'' ''h'' 0" "NewNodeInfo ''b'' ''g'' ''u'' ''h'' 0" "NewNodeInfo ''b'' ''g'' ''u'' ''h'' 0"]
  by (simp add: reg_Size_def reg_Register_def NewNodeRegistry_def)

end
