(* ===== verification/Chaos.thy ===== *)
theory Chaos
  imports Go_Map
begin

text \<open>
  Fault injection, \<open>internal/chaos/faultinjector.go\<close> and \<open>internal/chaos/endpoints.go\<close>.

  An interceptor gets the handler it wraps as a state transformer, so that not calling the
  handler is visible as an unchanged state. \<open>ctx_alive d\<close> says whether the context of the
  call is still live after waiting for \<open>d\<close>. An HTTP endpoint gets the method and what
  \<open>json.Decoder.Decode\<close> made of the body: an error text or the request struct.
\<close>

section \<open>The fault injector\<close>

record FaultInjector =
  fi_failed :: bool
  fi_latency :: duration
  fi_partitioned :: "(string, bool) gomap"

definition NewFaultInjector :: FaultInjector where
  "NewFaultInjector = \<lparr>fi_failed = False, fi_latency = 0, fi_partitioned = []\<rparr>"

definition SetFailed :: "FaultInjector \<Rightarrow> bool \<Rightarrow> FaultInjector" where
  "SetFailed fi b = fi\<lparr>fi_failed := b\<rparr>"

definition IsFailed :: "FaultInjector \<Rightarrow> bool" where
  "IsFailed fi = fi_failed fi"

definition SetLatency :: "FaultInjector \<Rightarrow> duration \<Rightarrow> FaultInjector" where
  "SetLatency fi d = fi\<lparr>fi_latency := d\<rparr>"

definition GetLatency :: "FaultInjector \<Rightarrow> duration" where
  "GetLatency fi = fi_latency fi"

definition PartitionNode :: "FaultInjector \<Rightarrow> string \<Rightarrow> bool \<Rightarrow> FaultInjector" where
  "PartitionNode fi peerID part =
     (if part then fi\<lparr>fi_partitioned := gm_put peerID True (fi_partitioned fi)\<rparr>
      else fi\<lparr>fi_partitioned := gm_del peerID (fi_partitioned fi)\<rparr>)"

definition IsPartitioned :: "FaultInjector \<Rightarrow> string \<Rightarrow> bool" where
  "IsPartitioned fi peerID = (case gm_get (fi_partitioned fi) peerID of None \<Rightarrow> False | Some b \<Rightarrow> b)"

definition Recover :: "FaultInjector \<Rightarrow> FaultInjector" where
  "Recover fi = \<lparr>fi_failed = False, fi_latency = 0, fi_partitioned = []\<rparr>"

record FaultStatus =
  fs_Failed :: bool
  fs_LatencyMs :: int
  fs_Partitioned :: "string list"

definition fault_Status :: "((string, bool) gomap \<Rightarrow> (string, bool) gomap) \<Rightarrow> FaultInjector \<Rightarrow> FaultStatus" where
  "fault_Status rng fi =
     \<lparr>fs_Failed = fi_failed fi, fs_LatencyMs = Milliseconds (fi_latency fi),
      fs_Partitioned = map fst (rng (fi_partitioned fi))\<rparr>"

datatype rpc_error = Unavailable string | Ctx_done | Rpc_failed string

definition crash_error :: rpc_error where
  "crash_error = Unavailable ''node is crashed (chaos engineering)''"

definition UnaryInterceptor :: "FaultInjector \<Rightarrow> (duration \<Rightarrow> bool) \<Rightarrow>
    ('s \<Rightarrow> 's \<times> (rpc_error + 'r)) \<Rightarrow> 's \<Rightarrow> 's \<times> (rpc_error + 'r)" where
  "UnaryInterceptor fi ctx_alive handler s =
     (let failed = fi_failed fi; latency = fi_latency fi in
      if failed then (s, Inl crash_error)
      else if latency > 0 \<and> \<not> ctx_alive latency then (s, Inl Ctx_done)
      else handler s)"

definition StreamInterceptor :: "FaultInjector \<Rightarrow> (duration \<Rightarrow> bool) \<Rightarrow>
    ('s \<Rightarrow> 's \<times> rpc_error option) \<Rightarrow> 's \<Rightarrow> 's \<times> rpc_error option" where
  "StreamInterceptor fi ctx_alive handler s =
     (let failed = fi_failed fi; latency = fi_latency fi in
      if failed then (s, Some crash_error)
      else if latency > 0 \<and> \<not> ctx_alive latency then (s, Some Ctx_done)
      else handler s)"

section \<open>The HTTP endpoints\<close>

datatype chaos_body =
    Fail_updated string bool
  | Latency_updated string int
  | Partition_updated string string bool
  | Message_only string
  | Status_body FaultStatus

datatype 'b http_response = Http_error nat string | Http_json nat 'b

definition method_not_allowed :: "'b http_response" where
  "method_not_allowed = Http_error 405 ''method not allowed''"

definition bad_request :: "string \<Rightarrow> 'b http_response" where
  "bad_request err = Http_error 400 (''bad request: '' @ err)"

definition handleFailNode :: "FaultInjector \<Rightarrow> string \<Rightarrow> (string + bool) \<Rightarrow> FaultInjector \<times> chaos_body http_response" where
  "handleFailNode fi meth body =
     (if meth \<noteq> ''POST'' then (fi, method_not_allowed)
      else case body of
          Inl err \<Rightarrow> (fi, bad_request err)
        | Inr failed \<Rightarrow> (SetFailed fi failed, Http_json 200 (Fail_updated ''node failure state updated'' failed)))"

definition handleSlowNode :: "FaultInjector \<Rightarrow> string \<Rightarrow> (string + int) \<Rightarrow> FaultInjector \<times> chaos_body http_response" where
  "handleSlowNode fi meth body =
     (if meth \<noteq> ''POST'' then (fi, method_not_allowed)
      else case body of
          Inl err \<Rightarrow> (fi, bad_request err)
        | Inr latencyMs \<Rightarrow>
            (SetLatency fi (dur_of_ms latencyMs), Http_json 200 (Latency_updated ''node latency updated'' latencyMs)))"

definition handlePartition :: "FaultInjector \<Rightarrow> string \<Rightarrow> (string + string \<times> bool) \<Rightarrow> FaultInjector \<times> chaos_body http_response" where
  "handlePartition fi meth body =
     (if meth \<noteq> ''POST'' then (fi, method_not_allowed)
      else case body of
          Inl err \<Rightarrow> (fi, bad_request err)
        | Inr (peerID, part) \<Rightarrow>
            if peerID = '''' then (fi, bad_request ''peer_id is required'')
            else (PartitionNode fi peerID part,
                  Http_json 200 (Partition_updated ''node partition state updated'' peerID part)))"

definition handleRecover :: "FaultInjector \<Rightarrow> string \<Rightarrow> FaultInjector \<times> chaos_body http_response" where
  "handleRecover fi meth =
     (if meth \<noteq> ''POST'' then (fi, method_not_allowed)
      else (Recover fi, Http_json 200 (Message_only ''all faults recovered'')))"

definition handleStatus :: "((string, bool) gomap \<Rightarrow> (string, bool) gomap) \<Rightarrow> FaultInjector \<Rightarrow> string \<Rightarrow>
    chaos_body http_response" where
  "handleStatus rng fi meth =
     (if meth \<noteq> ''GET'' then method_not_allowed else Http_json 200 (Status_body (fault_Status rng fi)))"

text \<open>The routes, with the request already decoded for its endpoint.\<close>

datatype chaos_request =
    Req_fail "string + bool" | Req_slow "string + int" | Req_partition "string + string \<times> bool"
  | Req_recover | Req_status

fun chaos_route :: "((string, bool) gomap \<Rightarrow> (string, bool) gomap) \<Rightarrow> FaultInjector \<Rightarrow> string \<Rightarrow> chaos_request \<Rightarrow>
    FaultInjector \<times> chaos_body http_response" where
  "chaos_route rng fi meth (Req_fail b) = handleFailNode fi meth b"
| "chaos_route rng fi meth (Req_slow b) = handleSlowNode fi meth b"
| "chaos_route rng fi meth (Req_partition b) = handlePartition fi meth b"
| "chaos_route rng fi meth Req_recover = handleRecover fi meth"
| "chaos_route rng fi meth Req_status = (fi, handleStatus rng fi meth)"

section \<open>Properties\<close>

definition fi_inv :: "FaultInjector \<Rightarrow> bool" where
  "fi_inv fi \<longleftrightarrow> gm_inv (fi_partitioned fi) \<and> (\<forall>(p, b) \<in> set (fi_partitioned fi). b)"

lemmas chaos_defs = handleFailNode_def handleSlowNode_def handlePartition_def handleRecover_def
  handleStatus_def method_not_allowed_def bad_request_def SetFailed_def SetLatency_def
  PartitionNode_def Recover_def

lemma PartitionNode_inv: "fi_inv fi \<Longrightarrow> fi_inv (PartitionNode fi p b)"
  using set_gm_put [of p True "fi_partitioned fi"] set_gm_del [of p "fi_partitioned fi"]
  by (auto simp: fi_inv_def PartitionNode_def alm.inv_put alm.inv_del)

lemma chaos_route_inv: "fi_inv fi \<Longrightarrow> fi_inv (fst (chaos_route rng fi meth q))"
  using PartitionNode_inv [of fi]
  by (cases q) (auto simp: handleFailNode_def handleSlowNode_def handlePartition_def handleRecover_def
      SetFailed_def SetLatency_def Recover_def fi_inv_def gm_inv_def split: sum.splits)

lemma chaos_run_inv: "fi_inv (foldl (\<lambda>fi (meth, q). fst (chaos_route rng fi meth q)) NewFaultInjector qs)"
proof -
  have "fi_inv (foldl (\<lambda>fi (meth, q). fst (chaos_route rng fi meth q)) fi qs)" if "fi_inv fi" for fi
    using that by (induction qs arbitrary: fi) (auto intro: chaos_route_inv)
  moreover have "fi_inv NewFaultInjector" by (simp add: NewFaultInjector_def fi_inv_def gm_inv_def)
  ultimately show ?thesis by blast
qed

lemma IsPartitioned_Status:
  assumes "range_order rng" "fi_inv fi"
  shows "p \<in> set (fs_Partitioned (fault_Status rng fi)) \<longleftrightarrow> IsPartitioned fi p"
proof -
  have "set (map fst (rng (fi_partitioned fi))) = fst ` set (fi_partitioned fi)"
    using range_order.rng_set [OF assms(1)] by simp
  moreover have "p \<in> fst ` set (fi_partitioned fi) \<longleftrightarrow> gm_get (fi_partitioned fi) p = Some True"
  proof (cases "gm_get (fi_partitioned fi) p")
    case None
    then have "p \<notin> fst ` set (fi_partitioned fi)" by (simp add: map_of_eq_None_iff)
    with None show ?thesis by simp
  next
    case (Some b)
    from map_of_SomeD [OF this] have "(p, b) \<in> set (fi_partitioned fi)" .
    moreover from this have "b" using assms(2) by (auto simp: fi_inv_def)
    ultimately show ?thesis using Some by force
  qed
  ultimately show ?thesis
    by (auto simp: fault_Status_def IsPartitioned_def split: option.splits)
qed



text \<open>
  A request with the wrong method, an undecodable body or no peer name is answered with
  405 or 400 and changes no fault; and after any chaos requests, the status lists exactly the
  partitioned peers, and partitioning a peer and lifting the partition concerns that peer
  alone.
\<close>

theorem chaos_endpoints:
  assumes "range_order rng"
    and "fi = foldl (\<lambda>fi (meth, q). fst (chaos_route rng fi meth q)) NewFaultInjector qs"
  shows "(\<forall>code msg. snd (chaos_route rng fi meth q) = Http_error code msg \<longrightarrow>
      code \<in> {400, 405} \<and> fst (chaos_route rng fi meth q) = fi) \<and>
    (IsPartitioned fi p \<longleftrightarrow> p \<in> set (fs_Partitioned (fault_Status rng fi))) \<and>
    (p \<noteq> '''' \<longrightarrow> IsPartitioned (fst (handlePartition fi ''POST'' (Inr (p, b)))) p = b \<and>
      (\<forall>o'. o' \<noteq> p \<longrightarrow> IsPartitioned (fst (handlePartition fi ''POST'' (Inr (p, b)))) o' = IsPartitioned fi o'))"
proof -
  have "fi_inv fi" unfolding assms(2) by (rule chaos_run_inv)
  note parts = IsPartitioned_Status [OF assms(1) this]
  have "code \<in> {400, 405} \<and> fst (chaos_route rng fi meth q) = fi"
    if "snd (chaos_route rng fi meth q) = Http_error code msg" for code msg
    using that by (cases q) (auto simp: chaos_defs split: sum.splits if_splits)
  moreover have "IsPartitioned (PartitionNode fi p b) p = b" "o' \<noteq> p \<Longrightarrow> IsPartitioned (PartitionNode fi p b) o' = IsPartitioned fi o'" for o'
    by (simp_all add: IsPartitioned_def PartitionNode_def)
  ultimately show ?thesis by (simp add: parts handlePartition_def)
qed

theorem chaos_endpoints_witness:
  "IsPartitioned (fst (chaos_route (\<lambda>m. m) NewFaultInjector ''POST'' (Req_partition (Inr (''n2'', True))))) ''n2''"
  using chaos_endpoints [OF rng_insertion.range_order_axioms, of NewFaultInjector "[]" "''GET''" Req_status "''n2''" True]
  by simp

end
