(* ===== verification/Membership.thy ===== *)
theory Membership
  imports Registry Chaos
begin

text \<open>
  SWIM membership, \<open>internal/cluster/membership.go\<close>: the state, the update queue, the status
  transitions and the message handlers. The two protocol loops and their interleaving are in
  \<open>Swim\<close>.

  What runs outside a handler is kept as data. \<open>m_out\<close> is the list of packets written, each
  with the UDP address it goes to; a packet is the message itself, JSON on the wire.
  \<open>m_events\<close> is the list of callback goroutines started by \<open>emitEvent\<close>. A suspicion timer
  has a number: \<open>m_timers\<close> is the map \<open>suspicionTimers\<close>, \<open>m_armed\<close> the timers that are
  running, and \<open>m_fired\<close> the nodes whose timer has gone off and whose \<open>markDead\<close> waits for the
  lock; \<open>timer.Stop\<close> keeps an armed timer from firing and does nothing to a fired one. An ack
  channel has a number too: \<open>m_closed\<close> are the closed ones.

  \<open>resolve\<close> is \<open>net.ResolveUDPAddr\<close>. The registry's entry of the local node is the object
  \<open>selfInfo\<close>; the handlers read only its addresses, which never change.
\<close>

section \<open>Data\<close>

definition DefaultPingInterval :: duration where
  "DefaultPingInterval = 500 * Millisecond"

definition DefaultPingTimeout :: duration where
  "DefaultPingTimeout = 200 * Millisecond"

definition DefaultSuspicionTimeout :: duration where
  "DefaultSuspicionTimeout = 3000 * Millisecond"

definition DefaultPingReqCount :: nat where
  "DefaultPingReqCount = 3"

definition maxPiggybackUpdates :: nat where
  "maxPiggybackUpdates = 10"

datatype MessageType = MsgPing | MsgAck | MsgPingReq | MsgJoin | MsgOther nat

record MembershipUpdate =
  u_NodeID :: string
  u_GRPCAddr :: string
  u_GossipAddr :: string
  u_HTTPAddr :: string
  u_Status :: NodeStatus
  u_Incarnation :: u64

record SwimMessage =
  s_Type :: MessageType
  s_SenderID :: string
  s_SenderAddr :: string
  s_TargetID :: string
  s_Incarnation :: u64
  s_Updates :: "MembershipUpdate list"

datatype MembershipEvent = EventJoin string | EventAlive string | EventSuspect string | EventDead string | EventLeft string

record queuedUpdate =
  q_update :: MembershipUpdate
  q_sentCount :: nat

record Membership =
  m_selfID :: string
  m_selfInfo :: NodeInfo
  m_registry :: NodeRegistry
  m_incarnation :: u64
  m_injector :: "FaultInjector option"
  m_pendingAcks :: "(string, nat) gomap"
  m_nextChan :: nat
  m_closed :: "nat list"
  m_updateQueue :: "queuedUpdate list"
  m_timers :: "(string, nat) gomap"
  m_nextTimer :: nat
  m_armed :: "(nat \<times> string) list"
  m_fired :: "string list"
  m_pingInterval :: duration
  m_pingTimeout :: duration
  m_suspicionTimeout :: duration
  m_pingReqCount :: nat
  m_onEvent :: bool
  m_events :: "MembershipEvent list"
  m_out :: "(string \<times> SwimMessage) list"

definition NewMembership :: "NodeInfo \<Rightarrow> NodeRegistry \<Rightarrow> Membership" where
  "NewMembership selfInfo registry =
     \<lparr>m_selfID = n_ID selfInfo, m_selfInfo = selfInfo, m_registry = registry, m_incarnation = 0,
      m_injector = None, m_pendingAcks = [], m_nextChan = 0, m_closed = [], m_updateQueue = [],
      m_timers = [], m_nextTimer = 0, m_armed = [], m_fired = [],
      m_pingInterval = DefaultPingInterval, m_pingTimeout = DefaultPingTimeout,
      m_suspicionTimeout = DefaultSuspicionTimeout, m_pingReqCount = DefaultPingReqCount,
      m_onEvent = False, m_events = [], m_out = []\<rparr>"

definition SetFaultInjector :: "Membership \<Rightarrow> FaultInjector option \<Rightarrow> Membership" where
  "SetFaultInjector m fi = m\<lparr>m_injector := fi\<rparr>"

definition SetOnEvent :: "Membership \<Rightarrow> Membership" where
  "SetOnEvent m = m\<lparr>m_onEvent := True\<rparr>"

definition isBlocked :: "Membership \<Rightarrow> string \<Rightarrow> bool" where
  "isBlocked m peerID =
     (case m_injector m of None \<Rightarrow> False | Some fi \<Rightarrow> IsFailed fi \<or> IsPartitioned fi peerID)"

definition swim_emit :: "Membership \<Rightarrow> MembershipEvent \<Rightarrow> Membership" where
  "swim_emit m event = (if m_onEvent m then m\<lparr>m_events := m_events m @ [event]\<rparr> else m)"

definition WriteToUDP :: "Membership \<Rightarrow> SwimMessage \<Rightarrow> string \<Rightarrow> Membership" where
  "WriteToUDP m msg addr = m\<lparr>m_out := m_out m @ [(addr, msg)]\<rparr>"

section \<open>The update queue\<close>

fun queue_add :: "MembershipUpdate \<Rightarrow> queuedUpdate list \<Rightarrow> queuedUpdate list" where
  "queue_add u [] = [\<lparr>q_update = u, q_sentCount = 0\<rparr>]"
| "queue_add u (q # qs) =
     (if u_NodeID (q_update q) = u_NodeID u then
        if u_Incarnation u \<ge> u_Incarnation (q_update q) then \<lparr>q_update = u, q_sentCount = 0\<rparr> # qs else q # qs
      else q # queue_add u qs)"

definition queueUpdate :: "Membership \<Rightarrow> MembershipUpdate \<Rightarrow> Membership" where
  "queueUpdate m u = m\<lparr>m_updateQueue := queue_add u (m_updateQueue m)\<rparr>"

definition queueUpdateLocked :: "Membership \<Rightarrow> MembershipUpdate \<Rightarrow> Membership" where
  "queueUpdateLocked m u = m\<lparr>m_updateQueue := queue_add u (m_updateQueue m)\<rparr>"

text \<open>The loop of \<open>drainUpdates\<close>, with the updates taken so far and the entries kept so far.\<close>

fun drain_loop :: "queuedUpdate list \<Rightarrow> MembershipUpdate list \<Rightarrow> queuedUpdate list \<Rightarrow>
    MembershipUpdate list \<times> queuedUpdate list" where
  "drain_loop [] updates active = (updates, active)"
| "drain_loop (q # qs) updates active =
     (let taken = length updates < maxPiggybackUpdates;
          updates' = (if taken then updates @ [q_update q] else updates);
          q' = (if taken then q\<lparr>q_sentCount := q_sentCount q + 1\<rparr> else q);
          active' = (if q_sentCount q' < 3 then active @ [q'] else active)
      in drain_loop qs updates' active')"

definition drainUpdates :: "Membership \<Rightarrow> Membership \<times> MembershipUpdate list" where
  "drainUpdates m =
     (if length (m_updateQueue m) = 0 then (m, [])
      else case drain_loop (m_updateQueue m) [] [] of
        (updates, active) \<Rightarrow> (m\<lparr>m_updateQueue := active\<rparr>, updates))"

section \<open>Suspicion timers\<close>

definition timer_Stop :: "nat \<Rightarrow> Membership \<Rightarrow> Membership" where
  "timer_Stop t m = m\<lparr>m_armed := filter (\<lambda>(t', _). t' \<noteq> t) (m_armed m)\<rparr>"

definition cancel_timer :: "Membership \<Rightarrow> string \<Rightarrow> Membership" where
  "cancel_timer m nodeID =
     (case gm_get (m_timers m) nodeID of
        None \<Rightarrow> m
      | Some t \<Rightarrow> (timer_Stop t m)\<lparr>m_timers := gm_del nodeID (m_timers m)\<rparr>)"

definition start_timer :: "Membership \<Rightarrow> string \<Rightarrow> Membership" where
  "start_timer m nodeID =
     (let m' = (case gm_get (m_timers m) nodeID of None \<Rightarrow> m | Some t \<Rightarrow> timer_Stop t m) in
      m'\<lparr>m_timers := gm_put nodeID (m_nextTimer m) (m_timers m), m_nextTimer := Suc (m_nextTimer m),
         m_armed := m_armed m' @ [(m_nextTimer m, nodeID)]\<rparr>)"

section \<open>Status transitions\<close>

definition set_status :: "Membership \<Rightarrow> string \<Rightarrow> NodeStatus \<Rightarrow> Membership" where
  "set_status m nodeID st = m\<lparr>m_registry := reg_mutate nodeID (SetStatus st) (m_registry m)\<rparr>"

definition status_update :: "string \<Rightarrow> NodeStatus \<Rightarrow> u64 \<Rightarrow> MembershipUpdate" where
  "status_update nodeID st inc =
     \<lparr>u_NodeID = nodeID, u_GRPCAddr = [], u_GossipAddr = [], u_HTTPAddr = [], u_Status = st, u_Incarnation = inc\<rparr>"

definition self_update :: "Membership \<Rightarrow> MembershipUpdate" where
  "self_update m =
     \<lparr>u_NodeID = m_selfID m, u_GRPCAddr = n_GRPCAddr (m_selfInfo m), u_GossipAddr = n_GossipAddr (m_selfInfo m),
      u_HTTPAddr = n_HTTPAddr (m_selfInfo m), u_Status = StatusAlive, u_Incarnation = m_incarnation m\<rparr>"

definition markSuspect :: "Membership \<Rightarrow> string \<Rightarrow> Membership" where
  "markSuspect m nodeID =
     (case reg_Get (m_registry m) nodeID of
        None \<Rightarrow> m
      | Some info \<Rightarrow>
          if GetStatus info = StatusDead \<or> GetStatus info = StatusLeft then m
          else if GetStatus info = StatusSuspect then m
          else
            let m1 = set_status m nodeID StatusSuspect;
                m2 = queueUpdateLocked m1 (status_update nodeID StatusSuspect (n_Incarnation info));
                m3 = swim_emit m2 (EventSuspect nodeID)
            in start_timer m3 nodeID)"

definition markDead :: "Membership \<Rightarrow> string \<Rightarrow> Membership" where
  "markDead m nodeID =
     (case reg_Get (m_registry m) nodeID of
        None \<Rightarrow> m
      | Some info \<Rightarrow>
          if GetStatus info = StatusDead then m
          else
            let m1 = set_status m nodeID StatusDead;
                m2 = cancel_timer m1 nodeID;
                m3 = queueUpdateLocked m2 (status_update nodeID StatusDead (n_Incarnation info))
            in swim_emit m3 (EventDead nodeID))"

definition markSuspectLocked :: "Membership \<Rightarrow> string \<Rightarrow> Membership" where
  "markSuspectLocked m nodeID =
     swim_emit (start_timer (set_status m nodeID StatusSuspect) nodeID) (EventSuspect nodeID)"

definition refute :: "Membership \<Rightarrow> MembershipUpdate \<Rightarrow> Membership" where
  "refute m u =
     (let m' = (if u_Incarnation u \<ge> m_incarnation m then m\<lparr>m_incarnation := u_Incarnation u + 1\<rparr> else m)
      in queueUpdateLocked m' (self_update m'))"

definition apply_new :: "Membership \<Rightarrow> MembershipUpdate \<Rightarrow> instant \<Rightarrow> Membership" where
  "apply_new m u now =
     (if u_Status u = StatusAlive then
        let newNode = (NewNodeInfo (u_NodeID u) (u_GRPCAddr u) (u_GossipAddr u) (u_HTTPAddr u) now)
              \<lparr>n_Incarnation := u_Incarnation u\<rparr>;
            m1 = m\<lparr>m_registry := reg_Register (m_registry m) newNode\<rparr>;
            m2 = swim_emit m1 (EventJoin (u_NodeID u))
        in queueUpdate m2 u
      else m)"

definition apply_known :: "Membership \<Rightarrow> MembershipUpdate \<Rightarrow> NodeInfo \<Rightarrow> instant \<Rightarrow> Membership" where
  "apply_known m u existing now =
     (case u_Status u of
        StatusAlive \<Rightarrow>
          if GetStatus existing \<noteq> StatusAlive then
            let m1 = m\<lparr>m_registry := reg_mutate (u_NodeID u)
                  (\<lambda>n. Touch now ((SetStatus StatusAlive n)\<lparr>n_Incarnation := u_Incarnation u\<rparr>)) (m_registry m)\<rparr>;
                m2 = cancel_timer m1 (u_NodeID u)
            in swim_emit m2 (EventAlive (u_NodeID u))
          else m
      | StatusSuspect \<Rightarrow>
          if GetStatus existing = StatusAlive then markSuspectLocked m (u_NodeID u) else m
      | StatusDead \<Rightarrow>
          if GetStatus existing \<noteq> StatusDead then
            swim_emit (cancel_timer (set_status m (u_NodeID u) StatusDead) (u_NodeID u)) (EventDead (u_NodeID u))
          else m
      | StatusLeft \<Rightarrow> swim_emit (set_status m (u_NodeID u) StatusLeft) (EventLeft (u_NodeID u))
      | StatusOther _ \<Rightarrow> m)"

definition applyUpdate :: "Membership \<Rightarrow> MembershipUpdate \<Rightarrow> instant \<Rightarrow> Membership" where
  "applyUpdate m u now =
     (if u_NodeID u = m_selfID m then
        if u_Status u = StatusSuspect \<or> u_Status u = StatusDead then refute m u else m
      else
        case reg_Get (m_registry m) (u_NodeID u) of
          None \<Rightarrow> apply_new m u now
        | Some existing \<Rightarrow>
            if u_Incarnation u < n_Incarnation existing then m
            else apply_known m u existing now)"

section \<open>Message handlers\<close>

definition swim_msg :: "Membership \<Rightarrow> MessageType \<Rightarrow> string \<Rightarrow> MembershipUpdate list \<Rightarrow> SwimMessage" where
  "swim_msg m ty target updates =
     \<lparr>s_Type = ty, s_SenderID = m_selfID m, s_SenderAddr = n_GossipAddr (m_selfInfo m), s_TargetID = target,
      s_Incarnation = m_incarnation m, s_Updates = updates\<rparr>"

definition swim_handlePing :: "Membership \<Rightarrow> string \<Rightarrow> Membership" where
  "swim_handlePing m from' =
     (case drainUpdates m of (m', updates) \<Rightarrow> WriteToUDP m' (swim_msg m MsgAck [] updates) from')"

definition handleAck :: "Membership \<Rightarrow> SwimMessage \<Rightarrow> instant \<Rightarrow> Membership" where
  "handleAck m msg now =
     (let m' = (case gm_get (m_pendingAcks m) (s_SenderID msg) of
                  None \<Rightarrow> m
                | Some ch \<Rightarrow> m\<lparr>m_closed := ch # m_closed m,
                               m_pendingAcks := gm_del (s_SenderID msg) (m_pendingAcks m)\<rparr>)
      in m'\<lparr>m_registry := reg_mutate (s_SenderID msg) (Touch now) (m_registry m')\<rparr>)"

definition node_update :: "NodeInfo \<Rightarrow> MembershipUpdate" where
  "node_update node =
     \<lparr>u_NodeID = n_ID node, u_GRPCAddr = n_GRPCAddr node, u_GossipAddr = n_GossipAddr node,
      u_HTTPAddr = n_HTTPAddr node, u_Status = GetStatus node, u_Incarnation = n_Incarnation node\<rparr>"

definition handleJoin :: "reg_order \<Rightarrow> Membership \<Rightarrow> string \<Rightarrow> Membership" where
  "handleJoin rng m from' =
     WriteToUDP m (swim_msg m MsgAck [] (map node_update (GetAll rng (m_registry m)))) from'"

text \<open>
  \<open>sendPingAndWait\<close> up to its wait: \<open>None\<close> when it gives up at once, otherwise the channel it
  waits on. The wait ends with the channel closed, with a timeout, which removes the pending
  ack, or with the stop signal, which does not.
\<close>

definition send_ping :: "(string \<Rightarrow> string option) \<Rightarrow> Membership \<Rightarrow> string \<Rightarrow> string \<Rightarrow> Membership \<times> nat option" where
  "send_ping resolve m addr targetID =
     (if isBlocked m targetID then (m, None)
      else case resolve addr of
          None \<Rightarrow> (m, None)
        | Some udpAddr \<Rightarrow>
            let ch = m_nextChan m;
                m1 = m\<lparr>m_nextChan := Suc ch, m_pendingAcks := gm_put targetID ch (m_pendingAcks m)\<rparr>
            in case drainUpdates m1 of
                 (m2, updates) \<Rightarrow> (WriteToUDP m2 (swim_msg m2 MsgPing [] updates) udpAddr, Some ch))"

definition ping_timeout :: "Membership \<Rightarrow> string \<Rightarrow> Membership" where
  "ping_timeout m targetID = m\<lparr>m_pendingAcks := gm_del targetID (m_pendingAcks m)\<rparr>"

text \<open>
  \<open>sendPingReqs\<close> up to its wait. \<open>shuffle\<close> is the effect of \<open>rand.Shuffle\<close> on the proxies;
  \<open>None\<close> means that there is no proxy.
\<close>

definition send_req :: "(string \<Rightarrow> string option) \<Rightarrow> string \<Rightarrow> Membership \<Rightarrow> NodeInfo \<Rightarrow> Membership" where
  "send_req resolve targetID m proxy =
     (if isBlocked m (n_ID proxy) then m
      else case resolve (n_GossipAddr proxy) of
          None \<Rightarrow> m
        | Some udpAddr \<Rightarrow> WriteToUDP m (swim_msg m MsgPingReq targetID []) udpAddr)"

definition send_reqs :: "reg_order \<Rightarrow> (NodeInfo list \<Rightarrow> NodeInfo list) \<Rightarrow> (string \<Rightarrow> string option) \<Rightarrow>
    Membership \<Rightarrow> NodeInfo \<Rightarrow> Membership \<times> nat option" where
  "send_reqs rng shuffle resolve m target =
     (let proxies = filter (\<lambda>node. n_ID node \<noteq> m_selfID m \<and> n_ID node \<noteq> n_ID target \<and> GetStatus node = StatusAlive)
            (GetAll rng (m_registry m)) in
      if length proxies = 0 then (m, None)
      else
        let shuffled = shuffle proxies;
            chosen = (if length shuffled > m_pingReqCount m then take (m_pingReqCount m) shuffled else shuffled);
            ch = m_nextChan m;
            m1 = m\<lparr>m_nextChan := Suc ch, m_pendingAcks := gm_put (n_ID target) ch (m_pendingAcks m)\<rparr>
        in (foldl (send_req resolve (n_ID target)) m1 chosen, Some ch))"

text \<open>\<open>handlePingReq\<close> up to its wait, and the ack it relays when the probe was answered.\<close>

definition handlePingReq :: "(string \<Rightarrow> string option) \<Rightarrow> Membership \<Rightarrow> SwimMessage \<Rightarrow> Membership \<times> (NodeInfo \<times> nat) option" where
  "handlePingReq resolve m msg =
     (case reg_Get (m_registry m) (s_TargetID msg) of
        None \<Rightarrow> (m, None)
      | Some targetInfo \<Rightarrow>
          case send_ping resolve m (n_GossipAddr targetInfo) (s_TargetID msg) of
            (m', None) \<Rightarrow> (m', None)
          | (m', Some ch) \<Rightarrow> (m', Some (targetInfo, ch)))"

definition relay_ack :: "Membership \<Rightarrow> string \<Rightarrow> NodeInfo \<Rightarrow> string \<Rightarrow> Membership" where
  "relay_ack m targetID targetInfo from' =
     WriteToUDP m \<lparr>s_Type = MsgAck, s_SenderID = targetID, s_SenderAddr = n_GossipAddr targetInfo,
       s_TargetID = [], s_Incarnation = m_incarnation m, s_Updates = []\<rparr> from'"

fun apply_updates :: "Membership \<Rightarrow> MembershipUpdate list \<Rightarrow> (nat \<Rightarrow> instant) \<Rightarrow> Membership" where
  "apply_updates m [] clk = m"
| "apply_updates m (u # us) clk = apply_updates (applyUpdate m u (clk 0)) us (clk \<circ> Suc)"

text \<open>
  \<open>handleMessage\<close>. The second component is set when the receiver goes on to wait for the
  probe of a ping-req. The \<open>i\<close>-th update reads the clock at \<open>clk i\<close>, the ack after the last.
\<close>

definition handleMessage :: "reg_order \<Rightarrow> (string \<Rightarrow> string option) \<Rightarrow> Membership \<Rightarrow> SwimMessage \<Rightarrow> string \<Rightarrow>
    (nat \<Rightarrow> instant) \<Rightarrow> Membership \<times> (NodeInfo \<times> nat) option" where
  "handleMessage rng resolve m msg from' clk =
     (let m' = apply_updates m (s_Updates msg) clk in
      case s_Type msg of
        MsgPing \<Rightarrow> (swim_handlePing m' from', None)
      | MsgAck \<Rightarrow> (handleAck m' msg (clk (length (s_Updates msg))), None)
      | MsgPingReq \<Rightarrow> handlePingReq resolve m' msg
      | MsgJoin \<Rightarrow> (handleJoin rng m' from', None)
      | MsgOther _ \<Rightarrow> (m', None))"

section \<open>Starting, joining, stopping\<close>

text \<open>\<open>listen\<close> is whether the address resolved and the UDP socket could be opened.\<close>

definition swim_Start :: "Membership \<Rightarrow> bool \<Rightarrow> Membership option" where
  "swim_Start m listen =
     (if \<not> listen then None
      else Some (queueUpdate (m\<lparr>m_registry := reg_Register (m_registry m) (m_selfInfo m)\<rparr>) (self_update m)))"

definition swim_Stop :: "Membership \<Rightarrow> Membership" where
  "swim_Stop m =
     (let m1 = (set_status m (m_selfID m) StatusLeft)\<lparr>m_selfInfo := SetStatus StatusLeft (m_selfInfo m)\<rparr>
      in queueUpdate m1 (status_update (m_selfID m) StatusLeft (m_incarnation m)))"

definition stop_timers :: "Membership \<Rightarrow> Membership" where
  "stop_timers m = foldl (\<lambda>m (_, t). timer_Stop t m) m (m_timers m)"

definition JoinCluster :: "(string \<Rightarrow> string option) \<Rightarrow> (string \<Rightarrow> bool) \<Rightarrow> Membership \<Rightarrow> string list \<Rightarrow> Membership \<times> bool" where
  "JoinCluster resolve written m seedAddrs =
     (if length seedAddrs = 0 then (m, True)
      else foldl (\<lambda>(m, joined) addr.
             case resolve addr of
               None \<Rightarrow> (m, joined)
             | Some udpAddr \<Rightarrow>
                 if \<not> written udpAddr then (m, joined)
                 else (WriteToUDP m (swim_msg m MsgJoin [] [self_update m]) udpAddr, True))
           (m, False) seedAddrs)"

end
