(* ===== verification/Gossip.thy ===== *)
theory Gossip
  imports Membership
begin

text \<open>
  The dissemination queue of \<open>membership.go\<close>: what \<open>queueUpdate\<close> keeps and what repeated
  calls of \<open>drainUpdates\<close> send. \<open>drain_rounds\<close> is the queue drained again and again with
  nothing added in between.
\<close>

definition qid :: "queuedUpdate \<Rightarrow> string" where
  "qid q = u_NodeID (q_update q)"

definition queue_ok :: "queuedUpdate list \<Rightarrow> bool" where
  "queue_ok qs \<longleftrightarrow> distinct (map qid qs) \<and> (\<forall>q \<in> set qs. q_sentCount q < 3)"

definition bump :: "queuedUpdate \<Rightarrow> queuedUpdate" where
  "bump q = q\<lparr>q_sentCount := q_sentCount q + 1\<rparr>"

definition unspent :: "queuedUpdate list \<Rightarrow> queuedUpdate list" where
  "unspent qs = filter (\<lambda>q. q_sentCount q < 3) qs"

definition drained :: "nat \<Rightarrow> queuedUpdate list \<Rightarrow> queuedUpdate list" where
  "drained k qs = unspent (map bump (take k qs) @ drop k qs)"

lemma bump_simps [simp]: "q_update (bump q) = q_update q" "q_sentCount (bump q) = Suc (q_sentCount q)" "qid (bump q) = qid q"
  by (simp_all add: bump_def qid_def)

lemma drain_loop_eq:
  "drain_loop qs us act =
     (us @ map q_update (take (10 - length us) qs), act @ drained (10 - length us) qs)"
proof (induction qs arbitrary: us act)
  case Nil
  show ?case by (simp add: drained_def unspent_def)
next
  case (Cons q qs)
  show ?case
  proof (cases "length us < 10")
    case True
    then have "10 - length us = Suc (9 - length us)" by simp
    with True Cons [of "us @ [q_update q]"] show ?thesis
      by (simp add: Let_def maxPiggybackUpdates_def drained_def unspent_def bump_def)
  next
    case False
    with Cons [of us] show ?thesis
      by (simp add: Let_def maxPiggybackUpdates_def drained_def unspent_def)
  qed
qed

lemma drainUpdates_eq:
  "drainUpdates m = (m\<lparr>m_updateQueue := drained 10 (m_updateQueue m)\<rparr>, map q_update (take 10 (m_updateQueue m)))"
  by (simp add: drainUpdates_def drain_loop_eq drained_def unspent_def)

lemma set_queue_add: "set (queue_add u qs) \<subseteq> insert \<lparr>q_update = u, q_sentCount = 0\<rparr> (set qs)"
  by (induction qs) auto

lemma queue_add_ids: "qid ` set (queue_add u qs) = insert (u_NodeID u) (qid ` set qs)"
  by (induction qs) (auto simp: qid_def)

lemma queue_add_ok: "queue_ok qs \<Longrightarrow> queue_ok (queue_add u qs)"
proof -
  assume ok: "queue_ok qs"
  have "distinct (map qid (queue_add u qs))"
    using ok by (induction qs) (auto simp: queue_ok_def queue_add_ids simp flip: qid_def, simp add: qid_def)
  then show ?thesis using ok set_queue_add [of u qs] by (auto simp: queue_ok_def)
qed

lemma drained_ids: "qid ` set (drained k qs) \<subseteq> qid ` set qs"
proof -
  have "set (drained k qs) \<subseteq> bump ` set qs \<union> set qs"
    by (auto simp: drained_def unspent_def dest: in_set_takeD in_set_dropD)
  then show ?thesis by force
qed

lemma drained_ok:
  assumes "queue_ok qs"
  shows "queue_ok (drained k qs)"
proof -
  have "map qid (map bump (take k qs) @ drop k qs) = map qid qs"
    by (simp add: o_def flip: take_map drop_map)
  then have "distinct (map qid (drained k qs))"
    using assms unfolding drained_def unspent_def queue_ok_def by (metis distinct_map_filter)
  moreover have "\<forall>q \<in> set (drained k qs). q_sentCount q < 3"
    by (auto simp: drained_def unspent_def)
  ultimately show ?thesis by (simp add: queue_ok_def)
qed

section \<open>Rounds\<close>

fun drain_rounds :: "nat \<Rightarrow> Membership \<Rightarrow> MembershipUpdate list list \<times> Membership" where
  "drain_rounds 0 m = ([], m)"
| "drain_rounds (Suc n) m =
     (case drainUpdates m of (m', us) \<Rightarrow> case drain_rounds n m' of (uss, m'') \<Rightarrow> (us # uss, m''))"

lemma drained_append:
  "length p \<le> 10 \<Longrightarrow> drained 10 (p @ r) = unspent (map bump p) @ drained (10 - length p) r"
  by (simp add: drained_def unspent_def)

lemma length_drained: "length (drained k qs) \<le> length qs"
  unfolding drained_def unspent_def by (rule order_trans [OF length_filter_le]) simp

lemma unspent_bump_len: "length (unspent (map bump p)) \<le> length p"
  unfolding unspent_def by (rule order_trans [OF length_filter_le]) simp

lemma three_drains: "length (drained 10 (drained 10 (drained 10 qs))) \<le> length qs - 10"
proof -
  let ?p = "take 10 qs" and ?r = "drop 10 qs"
  let ?b = "\<lambda>p. unspent (map bump p)"
  have gone: "?b (?b (?b p)) = []" for p
    by (auto simp: unspent_def filter_empty_conv)
  let ?r1 = "drained (10 - length ?p) ?r"
  have len: "length ?p \<le> 10" "length (?b ?p) \<le> 10" "length (?b (?b ?p)) \<le> 10"
    using unspent_bump_len [of ?p] unspent_bump_len [of "?b ?p"] by simp_all
  have "drained 10 qs = ?b ?p @ ?r1"
    using drained_append [OF len(1), of ?r] by simp
  then have "drained 10 (drained 10 qs) = ?b (?b ?p) @ drained (10 - length (?b ?p)) ?r1"
    using drained_append [OF len(2)] by simp
  then have "drained 10 (drained 10 (drained 10 qs)) =
      ?b (?b (?b ?p)) @ drained (10 - length (?b (?b ?p))) (drained (10 - length (?b ?p)) ?r1)"
    using drained_append [OF len(3)] by simp
  then have "length (drained 10 (drained 10 (drained 10 qs))) \<le> length ?r"
    unfolding gone using length_drained by (metis append_Nil order_trans)
  then show ?thesis by simp
qed

lemma drain_rounds_queue:
  "m_updateQueue (snd (drain_rounds n m)) = (drained 10 ^^ n) (m_updateQueue m)"
  by (induction n arbitrary: m) (simp_all add: drainUpdates_eq split_beta funpow_swap1)

lemma drains_empty: "length qs \<le> 10 * k \<Longrightarrow> (drained 10 ^^ (3 * k)) qs = []"
proof (induction k arbitrary: qs)
  case (Suc k)
  have "(drained 10 ^^ (3 * Suc k)) qs = (drained 10 ^^ (3 * k)) (drained 10 (drained 10 (drained 10 qs)))"
    by (simp add: numeral_3_eq_3 funpow_swap1)
  moreover have "length (drained 10 (drained 10 (drained 10 qs))) \<le> 10 * k"
    using three_drains [of qs] Suc.prems by simp
  ultimately show ?case using Suc.IH by simp
qed simp

lemma drained_mem:
  "bump x \<in> set (drained k qs)" if "x \<in> set (take k qs)" "q_sentCount x < 2"
  using that by (simp add: drained_def unspent_def)

lemma drained_keep: "x \<in> set (drop k qs) \<Longrightarrow> q_sentCount x < 3 \<Longrightarrow> x \<in> set (drained k qs)"
  by (simp add: drained_def unspent_def)

lemma drained_origin:
  "z \<in> set (drained k qs) \<Longrightarrow>
     (\<exists>y. y \<in> set (take k qs) \<and> z = bump y \<and> q_sentCount y < 2) \<or> z \<in> set (drop k qs)"
  by (auto simp: drained_def unspent_def)

lemma drain_rounds_unsent:
  "u_NodeID u \<notin> qid ` set (m_updateQueue m) \<Longrightarrow> u \<notin> set (concat (fst (drain_rounds n m)))"
proof (induction n arbitrary: m)
  case (Suc n)
  let ?m = "m\<lparr>m_updateQueue := drained 10 (m_updateQueue m)\<rparr>"
  have "u_NodeID u \<notin> qid ` set (m_updateQueue ?m)"
    using Suc.prems drained_ids [of 10 "m_updateQueue m"] by auto
  moreover have "u \<notin> set (map q_update (take 10 (m_updateQueue m)))"
    using Suc.prems by (auto simp: qid_def dest!: in_set_takeD)
  ultimately show ?case using Suc.IH [of ?m] by (simp add: drainUpdates_eq split_beta)
qed simp

lemma count_list_distinct: "distinct xs \<Longrightarrow> count_list xs x = (if x \<in> set xs then 1 else 0)"
  by (induction xs) auto

lemma count_take:
  assumes "distinct (map qid qs)" "x \<in> set qs"
  shows "count_list (map q_update (take k qs)) (q_update x) = (if x \<in> set (take k qs) then 1 else 0)"
proof -
  have inj: "y = x" if "y \<in> set qs" "q_update y = q_update x" for y
    using assms that by (auto simp: distinct_map inj_on_def qid_def)
  have "distinct (map q_update (take k qs))"
  proof -
    have "u_NodeID \<circ> q_update = qid" by (auto simp: qid_def)
    moreover have "distinct (map qid (take k qs))" using assms(1) by (simp flip: take_map)
    ultimately have "distinct (map (u_NodeID \<circ> q_update) (take k qs))" by simp
    then show ?thesis by (simp add: distinct_map) (auto simp: inj_on_def)
  qed
  moreover have "q_update x \<in> set (map q_update (take k qs)) \<longleftrightarrow> x \<in> set (take k qs)"
    using inj by (auto simp: image_iff) (metis in_set_takeD)
  ultimately show ?thesis by (simp add: count_list_distinct)
qed

lemma drain_rounds_count:
  assumes "queue_ok (m_updateQueue m)" "x \<in> set (m_updateQueue m)" "m_updateQueue (snd (drain_rounds n m)) = []"
  shows "count_list (concat (fst (drain_rounds n m))) (q_update x) = 3 - q_sentCount x"
  using assms
proof (induction n arbitrary: m x)
  case 0
  then show ?case by simp
next
  case (Suc n)
  let ?qs = "m_updateQueue m" and ?m = "m\<lparr>m_updateQueue := drained 10 (m_updateQueue m)\<rparr>"
  let ?rest = "count_list (concat (fst (drain_rounds n ?m))) (q_update x)"
  have ok: "queue_ok (m_updateQueue ?m)" using drained_ok [OF Suc.prems(1)] by simp
  have empty: "m_updateQueue (snd (drain_rounds n ?m)) = []"
    using Suc.prems(3) by (simp add: drainUpdates_eq split_beta)
  have dist: "distinct (map qid ?qs)" and small: "q_sentCount x < 3"
    using Suc.prems(1,2) by (simp_all add: queue_ok_def)
  have total: "count_list (concat (fst (drain_rounds (Suc n) m))) (q_update x) =
      (if x \<in> set (take 10 ?qs) then 1 else 0) + ?rest"
    using count_take [OF dist Suc.prems(2), of 10] by (simp add: drainUpdates_eq split_beta)
  show ?case
  proof (cases "x \<in> set (take 10 ?qs)")
    case True
    show ?thesis
    proof (cases "q_sentCount x < 2")
      case True
      with \<open>x \<in> set (take 10 ?qs)\<close> have "bump x \<in> set (m_updateQueue ?m)" by (simp add: drained_mem)
      from Suc.IH [OF ok this empty] \<open>x \<in> set (take 10 ?qs)\<close> True total show ?thesis by simp
    next
      case False
      have "qid x \<notin> qid ` set (m_updateQueue ?m)"
      proof
        assume "qid x \<in> qid ` set (m_updateQueue ?m)"
        then obtain z where z: "z \<in> set (drained 10 ?qs)" "qid z = qid x" by auto
        have one: "y = x" if "y \<in> set ?qs" "qid y = qid x" for y
          using dist Suc.prems(2) that by (auto simp: distinct_map inj_on_def)
        from drained_origin [OF z(1)] show False
        proof (elim disjE exE conjE)
          fix y assume "y \<in> set (take 10 ?qs)" "z = bump y" "q_sentCount y < 2"
          with one [of y] z(2) False show False by (auto dest: in_set_takeD)
        next
          assume "z \<in> set (drop 10 ?qs)"
          moreover from this one [of z] z(2) have "z = x" by (auto dest: in_set_dropD)
          moreover have "set (take 10 ?qs) \<inter> set (drop 10 ?qs) = {}"
            using dist by (metis distinct_append append_take_drop_id distinct_map)
          ultimately show False using \<open>x \<in> set (take 10 ?qs)\<close> by blast
        qed
      qed
      then have "q_update x \<notin> set (concat (fst (drain_rounds n ?m)))"
        by (intro drain_rounds_unsent) (simp add: qid_def)
      then have "?rest = 0" by (simp add: count_list_0_iff)
      with total \<open>x \<in> set (take 10 ?qs)\<close> False small show ?thesis by simp
    qed
  next
    case False
    then have "x \<in> set (drop 10 ?qs)" using Suc.prems(2) by (metis Un_iff append_take_drop_id set_append)
    then have "x \<in> set (m_updateQueue ?m)" using small by (simp add: drained_keep)
    from Suc.IH [OF ok this empty] False total show ?thesis by simp
  qed
qed

text \<open>
  Dissemination is complete and bounded: with nothing added in between, \<open>n\<close> queued
  updates are gone after three drains for every ten of them, each message carries at most ten
  updates, and every fresh update has been sent exactly three times.
\<close>

theorem drain_sends_three_times:
  assumes "queue_ok (m_updateQueue m)" "length (m_updateQueue m) \<le> 10 * k"
  shows "m_updateQueue (snd (drain_rounds (3 * k) m)) = [] \<and>
    (\<forall>us \<in> set (fst (drain_rounds n m)). length us \<le> maxPiggybackUpdates) \<and>
    (\<forall>q \<in> set (m_updateQueue m). q_sentCount q = 0 \<longrightarrow>
       count_list (concat (fst (drain_rounds (3 * k) m))) (q_update q) = 3)"
proof -
  have "\<forall>us \<in> set (fst (drain_rounds n m)). length us \<le> 10"
    by (induction n arbitrary: m) (auto simp: drainUpdates_eq split_beta)
  moreover have "m_updateQueue (snd (drain_rounds (3 * k) m)) = []"
    using drains_empty [OF assms(2)] by (simp add: drain_rounds_queue)
  ultimately show ?thesis
    using drain_rounds_count [OF assms(1)] by (simp add: maxPiggybackUpdates_def)
qed

theorem drain_sends_three_times_witness:
  "count_list (concat (fst (drain_rounds 3 (queueUpdate (NewMembership (NewNodeInfo ''a'' [] [] [] 0) (NewNodeRegistry ''a''))
      (status_update ''b'' StatusDead 4))))) (status_update ''b'' StatusDead 4) = 3"
  using drain_sends_three_times [of "queueUpdate (NewMembership (NewNodeInfo ''a'' [] [] [] 0) (NewNodeRegistry ''a''))
      (status_update ''b'' StatusDead 4)" 1 0]
  by (simp add: queueUpdate_def NewMembership_def queue_ok_def)

end
