(* ===== verification/Swim.thy ===== *)
theory Swim
  imports Gossip
begin

text \<open>
  The protocol loops of \<open>membership.go\<close> as a step relation. A node has two goroutines that
  wait: \<open>pingLoop\<close>, inside \<open>pingRandomMember\<close>, and \<open>receiveLoop\<close>, inside \<open>handlePingReq\<close>.
  \<open>sw_ping\<close> and \<open>sw_recv\<close> say where each of them is; a step is what a goroutine does up to
  its next wait, an alarm of a suspicion timer, the \<open>markDead\<close> that an alarm started, a
  change of the injected faults, or a part of \<open>Stop\<close>: the announcement with the stop signal,
  and, once both loops have returned (\<open>sw_done\<close>), the cancelling of the timers. A wait may time out at any moment, and ends with an ack only
  when its channel has been closed.
\<close>

section \<open>The loops\<close>

datatype ping_pc = PingIdle | PingDirect NodeInfo nat | PingIndirect NodeInfo nat

datatype recv_pc = RecvIdle | RecvReq string NodeInfo nat string

record Swim =
  sw_m :: Membership
  sw_ping :: ping_pc
  sw_recv :: recv_pc
  sw_stopped :: bool
  sw_done :: bool

definition ping_candidates :: "reg_order \<Rightarrow> Membership \<Rightarrow> NodeInfo list" where
  "ping_candidates rng m =
     filter (\<lambda>node. n_ID node \<noteq> m_selfID m \<and> (GetStatus node = StatusAlive \<or> GetStatus node = StatusSuspect))
       (GetAll rng (m_registry m))"

record ping_env =
  pe_rng :: reg_order
  pe_rng2 :: reg_order
  pe_Intn :: "nat \<Rightarrow> nat"
  pe_shuffle :: "NodeInfo list \<Rightarrow> NodeInfo list"
  pe_resolve :: "string \<Rightarrow> string option"

definition ping_indirect :: "ping_env \<Rightarrow> Membership \<Rightarrow> NodeInfo \<Rightarrow> Membership \<times> ping_pc" where
  "ping_indirect env m target =
     (case send_reqs (pe_rng2 env) (pe_shuffle env) (pe_resolve env) m target of
        (m', None) \<Rightarrow> (markSuspect m' (n_ID target), PingIdle)
      | (m', Some ch) \<Rightarrow> (m', PingIndirect target ch))"

definition ping_direct :: "ping_env \<Rightarrow> Membership \<Rightarrow> NodeInfo \<Rightarrow> Membership \<times> ping_pc" where
  "ping_direct env m target =
     (case send_ping (pe_resolve env) m (n_GossipAddr target) (n_ID target) of
        (m', None) \<Rightarrow> ping_indirect env m' target
      | (m', Some ch) \<Rightarrow> (m', PingDirect target ch))"

definition pingRandomMember :: "ping_env \<Rightarrow> Membership \<Rightarrow> Membership \<times> ping_pc" where
  "pingRandomMember env m =
     (let candidates = ping_candidates (pe_rng env) m in
      if length candidates = 0 then (m, PingIdle)
      else ping_direct env m (candidates ! pe_Intn env (length candidates)))"

definition env_inv :: "ping_env \<Rightarrow> bool" where
  "env_inv env \<longleftrightarrow> range_order (pe_rng env) \<and> range_order (pe_rng2 env) \<and> range_order (pe_shuffle env) \<and>
     (\<forall>n > 0. pe_Intn env n < n)"

definition receive :: "reg_order \<Rightarrow> (string \<Rightarrow> string option) \<Rightarrow> Membership \<Rightarrow> SwimMessage \<Rightarrow> string \<Rightarrow>
    (nat \<Rightarrow> instant) \<Rightarrow> Membership \<times> recv_pc" where
  "receive rng resolve m msg from' clk =
     (if isBlocked m (s_SenderID msg) then (m, RecvIdle)
      else case handleMessage rng resolve m msg from' clk of
          (m', None) \<Rightarrow> (m', RecvIdle)
        | (m', Some (info, ch)) \<Rightarrow> (m', RecvReq (s_TargetID msg) info ch from'))"

definition fire_timer :: "nat \<Rightarrow> string \<Rightarrow> Membership \<Rightarrow> Membership" where
  "fire_timer t node m = m\<lparr>m_armed := remove1 (t, node) (m_armed m), m_fired := m_fired m @ [node]\<rparr>"

definition run_markDead :: "string \<Rightarrow> Membership \<Rightarrow> Membership" where
  "run_markDead node m = markDead (m\<lparr>m_fired := remove1 node (m_fired m)\<rparr>) node"

text \<open>\<open>sent\<close> says which packets can arrive at the node's socket.\<close>

inductive swim_move :: "(SwimMessage \<Rightarrow> bool) \<Rightarrow> Swim \<Rightarrow> Swim \<Rightarrow> bool" for sent where
  ping_tick: "sw_ping s = PingIdle \<Longrightarrow> \<not> sw_done s \<Longrightarrow> env_inv env \<Longrightarrow> pingRandomMember env (sw_m s) = (m, pc) \<Longrightarrow>
    swim_move sent s (s\<lparr>sw_m := m, sw_ping := pc\<rparr>)"
| direct_ack: "sw_ping s = PingDirect target ch \<Longrightarrow> ch \<in> set (m_closed (sw_m s)) \<Longrightarrow>
    swim_move sent s (s\<lparr>sw_ping := PingIdle\<rparr>)"
| direct_timeout: "sw_ping s = PingDirect target ch \<Longrightarrow> env_inv env \<Longrightarrow>
    ping_indirect env (ping_timeout (sw_m s) (n_ID target)) target = (m, pc) \<Longrightarrow>
    swim_move sent s (s\<lparr>sw_m := m, sw_ping := pc\<rparr>)"
| direct_stop: "sw_ping s = PingDirect target ch \<Longrightarrow> sw_stopped s \<Longrightarrow> env_inv env \<Longrightarrow>
    ping_indirect env (sw_m s) target = (m, pc) \<Longrightarrow> swim_move sent s (s\<lparr>sw_m := m, sw_ping := pc\<rparr>)"
| indirect_ack: "sw_ping s = PingIndirect target ch \<Longrightarrow> ch \<in> set (m_closed (sw_m s)) \<Longrightarrow>
    swim_move sent s (s\<lparr>sw_ping := PingIdle\<rparr>)"
| indirect_timeout: "sw_ping s = PingIndirect target ch \<Longrightarrow>
    swim_move sent s (s\<lparr>sw_m := markSuspect (ping_timeout (sw_m s) (n_ID target)) (n_ID target), sw_ping := PingIdle\<rparr>)"
| indirect_stop: "sw_ping s = PingIndirect target ch \<Longrightarrow> sw_stopped s \<Longrightarrow>
    swim_move sent s (s\<lparr>sw_m := markSuspect (sw_m s) (n_ID target), sw_ping := PingIdle\<rparr>)"
| recv_msg: "sw_recv s = RecvIdle \<Longrightarrow> \<not> sw_done s \<Longrightarrow> receive rng resolve (sw_m s) msg from' clk = (m, pc) \<Longrightarrow>
    sent msg \<Longrightarrow> range_order rng \<Longrightarrow> swim_move sent s (s\<lparr>sw_m := m, sw_recv := pc\<rparr>)"
| req_ack: "sw_recv s = RecvReq target info ch from' \<Longrightarrow> ch \<in> set (m_closed (sw_m s)) \<Longrightarrow>
    swim_move sent s (s\<lparr>sw_m := relay_ack (sw_m s) target info from', sw_recv := RecvIdle\<rparr>)"
| req_timeout: "sw_recv s = RecvReq target info ch from' \<Longrightarrow>
    swim_move sent s (s\<lparr>sw_m := ping_timeout (sw_m s) target, sw_recv := RecvIdle\<rparr>)"
| req_stop: "sw_recv s = RecvReq target info ch from' \<Longrightarrow> sw_stopped s \<Longrightarrow>
    swim_move sent s (s\<lparr>sw_recv := RecvIdle\<rparr>)"
| timer_fires: "(t, node) \<in> set (m_armed (sw_m s)) \<Longrightarrow>
    swim_move sent s (s\<lparr>sw_m := fire_timer t node (sw_m s)\<rparr>)"
| dead_runs: "node \<in> set (m_fired (sw_m s)) \<Longrightarrow>
    swim_move sent s (s\<lparr>sw_m := run_markDead node (sw_m s)\<rparr>)"
| faults: "swim_move sent s (s\<lparr>sw_m := SetFaultInjector (sw_m s) fi\<rparr>)"
| on_event: "swim_move sent s (s\<lparr>sw_m := SetOnEvent (sw_m s)\<rparr>)"
| stop: "\<not> sw_stopped s \<Longrightarrow> swim_move sent s (s\<lparr>sw_m := swim_Stop (sw_m s), sw_stopped := True\<rparr>)"
| shutdown: "sw_stopped s \<Longrightarrow> sw_ping s = PingIdle \<Longrightarrow> sw_recv s = RecvIdle \<Longrightarrow>
    swim_move sent s (s\<lparr>sw_m := stop_timers (sw_m s), sw_done := True\<rparr>)"
| join: "JoinCluster resolve written (sw_m s) seeds = (m, ok) \<Longrightarrow> swim_move sent s (s\<lparr>sw_m := m\<rparr>)"

text \<open>A node in any surroundings: the packet it reads may be any packet.\<close>

abbreviation swim_step :: "Swim \<Rightarrow> Swim \<Rightarrow> bool" where
  "swim_step \<equiv> swim_move (\<lambda>_. True)"

inductive_cases swim_stepE: "swim_step s s'"

text \<open>The node as \<open>main.go\<close> starts it, with a fault injector and a callback set before \<open>Start\<close>.\<close>

definition swim_init :: "NodeInfo \<Rightarrow> Swim" where
  "swim_init self =
     \<lparr>sw_m = the (swim_Start (SetOnEvent (SetFaultInjector (NewMembership self (NewNodeRegistry (n_ID self)))
        (Some NewFaultInjector))) True),
      sw_ping = PingIdle, sw_recv = RecvIdle, sw_stopped = False, sw_done = False\<rparr>"

inductive swim_reach :: "NodeInfo \<Rightarrow> Swim \<Rightarrow> bool" for self where
  reach_init: "swim_reach self (swim_init self)"
| reach_step: "swim_reach self s \<Longrightarrow> swim_step s s' \<Longrightarrow> swim_reach self s'"

section \<open>Invariant\<close>

definition timed :: "Membership \<Rightarrow> string \<Rightarrow> bool" where
  "timed m n \<longleftrightarrow> n \<in> snd ` set (m_armed m) \<or> n \<in> set (m_fired m)"

definition suspect :: "Membership \<Rightarrow> string \<Rightarrow> bool" where
  "suspect m n \<longleftrightarrow> map_option n_Status (reg_Get (m_registry m) n) = Some StatusSuspect"

definition timers_ok :: "Membership \<Rightarrow> bool" where
  "timers_ok m \<longleftrightarrow>
     (\<forall>t n. (t, n) \<in> set (m_armed m) \<longrightarrow> gm_get (m_timers m) n = Some t) \<and>
     (\<forall>n t. gm_get (m_timers m) n = Some t \<longrightarrow> t < m_nextTimer m) \<and>
     (\<forall>n n' t. gm_get (m_timers m) n = Some t \<longrightarrow> gm_get (m_timers m) n' = Some t \<longrightarrow> n = n') \<and>
     distinct (m_armed m)"

definition chans_ok :: "Membership \<Rightarrow> bool" where
  "chans_ok m \<longleftrightarrow>
     (\<forall>k ch. gm_get (m_pendingAcks m) k = Some ch \<longrightarrow> ch < m_nextChan m \<and> ch \<notin> set (m_closed m)) \<and>
     (\<forall>k k' ch. gm_get (m_pendingAcks m) k = Some ch \<longrightarrow> gm_get (m_pendingAcks m) k' = Some ch \<longrightarrow> k = k') \<and>
     (\<forall>ch \<in> set (m_closed m). ch < m_nextChan m)"

text \<open>\<open>m_inv_on S\<close> is the invariant with the nodes in \<open>S\<close> exempt from having a suspicion timer.\<close>

definition m_inv_on :: "string set \<Rightarrow> Membership \<Rightarrow> bool" where
  "m_inv_on S m \<longleftrightarrow> reg_inv (m_registry m) \<and> queue_ok (m_updateQueue m) \<and> timers_ok m \<and> chans_ok m \<and>
     (\<forall>n. n \<notin> S \<longrightarrow> suspect m n \<longrightarrow> timed m n)"

lemmas m_inv_defs = m_inv_on_def timers_ok_def chans_ok_def suspect_def timed_def

lemma m_inv_frame [simp]:
  "m_inv_on S (m\<lparr>m_events := a\<rparr>) = m_inv_on S m" "m_inv_on S (m\<lparr>m_out := b\<rparr>) = m_inv_on S m"
  "m_inv_on S (m\<lparr>m_injector := c\<rparr>) = m_inv_on S m" "m_inv_on S (m\<lparr>m_onEvent := d\<rparr>) = m_inv_on S m"
  "m_inv_on S (m\<lparr>m_incarnation := e\<rparr>) = m_inv_on S m" "m_inv_on S (m\<lparr>m_selfInfo := f\<rparr>) = m_inv_on S m"
  by (simp_all add: m_inv_defs)

lemma m_inv_emit [simp]: "m_inv_on S (swim_emit m ev) = m_inv_on S m"
  by (simp add: swim_emit_def)

lemma m_inv_write [simp]: "m_inv_on S (WriteToUDP m msg a) = m_inv_on S m"
  by (simp add: WriteToUDP_def)

lemma m_inv_queue:
  assumes "m_inv_on S m"
  shows "m_inv_on S (queueUpdate m u)" "m_inv_on S (queueUpdateLocked m u)" "m_inv_on S (fst (drainUpdates m))"
  using assms
  by (simp_all add: queueUpdate_def queueUpdateLocked_def drainUpdates_eq m_inv_defs queue_add_ok drained_ok)

lemma suspect_simps [simp]:
  "suspect (swim_emit m ev) n = suspect m n" "suspect (queueUpdate m u) n = suspect m n"
  "suspect (queueUpdateLocked m u) n = suspect m n" "suspect (cancel_timer m k) n = suspect m n"
  "suspect (start_timer m k) n = suspect m n"
  "suspect (set_status m k st) n = (if n = k then reg_Get (m_registry m) k \<noteq> None \<and> st = StatusSuspect else suspect m n)"
  by (auto simp: suspect_def swim_emit_def queueUpdate_def queueUpdateLocked_def cancel_timer_def
      timer_Stop_def start_timer_def set_status_def SetStatus_def Let_def split: option.splits)

lemma m_inv_mutate:
  assumes "m_inv_on S m" "\<And>x. n_ID (f x) = n_ID x"
  shows "m_inv_on (insert n S) (m\<lparr>m_registry := reg_mutate n f (m_registry m)\<rparr>)"
  using assms by (auto simp: m_inv_defs reg_mutate_inv)

lemma m_inv_set_status: "m_inv_on S m \<Longrightarrow> m_inv_on (insert n S) (set_status m n st)"
  unfolding set_status_def by (rule m_inv_mutate) (simp_all add: SetStatus_def)

lemma m_inv_drop: "m_inv_on (insert n S) m \<Longrightarrow> suspect m n \<longrightarrow> timed m n \<Longrightarrow> m_inv_on S m"
  by (auto simp: m_inv_on_def)

lemma start_timer_armed:
  "m_armed (start_timer m n) =
     filter (\<lambda>(t, _). gm_get (m_timers m) n \<noteq> Some t) (m_armed m) @ [(m_nextTimer m, n)]"
  by (auto simp: start_timer_def timer_Stop_def Let_def split: option.splits intro!: filter_cong)

lemma start_timer_fields [simp]:
  "m_timers (start_timer m n) = gm_put n (m_nextTimer m) (m_timers m)"
  "m_nextTimer (start_timer m n) = Suc (m_nextTimer m)" "m_fired (start_timer m n) = m_fired m"
  "m_registry (start_timer m n) = m_registry m" "m_updateQueue (start_timer m n) = m_updateQueue m"
  "m_pendingAcks (start_timer m n) = m_pendingAcks m" "m_nextChan (start_timer m n) = m_nextChan m"
  "m_closed (start_timer m n) = m_closed m" "m_selfID (start_timer m n) = m_selfID m"
  by (simp_all add: start_timer_def timer_Stop_def Let_def split: option.splits)

lemma start_timer_ok: "timers_ok m \<Longrightarrow> timers_ok (start_timer m n)"
proof -
  assume ok: "timers_ok m"
  then have "gm_get (m_timers m) k = Some t" "t < m_nextTimer m" if "(t, k) \<in> set (m_armed m)" for t k
    using that unfolding timers_ok_def by blast+
  with ok show ?thesis
    unfolding timers_ok_def start_timer_armed start_timer_fields by (auto split: if_splits intro: less_SucI)
qed

lemma start_timer_inv:
  assumes "m_inv_on (insert n S) m"
  shows "m_inv_on S (start_timer m n)"
proof -
  have old: "gm_get (m_timers m) k = Some t" "t < m_nextTimer m" if "(t, k) \<in> set (m_armed m)" for t k
    using assms that by (auto simp: m_inv_defs)
  have "timed (start_timer m n) k" if "timed m k \<or> k = n" for k
    using that old assms unfolding timed_def start_timer_armed start_timer_fields m_inv_on_def timers_ok_def
    by (auto simp: image_iff)
  then show ?thesis using assms start_timer_ok [of m n]
    unfolding m_inv_on_def chans_ok_def suspect_def start_timer_fields by (metis insert_iff)
qed

lemma timers_ok_frame [simp]:
  "timers_ok (swim_emit m ev) = timers_ok m" "timers_ok (queueUpdateLocked m u) = timers_ok m"
  "timers_ok (set_status m k st) = timers_ok m" "timers_ok (m\<lparr>m_registry := r\<rparr>) = timers_ok m"
  by (simp_all add: timers_ok_def swim_emit_def queueUpdateLocked_def set_status_def)

lemma registry_simps [simp]:
  "m_registry (swim_emit m ev) = m_registry m" "m_registry (cancel_timer m k) = m_registry m"
  "m_armed (swim_emit m ev) = m_armed m"
  by (simp_all add: swim_emit_def cancel_timer_def timer_Stop_def split: option.splits)

lemma cancel_timer_disarms: "timers_ok m \<Longrightarrow> n \<notin> snd ` set (m_armed (cancel_timer m n))"
  by (auto simp: cancel_timer_def timer_Stop_def timers_ok_def split: option.splits)

lemma cancel_timer_inv:
  assumes "m_inv_on (insert n S) m" "\<not> suspect m n"
  shows "m_inv_on S (cancel_timer m n)"
proof (cases "gm_get (m_timers m) n")
  case None
  with assms show ?thesis by (simp add: cancel_timer_def m_inv_drop)
next
  case (Some t)
  let ?m = "cancel_timer m n"
  have armed: "m_armed ?m = filter (\<lambda>(t', _). t' \<noteq> t) (m_armed m)"
    and rest: "m_timers ?m = gm_del n (m_timers m)" "m_nextTimer ?m = m_nextTimer m"
    "m_fired ?m = m_fired m" "m_registry ?m = m_registry m" "m_updateQueue ?m = m_updateQueue m"
    "m_pendingAcks ?m = m_pendingAcks m" "m_nextChan ?m = m_nextChan m" "m_closed ?m = m_closed m"
    using Some by (simp_all add: cancel_timer_def timer_Stop_def)
  have ok: "timers_ok m" using assms(1) by (simp add: m_inv_on_def)
  then have "timers_ok ?m" using Some unfolding timers_ok_def armed rest by (auto split: if_splits)
  moreover have "timed ?m k" if "k \<notin> S" "suspect m k" for k
  proof -
    have "timed m k" "k \<noteq> n" using that assms by (auto simp: m_inv_on_def)
    then show ?thesis
      using ok Some unfolding timed_def armed rest timers_ok_def by (force simp: image_iff)
  qed
  ultimately show ?thesis using assms by (auto simp: m_inv_on_def rest chans_ok_def)
qed

section \<open>Every step keeps the invariant\<close>

lemma markSuspect_inv: "m_inv_on S m \<Longrightarrow> m_inv_on S (markSuspect m n)"
  by (auto simp: markSuspect_def Let_def m_inv_queue m_inv_set_status
      intro!: start_timer_inv split: option.splits)

lemma markDead_inv: "m_inv_on S m \<Longrightarrow> m_inv_on S (markDead m n)"
  by (auto simp: markDead_def Let_def intro!: m_inv_queue cancel_timer_inv m_inv_set_status split: option.splits)

lemma markSuspectLocked_inv: "m_inv_on S m \<Longrightarrow> m_inv_on S (markSuspectLocked m n)"
  by (simp add: markSuspectLocked_def start_timer_inv m_inv_set_status)

lemma refute_inv: "m_inv_on S m \<Longrightarrow> m_inv_on S (refute m u)"
  by (simp add: refute_def Let_def m_inv_queue)

lemma apply_new_inv:
  assumes "m_inv_on S m" "reg_Get (m_registry m) (u_NodeID u) = None"
  shows "m_inv_on S (apply_new m u now)"
proof -
  let ?n = "(NewNodeInfo (u_NodeID u) (u_GRPCAddr u) (u_GossipAddr u) (u_HTTPAddr u) now)\<lparr>n_Incarnation := u_Incarnation u\<rparr>"
  have "m_inv_on S (m\<lparr>m_registry := reg_Register (m_registry m) ?n\<rparr>)"
    using assms by (auto simp: m_inv_defs reg_Register_inv NewNodeInfo_def)
  with assms(1) show ?thesis by (simp add: apply_new_def Let_def m_inv_queue)
qed

lemma apply_known_inv:
  assumes "m_inv_on S m"
  shows "m_inv_on S (apply_known m u existing now)"
proof -
  let ?f = "\<lambda>n. Touch now ((SetStatus StatusAlive n)\<lparr>n_Incarnation := u_Incarnation u\<rparr>)"
  let ?m = "m\<lparr>m_registry := reg_mutate (u_NodeID u) ?f (m_registry m)\<rparr>"
  have "m_inv_on (insert (u_NodeID u) S) ?m"
    using assms by (rule m_inv_mutate) (simp add: Touch_def SetStatus_def)
  moreover have "\<not> suspect ?m (u_NodeID u)"
    by (auto simp: suspect_def Touch_def SetStatus_def)
  ultimately have alive: "m_inv_on S (cancel_timer ?m (u_NodeID u))" by (rule cancel_timer_inv)
  have "m_inv_on S (cancel_timer (set_status m (u_NodeID u) StatusDead) (u_NodeID u))"
    by (intro cancel_timer_inv m_inv_set_status assms) simp
  moreover have "m_inv_on S (set_status m (u_NodeID u) StatusLeft)"
    by (rule m_inv_drop [OF m_inv_set_status [OF assms]]) simp
  ultimately show ?thesis
    using assms alive by (simp add: apply_known_def Let_def markSuspectLocked_inv split: NodeStatus.splits)
qed

lemma applyUpdate_inv: "m_inv_on S m \<Longrightarrow> m_inv_on S (applyUpdate m u now)"
  by (simp add: applyUpdate_def refute_inv apply_new_inv apply_known_inv split: option.splits)

lemma apply_updates_inv: "m_inv_on S m \<Longrightarrow> m_inv_on S (apply_updates m us clk)"
  by (induction m us clk rule: apply_updates.induct) (simp_all add: applyUpdate_inv)

lemma handleAck_inv:
  assumes "m_inv_on S m"
  shows "m_inv_on S (handleAck m msg now)"
proof -
  let ?k = "s_SenderID msg"
  define m' where "m' = (case gm_get (m_pendingAcks m) ?k of None \<Rightarrow> m
    | Some ch \<Rightarrow> m\<lparr>m_closed := ch # m_closed m, m_pendingAcks := gm_del ?k (m_pendingAcks m)\<rparr>)"
  have "m_inv_on S m'"
    using assms unfolding m'_def by (auto simp: m_inv_defs split: option.splits if_splits)
  moreover have "suspect (m'\<lparr>m_registry := reg_mutate ?k (Touch now) (m_registry m')\<rparr>) n = suspect m' n" for n
    by (auto simp: suspect_def Touch_def)
  ultimately have "m_inv_on S (m'\<lparr>m_registry := reg_mutate ?k (Touch now) (m_registry m')\<rparr>)"
    by (auto simp: m_inv_on_def timers_ok_def chans_ok_def timed_def reg_mutate_inv Touch_def)
  then show ?thesis by (simp add: handleAck_def m'_def Let_def)
qed

lemma new_chan_inv:
  "m_inv_on S m \<Longrightarrow> m_inv_on S (m\<lparr>m_nextChan := Suc (m_nextChan m), m_pendingAcks := gm_put k (m_nextChan m) (m_pendingAcks m)\<rparr>)"
  by (auto simp: m_inv_defs less_SucI)

lemma ping_timeout_inv: "m_inv_on S m \<Longrightarrow> m_inv_on S (ping_timeout m k)"
  by (auto simp: ping_timeout_def m_inv_defs split: if_splits)

lemma send_ping_inv: "m_inv_on S m \<Longrightarrow> m_inv_on S (fst (send_ping resolve m addr k))"
  using m_inv_queue(3) [OF new_chan_inv [of S m k]]
  by (auto simp: send_ping_def Let_def split: option.splits prod.splits)

lemma send_req_inv: "m_inv_on S m \<Longrightarrow> m_inv_on S (send_req resolve k m proxy)"
  by (simp add: send_req_def split: option.splits)

lemma send_reqs_inv: "m_inv_on S m \<Longrightarrow> m_inv_on S (fst (send_reqs rng shuffle resolve m target))"
proof -
  assume inv: "m_inv_on S m"
  have "m_inv_on S (foldl (send_req resolve k) m' ps)" if "m_inv_on S m'" for k m' ps
    using that by (induction ps arbitrary: m') (simp_all add: send_req_inv)
  with inv show ?thesis by (simp add: send_reqs_def Let_def new_chan_inv)
qed

lemma handleMessage_inv: "m_inv_on S m \<Longrightarrow> m_inv_on S (fst (handleMessage rng resolve m msg from' clk))"
proof -
  assume "m_inv_on S m"
  then have inv: "m_inv_on S (apply_updates m (s_Updates msg) clk)" by (rule apply_updates_inv)
  from m_inv_queue(3) [OF this] send_ping_inv [OF this] handleAck_inv [OF this] inv show ?thesis
    by (auto simp: handleMessage_def Let_def swim_handlePing_def handleJoin_def handlePingReq_def
        split: MessageType.splits option.splits prod.splits) (metis fst_conv)+
qed

lemma ping_indirect_inv: "m_inv_on S m \<Longrightarrow> m_inv_on S (fst (ping_indirect env m target))"
  using send_reqs_inv [of S m "pe_rng2 env" "pe_shuffle env" "pe_resolve env" target]
  by (auto simp: ping_indirect_def markSuspect_inv split: prod.splits option.splits)

lemma pingRandomMember_inv: "m_inv_on S m \<Longrightarrow> m_inv_on S (fst (pingRandomMember env m))"
proof -
  assume inv: "m_inv_on S m"
  have "m_inv_on S (fst (ping_direct env m target))" for target
    using send_ping_inv [OF inv, of "pe_resolve env" "n_GossipAddr target" "n_ID target"]
      ping_indirect_inv [of S "fst (send_ping (pe_resolve env) m (n_GossipAddr target) (n_ID target))" env target]
    by (auto simp: ping_direct_def split: prod.splits option.splits)
  with inv show ?thesis by (simp add: pingRandomMember_def Let_def)
qed

section \<open>What handlers leave alone\<close>

definition out_ok :: "Membership \<Rightarrow> bool" where
  "out_ok m \<longleftrightarrow> (\<forall>(addr, msg) \<in> set (m_out m). s_SenderID msg = m_selfID m \<and>
     (s_Type msg = MsgPing \<longrightarrow> length (s_Updates msg) \<le> maxPiggybackUpdates))"

definition reg_grows :: "NodeRegistry \<Rightarrow> NodeRegistry \<Rightarrow> bool" where
  "reg_grows r r' \<longleftrightarrow> (\<forall>k n. reg_Get r k = Some n \<longrightarrow>
     (\<exists>n'. reg_Get r' k = Some n' \<and> n_Incarnation n \<le> n_Incarnation n'))"

definition evolves :: "Membership \<Rightarrow> Membership \<Rightarrow> bool" where
  "evolves m m' \<longleftrightarrow> m_selfID m' = m_selfID m \<and> m_nextChan m \<le> m_nextChan m' \<and>
     (out_ok m \<longrightarrow> out_ok m') \<and> reg_grows (m_registry m) (m_registry m')"

lemmas evolves_defs = evolves_def out_ok_def reg_grows_def

lemma reg_grows_refl [simp]: "reg_grows r r"
  by (simp add: reg_grows_def)

lemma evolves_refl [simp]: "evolves m m"
  by (simp add: evolves_def)

lemma reg_grows_trans: "reg_grows a b \<Longrightarrow> reg_grows b c \<Longrightarrow> reg_grows a c"
  unfolding reg_grows_def by (meson order_trans)

lemma evolves_trans: "evolves a b \<Longrightarrow> evolves b c \<Longrightarrow> evolves a c"
  by (auto simp: evolves_def intro: reg_grows_trans)

lemma reg_grows_mutate:
  "(\<And>n. reg_Get r k = Some n \<Longrightarrow> n_Incarnation n \<le> n_Incarnation (f n)) \<Longrightarrow> reg_grows r (reg_mutate k f r)"
  by (auto simp: reg_grows_def)

lemma reg_grows_Register: "reg_Get r (n_ID info) = None \<Longrightarrow> reg_grows r (reg_Register r info)"
  by (auto simp: reg_grows_def)

lemma evolves_registry:
  "evolves m (m\<lparr>m_registry := r\<rparr>) = reg_grows (m_registry m) r"
  by (auto simp: evolves_def out_ok_def)

lemma evolves_simps [simp]:
  "evolves m (swim_emit m' ev) = evolves m m'" "evolves m (queueUpdate m' u) = evolves m m'"
  "evolves m (queueUpdateLocked m' u) = evolves m m'" "evolves m (cancel_timer m' k) = evolves m m'"
  "evolves m (start_timer m' k) = evolves m m'" "evolves m (m'\<lparr>m_incarnation := i\<rparr>) = evolves m m'"
  "evolves m (fst (drainUpdates m')) = evolves m m'"
  by (simp_all add: evolves_defs swim_emit_def queueUpdate_def queueUpdateLocked_def cancel_timer_def
      timer_Stop_def start_timer_def drainUpdates_eq Let_def split: option.splits)

lemma evolves_set_status: "evolves m (set_status m k st)"
  by (simp add: set_status_def evolves_registry reg_grows_mutate SetStatus_def)

lemma evolves_write:
  "evolves m (WriteToUDP m (swim_msg m' ty t us) a)"
  if "m_selfID m' = m_selfID m" "length us \<le> maxPiggybackUpdates \<or> ty \<noteq> MsgPing"
  using that by (auto simp: evolves_defs WriteToUDP_def swim_msg_def)

lemma evolves_markSuspect: "evolves m (markSuspect m k)"
  by (simp add: markSuspect_def Let_def evolves_set_status split: option.splits)

lemma evolves_markDead: "evolves m (markDead m k)"
  by (simp add: markDead_def Let_def evolves_set_status split: option.splits)

lemma evolves_applyUpdate: "evolves m (applyUpdate m u now)"
proof -
  have "evolves m (apply_known m u n now)"
    if "reg_Get (m_registry m) (u_NodeID u) = Some n" "n_Incarnation n \<le> u_Incarnation u" for n
    using that evolves_set_status [of m]
    by (auto simp: apply_known_def Let_def markSuspectLocked_def evolves_registry Touch_def SetStatus_def
        intro!: reg_grows_mutate split: NodeStatus.splits)
  moreover have "evolves m (apply_new m u now)" if "reg_Get (m_registry m) (u_NodeID u) = None"
    using that by (simp add: apply_new_def Let_def evolves_registry reg_grows_Register NewNodeInfo_def)
  moreover have "evolves m (refute m u)" by (simp add: refute_def Let_def)
  ultimately show ?thesis by (simp add: applyUpdate_def not_less split: option.splits)
qed

lemma evolves_apply_updates: "evolves m (apply_updates m us clk)"
proof (induction m us clk rule: apply_updates.induct)
  case (2 m u us clk)
  show ?case unfolding apply_updates.simps by (rule evolves_trans [OF evolves_applyUpdate 2])
qed simp

lemma evolves_handleAck: "evolves m (handleAck m msg now)"
  by (auto simp: handleAck_def Let_def evolves_defs Touch_def split: option.splits)

lemma evolves_ping_timeout: "evolves m (ping_timeout m k)"
  by (simp add: ping_timeout_def evolves_defs)

lemma evolves_send_ping: "evolves m (fst (send_ping resolve m addr k))"
  by (auto simp: send_ping_def Let_def drainUpdates_eq evolves_defs WriteToUDP_def swim_msg_def
      maxPiggybackUpdates_def split: option.splits)

lemma evolves_send_reqs: "evolves m (fst (send_reqs rng shuffle resolve m target))"
proof -
  have "evolves m' (foldl (send_req resolve k) m' ps)" for k m' ps
  proof (induction ps arbitrary: m')
    case (Cons p ps)
    have "evolves m' (send_req resolve k m' p)"
      by (simp add: send_req_def evolves_write split: option.splits)
    with Cons show ?case by (auto intro: evolves_trans)
  qed simp
  moreover have "evolves m (m\<lparr>m_nextChan := Suc (m_nextChan m), m_pendingAcks := a\<rparr>)" for a
    by (simp add: evolves_defs)
  ultimately have "evolves m (foldl (send_req resolve k) (m\<lparr>m_nextChan := Suc (m_nextChan m), m_pendingAcks := a\<rparr>) ps)"
    for k ps a by (rule evolves_trans [rotated])
  then show ?thesis by (simp add: send_reqs_def Let_def)
qed

lemma evolves_handleMessage: "evolves m (fst (handleMessage rng resolve m msg from' clk))"
proof -
  let ?m = "apply_updates m (s_Updates msg) clk"
  have "evolves ?m (fst (case s_Type msg of
        MsgPing \<Rightarrow> (swim_handlePing ?m from', None) | MsgAck \<Rightarrow> (handleAck ?m msg (clk (length (s_Updates msg))), None)
      | MsgPingReq \<Rightarrow> handlePingReq resolve ?m msg | MsgJoin \<Rightarrow> (handleJoin rng ?m from', None) | MsgOther _ \<Rightarrow> (?m, None)))"
  proof (cases "s_Type msg")
    case MsgPing
    then show ?thesis
      by (auto simp: swim_handlePing_def drainUpdates_eq evolves_defs WriteToUDP_def swim_msg_def)
  next
    case MsgPingReq
    then show ?thesis
      using evolves_send_ping [of ?m resolve _ "s_TargetID msg"]
      by (auto simp: handlePingReq_def split: option.splits prod.splits) (metis fst_conv)+
  qed (simp_all add: evolves_handleAck handleJoin_def evolves_write)
  then show ?thesis
    using evolves_apply_updates [of m "s_Updates msg" clk] unfolding handleMessage_def Let_def
    by (rule evolves_trans [rotated])
qed

lemma evolves_ping_indirect: "evolves m (fst (ping_indirect env m target))"
  using evolves_send_reqs [of m "pe_rng2 env" "pe_shuffle env" "pe_resolve env" target]
  by (auto simp: ping_indirect_def intro: evolves_trans evolves_markSuspect split: prod.splits option.splits)

lemma evolves_pingRandomMember: "evolves m (fst (pingRandomMember env m))"
proof -
  have "evolves m (fst (ping_direct env m target))" for target
    using evolves_send_ping [of m "pe_resolve env" "n_GossipAddr target" "n_ID target"]
    by (auto simp: ping_direct_def intro: evolves_trans evolves_ping_indirect split: prod.splits option.splits)
  then show ?thesis by (simp add: pingRandomMember_def Let_def)
qed

lemma evolves_JoinCluster: "evolves m (fst (JoinCluster resolve written m seeds))"
proof -
  let ?f = "\<lambda>(m, joined) addr. case resolve addr of None \<Rightarrow> (m, joined)
    | Some udpAddr \<Rightarrow> if \<not> written udpAddr then (m, joined)
        else (WriteToUDP m (swim_msg m MsgJoin [] [self_update m]) udpAddr, True)"
  have "evolves m (fst (foldl ?f (m, j) seeds))" for j
  proof (induction seeds arbitrary: m j)
    case (Cons a seeds)
    have "evolves m (fst (?f (m, j) a))" by (simp add: evolves_write split: option.splits)
    moreover obtain m' j' where "?f (m, j) a = (m', j')" by fastforce
    ultimately show ?case using Cons [of m' j'] by (auto intro: evolves_trans)
  qed simp
  then show ?thesis by (simp add: JoinCluster_def)
qed

lemma closed_simps [simp]:
  "m_closed (swim_emit m ev) = m_closed m" "m_closed (queueUpdate m u) = m_closed m"
  "m_closed (queueUpdateLocked m u) = m_closed m" "m_closed (cancel_timer m k) = m_closed m"
  "m_closed (start_timer m k) = m_closed m" "m_closed (set_status m k st) = m_closed m"
  "m_closed (WriteToUDP m msg a) = m_closed m" "m_closed (fst (drainUpdates m)) = m_closed m"
  "m_closed (ping_timeout m k) = m_closed m"
  by (simp_all add: swim_emit_def queueUpdate_def queueUpdateLocked_def cancel_timer_def timer_Stop_def
      start_timer_def set_status_def WriteToUDP_def drainUpdates_eq ping_timeout_def Let_def split: option.splits)

lemma closed_markSuspect [simp]: "m_closed (markSuspect m k) = m_closed m"
  by (simp add: markSuspect_def Let_def split: option.splits)

lemma closed_markDead [simp]: "m_closed (markDead m k) = m_closed m"
  by (simp add: markDead_def Let_def split: option.splits)

lemma closed_applyUpdate [simp]: "m_closed (applyUpdate m u now) = m_closed m"
  by (simp add: applyUpdate_def refute_def apply_new_def apply_known_def markSuspectLocked_def Let_def
      split: option.splits NodeStatus.splits)

lemma closed_apply_updates [simp]: "m_closed (apply_updates m us clk) = m_closed m"
  by (induction us arbitrary: m clk) simp_all

lemma closed_send_ping [simp]: "m_closed (fst (send_ping resolve m addr k)) = m_closed m"
  by (simp add: send_ping_def Let_def drainUpdates_eq split: option.splits)

lemma closed_send_reqs [simp]: "m_closed (fst (send_reqs rng shuffle resolve m target)) = m_closed m"
proof -
  have "m_closed (foldl (send_req resolve k) m' ps) = m_closed m'" for k m' ps
    by (induction ps arbitrary: m') (simp_all add: send_req_def split: option.splits)
  then show ?thesis by (simp add: send_reqs_def Let_def)
qed

lemma closed_ping_indirect [simp]: "m_closed (fst (ping_indirect env m target)) = m_closed m"
  using closed_send_reqs [of "pe_rng2 env" "pe_shuffle env" "pe_resolve env" m target]
  by (auto simp: ping_indirect_def simp del: closed_send_reqs split: prod.splits option.splits)

lemma closed_pingRandomMember [simp]: "m_closed (fst (pingRandomMember env m)) = m_closed m"
proof -
  have "m_closed (fst (ping_direct env m target)) = m_closed m" for target
    using closed_send_ping [of "pe_resolve env" m "n_GossipAddr target" "n_ID target"]
    by (auto simp: ping_direct_def simp del: closed_send_ping split: prod.splits option.splits)
  then show ?thesis by (simp add: pingRandomMember_def Let_def)
qed

lemma closed_JoinCluster [simp]: "m_closed (fst (JoinCluster resolve written m seeds)) = m_closed m"
  unfolding JoinCluster_def
  by (simp, rule impI, rule foldl_invariant [where P = "\<lambda>p. m_closed (fst p) = m_closed m"])
     (auto split: option.splits)

section \<open>Reachable states\<close>

definition sw_inv :: "Swim \<Rightarrow> bool" where
  "sw_inv s \<longleftrightarrow> m_inv_on (if sw_done s then UNIV else {}) (sw_m s) \<and> out_ok (sw_m s) \<and>
     (case sw_recv s of RecvIdle \<Rightarrow> True
      | RecvReq target info ch from' \<Rightarrow> ch < m_nextChan (sw_m s) \<and> ch \<notin> set (m_closed (sw_m s)))"

lemma sw_inv_keep:
  assumes "sw_inv s" "\<And>S. m_inv_on S (sw_m s) \<Longrightarrow> m_inv_on S m" "evolves (sw_m s) m" "m_closed m = m_closed (sw_m s)"
  shows "sw_inv (s\<lparr>sw_m := m\<rparr>)" "sw_inv (s\<lparr>sw_m := m, sw_ping := pc\<rparr>)" "sw_inv (s\<lparr>sw_m := m, sw_stopped := b\<rparr>)"
    "sw_inv (s\<lparr>sw_m := m, sw_recv := RecvIdle\<rparr>)"
  using assms by (auto simp: sw_inv_def evolves_def split: recv_pc.splits)

lemma fire_timer_inv:
  assumes inv: "m_inv_on S m"
  shows "m_inv_on S (fire_timer t node m)"
proof -
  let ?m = "fire_timer t node m"
  have "distinct (m_armed m)" using inv by (simp add: m_inv_on_def timers_ok_def)
  then have armed: "set (m_armed ?m) = set (m_armed m) - {(t, node)}" "distinct (m_armed ?m)"
    by (simp_all add: fire_timer_def)
  have rest: "m_fired ?m = m_fired m @ [node]" "m_timers ?m = m_timers m" "m_nextTimer ?m = m_nextTimer m"
    "m_registry ?m = m_registry m" "m_updateQueue ?m = m_updateQueue m"
    "m_pendingAcks ?m = m_pendingAcks m" "m_nextChan ?m = m_nextChan m" "m_closed ?m = m_closed m"
    by (simp_all add: fire_timer_def)
  have "timed ?m n" if "timed m n" for n
    using that unfolding timed_def armed rest by auto
  moreover have "timers_ok ?m"
    using inv armed(2) unfolding m_inv_on_def timers_ok_def armed(1) rest by blast
  ultimately show ?thesis
    using inv unfolding m_inv_on_def chans_ok_def suspect_def rest by blast
qed

lemma run_markDead_inv: "m_inv_on S m \<Longrightarrow> m_inv_on S (run_markDead node m)"
proof -
  let ?m = "m\<lparr>m_fired := remove1 node (m_fired m)\<rparr>"
  assume inv: "m_inv_on S m"
  have "m_inv_on (insert node S) ?m" using inv by (auto simp: m_inv_defs in_set_remove1)
  then have "m_inv_on (insert node S) (markDead ?m node)" by (rule markDead_inv)
  moreover have "\<not> suspect (markDead ?m node) node"
    by (auto simp: markDead_def Let_def suspect_def [of ?m] suspect_def [of m] GetStatus_def split: option.splits)
  ultimately show ?thesis unfolding run_markDead_def by (blast intro: m_inv_drop)
qed

lemma stop_timers_fields:
  "stop_timers m = m\<lparr>m_armed := filter (\<lambda>(t, _). t \<notin> snd ` set (m_timers m)) (m_armed m)\<rparr>"
proof -
  have "foldl (\<lambda>m (_, t). timer_Stop t m) m ts = m\<lparr>m_armed := filter (\<lambda>(t, _). t \<notin> snd ` set ts) (m_armed m)\<rparr>" for ts
    by (induction ts arbitrary: m) (auto simp: timer_Stop_def intro!: filter_cong arg_cong [where f = "\<lambda>a. _\<lparr>m_armed := a\<rparr>"])
  then show ?thesis by (simp add: stop_timers_def)
qed

lemma swim_Stop_inv: "m_inv_on S m \<Longrightarrow> m_inv_on S (swim_Stop m)"
  unfolding swim_Stop_def Let_def
  by (intro m_inv_queue) (simp, rule m_inv_drop [OF m_inv_set_status], simp_all)

lemma JoinCluster_inv: "m_inv_on S m \<Longrightarrow> m_inv_on S (fst (JoinCluster resolve written m seeds))"
  unfolding JoinCluster_def
  by (simp, rule impI, rule foldl_invariant [where P = "\<lambda>p. m_inv_on S (fst p)"])
     (auto split: option.splits)

lemma stop_timers_inv: "m_inv_on S m \<Longrightarrow> m_inv_on UNIV (stop_timers m)"
  unfolding stop_timers_fields by (auto simp: m_inv_on_def timers_ok_def chans_ok_def)

lemma evolves_fields:
  "m_selfID m' = m_selfID m \<Longrightarrow> m_nextChan m' = m_nextChan m \<Longrightarrow> m_out m' = m_out m \<Longrightarrow>
    m_registry m' = m_registry m \<Longrightarrow> evolves m m'"
  by (simp add: evolves_def out_ok_def)

lemma closed_more [simp]:
  "m_closed (run_markDead node m) = m_closed m" "m_closed (fire_timer t node m) = m_closed m"
  "m_closed (swim_Stop m) = m_closed m"
  by (simp_all add: run_markDead_def fire_timer_def swim_Stop_def Let_def)

lemma evolves_run_markDead: "evolves m (run_markDead node m)"
  unfolding run_markDead_def by (rule evolves_trans [OF evolves_fields evolves_markDead]) simp_all

lemma evolves_swim_Stop: "evolves m (swim_Stop m)"
  by (simp add: swim_Stop_def Let_def evolves_def set_status_def out_ok_def queueUpdate_def reg_grows_mutate SetStatus_def)

lemma receive_inv:
  assumes "receive rng resolve m msg from' clk = (m', pc)"
  shows "m_inv_on S m \<Longrightarrow> m_inv_on S m'" "evolves m m'"
  using assms handleMessage_inv [of S m rng resolve msg from' clk]
    evolves_handleMessage [of m rng resolve msg from' clk]
  by (auto simp: receive_def split: if_splits prod.splits option.splits)

lemma receive_fresh:
  assumes "receive rng resolve m msg from' clk = (m', RecvReq target info ch from'')" "chans_ok m"
  shows "ch < m_nextChan m' \<and> ch \<notin> set (m_closed m')"
proof -
  let ?m = "apply_updates m (s_Updates msg) clk"
  from assms(1) obtain ty: "s_Type msg = MsgPingReq"
    and send: "send_ping resolve ?m (n_GossipAddr info) (s_TargetID msg) = (m', Some ch)"
    by (auto simp: receive_def handleMessage_def handlePingReq_def Let_def
        split: if_splits prod.splits option.splits MessageType.splits)
  have "m_nextChan m \<le> m_nextChan ?m" using evolves_apply_updates by (simp add: evolves_def)
  moreover have "ch = m_nextChan ?m" "m_nextChan m' = Suc (m_nextChan ?m)" "m_closed m' = m_closed ?m"
    using send by (auto simp: send_ping_def Let_def drainUpdates_eq WriteToUDP_def split: if_splits option.splits)
  ultimately show ?thesis using assms(2) by (auto simp: chans_ok_def)
qed

lemma swim_step_inv:
  assumes "swim_step s s'" "sw_inv s"
  shows "sw_inv s' \<and> evolves (sw_m s) (sw_m s')"
  using assms(1)
proof cases
  case (ping_tick env m pc)
  then have "m = fst (pingRandomMember env (sw_m s))" by simp
  with ping_tick(1) assms(2) show ?thesis
    by (auto intro!: sw_inv_keep pingRandomMember_inv evolves_pingRandomMember)
next
  case (direct_timeout target ch env m pc)
  then have m: "m = fst (ping_indirect env (ping_timeout (sw_m s) (n_ID target)) target)" by simp
  have "evolves (sw_m s) m"
    unfolding m by (rule evolves_trans [OF evolves_ping_timeout evolves_ping_indirect])
  with direct_timeout(1) assms(2) m show ?thesis
    by (auto intro!: sw_inv_keep ping_indirect_inv ping_timeout_inv)
next
  case (direct_stop target ch env m pc)
  then have "m = fst (ping_indirect env (sw_m s) target)" by simp
  with direct_stop(1) assms(2) show ?thesis
    by (auto intro!: sw_inv_keep ping_indirect_inv evolves_ping_indirect)
next
  case (indirect_timeout target ch)
  have "evolves (sw_m s) (markSuspect (ping_timeout (sw_m s) (n_ID target)) (n_ID target))"
    by (rule evolves_trans [OF evolves_ping_timeout evolves_markSuspect])
  with indirect_timeout(1) assms(2) show ?thesis
    by (auto intro!: sw_inv_keep markSuspect_inv ping_timeout_inv)
next
  case (indirect_stop target ch)
  with assms(2) show ?thesis by (auto intro!: sw_inv_keep markSuspect_inv evolves_markSuspect)
next
  case (recv_msg rng resolve msg from' clk m pc)
  then show ?thesis
    using assms(2) receive_inv [OF recv_msg(4)] receive_fresh [of rng resolve "sw_m s" msg from' clk m]
    by (auto simp: sw_inv_def evolves_def m_inv_on_def split: recv_pc.splits)
next
  case (req_ack target info ch from')
  with assms(2) show ?thesis by (simp add: sw_inv_def)
next
  case (req_timeout target info ch from')
  with assms(2) show ?thesis by (auto intro!: sw_inv_keep ping_timeout_inv evolves_ping_timeout)
next
  case (dead_runs node)
  with assms(2) show ?thesis
    by (auto intro!: sw_inv_keep run_markDead_inv evolves_run_markDead)
next
  case (timer_fires t node)
  have "evolves (sw_m s) (fire_timer t node (sw_m s))" by (rule evolves_fields) (simp_all add: fire_timer_def)
  with timer_fires(1) assms(2) show ?thesis
    by (auto intro!: sw_inv_keep fire_timer_inv)
next
  case (faults fi)
  have "evolves (sw_m s) (SetFaultInjector (sw_m s) fi)" by (rule evolves_fields) (simp_all add: SetFaultInjector_def)
  with faults assms(2) show ?thesis by (auto intro!: sw_inv_keep simp: SetFaultInjector_def)
next
  case on_event
  have "evolves (sw_m s) (SetOnEvent (sw_m s))" by (rule evolves_fields) (simp_all add: SetOnEvent_def)
  with on_event assms(2) show ?thesis by (auto intro!: sw_inv_keep simp: SetOnEvent_def)
next
  case stop
  with assms(2) show ?thesis
    by (auto intro!: sw_inv_keep swim_Stop_inv evolves_swim_Stop)
next
  case shutdown
  have "evolves (sw_m s) (stop_timers (sw_m s))" by (rule evolves_fields) (simp_all add: stop_timers_fields)
  with shutdown assms(2) show ?thesis
    by (auto simp: sw_inv_def evolves_def intro: stop_timers_inv)
next
  case (join resolve written seeds m ok)
  then have "m = fst (JoinCluster resolve written (sw_m s) seeds)" by simp
  with join(1) assms(2) show ?thesis
    by (auto intro!: sw_inv_keep JoinCluster_inv evolves_JoinCluster)
qed (use assms(2) in \<open>auto simp: sw_inv_def split: recv_pc.splits\<close>)

lemma swim_init_inv: "n_Status self \<noteq> StatusSuspect \<Longrightarrow> sw_inv (swim_init self)"
proof -
  assume "n_Status self \<noteq> StatusSuspect"
  moreover have "reg_inv (NewNodeRegistry (n_ID self))" "reg_Get (NewNodeRegistry (n_ID self)) k = None" for k
    by (simp_all add: reg_inv_def NewNodeRegistry_def reg_Get_def)
  ultimately show ?thesis
    by (auto simp: sw_inv_def swim_init_def swim_Start_def SetOnEvent_def SetFaultInjector_def NewMembership_def queueUpdate_def m_inv_on_def
        timers_ok_def chans_ok_def suspect_def out_ok_def reg_Register_inv queue_add_ok queue_ok_def)
qed

lemma swim_reach_inv: "swim_reach self s \<Longrightarrow> n_Status self \<noteq> StatusSuspect \<Longrightarrow> sw_inv s"
  by (induction rule: swim_reach.induct) (simp_all add: swim_init_inv swim_step_inv)

lemma swim_steps_reach: "swim_step\<^sup>*\<^sup>* s s' \<Longrightarrow> swim_reach self s \<Longrightarrow> swim_reach self s'"
  by (induction rule: rtranclp_induct) (auto intro: reach_step)

lemma swim_steps_evolve: "swim_step\<^sup>*\<^sup>* s s' \<Longrightarrow> sw_inv s \<Longrightarrow> sw_inv s' \<and> evolves (sw_m s) (sw_m s')"
  by (induction rule: rtranclp_induct) (auto dest: swim_step_inv intro: evolves_trans)

lemma swim_reach_self: "swim_reach self s \<Longrightarrow> n_Status self \<noteq> StatusSuspect \<Longrightarrow> m_selfID (sw_m s) = n_ID self"
proof (induction rule: swim_reach.induct)
  case reach_init
  show ?case by (simp add: swim_init_def swim_Start_def SetOnEvent_def SetFaultInjector_def NewMembership_def queueUpdate_def)
next
  case (reach_step s s')
  then show ?case using swim_step_inv swim_reach_inv by (fastforce simp: evolves_def)
qed

lemma run_markDead_kills:
  assumes "suspect m k"
  shows "map_option n_Status (reg_Get (m_registry (run_markDead k m)) k) = Some StatusDead"
    "m_onEvent m \<Longrightarrow> m_events (run_markDead k m) = m_events m @ [EventDead k]"
  using assms
  by (auto simp: run_markDead_def markDead_def suspect_def GetStatus_def SetStatus_def set_status_def cancel_timer_def
      timer_Stop_def queueUpdateLocked_def swim_emit_def Let_def split: option.splits)

lemma queue_add_mem:
  "(\<And>q. q \<in> set qs \<Longrightarrow> qid q = u_NodeID u \<Longrightarrow> u_Incarnation (q_update q) \<le> u_Incarnation u) \<Longrightarrow>
    u \<in> q_update ` set (queue_add u qs)"
  by (induction qs) (auto simp: qid_def)

lemma node_update_simps [simp]:
  "u_NodeID (node_update n) = n_ID n" "u_GRPCAddr (node_update n) = n_GRPCAddr n"
  "u_GossipAddr (node_update n) = n_GossipAddr n" "u_HTTPAddr (node_update n) = n_HTTPAddr n"
  "u_Status (node_update n) = n_Status n" "u_Incarnation (node_update n) = n_Incarnation n"
  by (simp_all add: node_update_def GetStatus_def)

lemma applyUpdate_other: "k \<noteq> u_NodeID u \<Longrightarrow> reg_Get (m_registry (applyUpdate m u now)) k = reg_Get (m_registry m) k"
  by (simp add: applyUpdate_def refute_def apply_new_def apply_known_def markSuspectLocked_def set_status_def
      swim_emit_def queueUpdate_def queueUpdateLocked_def cancel_timer_def timer_Stop_def NewNodeInfo_def Let_def
      split: option.splits NodeStatus.splits)

lemma apply_updates_other:
  "k \<notin> u_NodeID ` set us \<Longrightarrow> reg_Get (m_registry (apply_updates m us clk)) k = reg_Get (m_registry m) k"
  by (induction us arbitrary: m clk) (simp_all add: applyUpdate_other)

lemma apply_updates_fresh:
  assumes "distinct (map u_NodeID us)" "u \<in> set us" "u_NodeID u \<noteq> m_selfID m"
    "u_NodeID u \<noteq> m_selfID m \<Longrightarrow> reg_Get (m_registry m) (u_NodeID u) = None"
  shows "\<exists>now. reg_Get (m_registry (apply_updates m us clk)) (u_NodeID u) =
    (if u_Status u = StatusAlive
     then Some ((NewNodeInfo (u_NodeID u) (u_GRPCAddr u) (u_GossipAddr u) (u_HTTPAddr u) now)
       \<lparr>n_Incarnation := u_Incarnation u\<rparr>) else None)"
  using assms
proof (induction us arbitrary: m clk)
  case (Cons v us)
  show ?case
  proof (cases "u = v")
    case True
    then have "u_NodeID u \<notin> u_NodeID ` set us" using Cons(2) by auto
    with True Cons(4,5) show ?thesis
      by (auto simp: apply_updates_other applyUpdate_def apply_new_def swim_emit_def queueUpdate_def NewNodeInfo_def Let_def)
  next
    case False
    then have us: "u \<in> set us" using Cons(3) by simp
    with Cons(2) have "u_NodeID u \<noteq> u_NodeID v" by (force simp: image_iff)
    moreover have "m_selfID (applyUpdate m v (clk 0)) = m_selfID m" using evolves_applyUpdate by (simp add: evolves_def)
    ultimately show ?thesis using Cons us by (simp add: applyUpdate_other)
  qed
qed simp

section \<open>Properties\<close>



text \<open>
  Packets are the node's own. In every reachable state each packet a node has written names
  the node itself as its sender, and a ping carries at most \<open>maxPiggybackUpdates\<close> updates. The
  ack that \<open>handlePingReq\<close> would send on behalf of a probed target, whose sender is the target,
  is therefore never written: only \<open>receiveLoop\<close> closes ack channels, and it is waiting.
\<close>
theorem packets_are_own:
  assumes "swim_reach self s" "n_Status self \<noteq> StatusSuspect" "(addr, msg) \<in> set (m_out (sw_m s))"
  shows "s_SenderID msg = n_ID self \<and> (s_Type msg = MsgPing \<longrightarrow> length (s_Updates msg) \<le> maxPiggybackUpdates)"
  using swim_reach_inv [OF assms(1,2)] assms(3) swim_reach_self [OF assms(1,2)]
  by (auto simp: sw_inv_def out_ok_def)

text \<open>
  C25. Members are never forgotten. Once a node knows a member it keeps an entry for it in every
  later state, and the incarnation recorded there never goes down.
\<close>
theorem members_never_forgotten:
  assumes "swim_reach self s" "n_Status self \<noteq> StatusSuspect" "swim_step\<^sup>*\<^sup>* s s'"
    "reg_Get (m_registry (sw_m s)) k = Some n"
  shows "\<exists>n'. reg_Get (m_registry (sw_m s')) k = Some n' \<and> n_Incarnation n \<le> n_Incarnation n'"
  using swim_steps_evolve [OF assms(3) swim_reach_inv [OF assms(1,2)]] assms(4)
  by (auto simp: evolves_def reg_grows_def)

text \<open>
  Refutation revives. \<open>B\<close> suspects \<open>A\<close>; its SUSPECT update reaches \<open>A\<close>, which refutes it; the
  update that \<open>A\<close> queues reaches \<open>B\<close>. Then \<open>B\<close> has \<open>A\<close> as ALIVE again, with a higher incarnation
  than the one it suspected, and the suspicion timer is stopped. This needs an incarnation
  below the largest 64-bit value, and no newer update about \<open>A\<close> in the queue of \<open>A\<close>.
\<close>
theorem refutation_revives:
  assumes "m_selfID B \<noteq> m_selfID A" "reg_Get (m_registry B) (m_selfID A) = Some n" "n_Status n = StatusAlive"
    and "n_Incarnation n \<noteq> - 1" "timers_ok B"
    and "\<forall>q \<in> set (m_updateQueue A). qid q = m_selfID A \<longrightarrow> u_Incarnation (q_update q) \<le> m_incarnation A"
    and "A' = applyUpdate A (status_update (m_selfID A) StatusSuspect (n_Incarnation n)) t\<^sub>1"
    and "B' = applyUpdate (markSuspect B (m_selfID A)) (self_update A') t\<^sub>2"
  shows "suspect (markSuspect B (m_selfID A)) (m_selfID A) \<and>
    self_update A' \<in> q_update ` set (m_updateQueue A') \<and>
    (\<exists>n'. reg_Get (m_registry B') (m_selfID A) = Some n' \<and> n_Status n' = StatusAlive \<and>
       n_Incarnation n < n_Incarnation n' \<and> n_Incarnation n' = m_incarnation A') \<and>
    m_selfID A \<notin> snd ` set (m_armed B')"
proof -
  let ?k = "m_selfID A" and ?B = "markSuspect B (m_selfID A)"
  have self: "m_selfID A' = ?k" "n_Incarnation n < m_incarnation A'" "m_incarnation A \<le> m_incarnation A'"
    "m_updateQueue A' = queue_add (self_update A') (m_updateQueue A)"
    using word_less_Suc [OF assms(4)]
    by (auto simp: assms(7) applyUpdate_def status_update_def refute_def queueUpdateLocked_def self_update_def Let_def)
  have "self_update A' \<in> q_update ` set (m_updateQueue A')"
    unfolding self(4) using assms(6) self(1,3)
    by (intro queue_add_mem) (auto simp: self_update_def intro: order_trans)
  moreover have B: "reg_Get (m_registry ?B) ?k = Some (n\<lparr>n_Status := StatusSuspect\<rparr>)" "m_selfID ?B = m_selfID B"
    using assms(2,3) by (simp_all add: markSuspect_def GetStatus_def SetStatus_def set_status_def queueUpdateLocked_def
        swim_emit_def Let_def)
  moreover have "timers_ok ?B"
    using assms(2,3,5) by (simp add: markSuspect_def Let_def start_timer_ok)
  moreover have "B' = swim_emit (cancel_timer (?B\<lparr>m_registry := reg_mutate ?k
      (\<lambda>n. Touch t\<^sub>2 ((SetStatus StatusAlive n)\<lparr>n_Incarnation := m_incarnation A'\<rparr>)) (m_registry ?B)\<rparr>) ?k) (EventAlive ?k)"
    using B assms(1) self by (simp add: assms(8) applyUpdate_def self_update_def apply_known_def GetStatus_def Let_def)
  ultimately show ?thesis
    using self(2) cancel_timer_disarms [of "?B\<lparr>m_registry := _\<rparr>" ?k]
    by (auto simp: suspect_def Touch_def SetStatus_def)
qed

text \<open>
  C26. Joining teaches the membership. When the seed \<open>B\<close> answers a join and the joiner \<open>A\<close>, which
  knows no other node yet, handles that ack, then \<open>A\<close> knows exactly the nodes that \<open>B\<close> holds as
  ALIVE, each with the addresses and the incarnation that \<open>B\<close> has for it.
\<close>
theorem join_learns_members:
  assumes "range_order rng" "reg_inv (m_registry B)" "\<And>k. k \<noteq> m_selfID A \<Longrightarrow> reg_Get (m_registry A) k = None"
    and "m_out (handleJoin rng B addr) = m_out B @ [(addr, msg)]"
    and "A' = fst (handleMessage rng' resolve A msg from' clk)" and "k \<noteq> m_selfID A"
  shows "case reg_Get (m_registry B) k of
      None \<Rightarrow> reg_Get (m_registry A') k = None
    | Some n \<Rightarrow>
        if n_Status n = StatusAlive then
          \<exists>n'. reg_Get (m_registry A') k = Some n' \<and> n_ID n' = k \<and> n_Status n' = StatusAlive \<and>
            n_GRPCAddr n' = n_GRPCAddr n \<and> n_GossipAddr n' = n_GossipAddr n \<and> n_HTTPAddr n' = n_HTTPAddr n \<and>
            n_Incarnation n' = n_Incarnation n
        else reg_Get (m_registry A') k = None"
proof -
  let ?us = "map node_update (GetAll rng (m_registry B))"
  have msg: "s_Type msg = MsgAck" "s_Updates msg = ?us"
    using assms(4) by (auto simp: handleJoin_def WriteToUDP_def swim_msg_def)
  let ?A = "apply_updates A ?us clk"
  have get: "\<exists>t. reg_Get (m_registry A') k = (if k = s_SenderID msg then map_option (Touch t) (reg_Get (m_registry ?A) k)
      else reg_Get (m_registry ?A) k)"
    by (auto simp: assms(5) handleMessage_def handleAck_def msg Let_def split: option.splits)
  have "distinct (map u_NodeID ?us)"
    using distinct_GetAll [OF assms(1,2)] by (simp add: node_update_def o_def)
  note fresh = apply_updates_fresh [OF this _ _ assms(3), where clk = clk]
  show ?thesis
  proof (cases "reg_Get (m_registry B) k")
    case None
    then have "k \<notin> u_NodeID ` set ?us"
      using set_GetAll [OF assms(1,2)] by (auto simp: node_update_def)
    with None get assms(3,6) show ?thesis by (auto simp: apply_updates_other)
  next
    case (Some n)
    then have "n_ID n = k" "n \<in> set (GetAll rng (m_registry B))"
      using assms(2) set_GetAll [OF assms(1,2)] by (auto simp: reg_inv_def)
    then have us: "node_update n \<in> set ?us" and k: "n_ID n = k" by simp_all
    obtain now where "reg_Get (m_registry ?A) k =
        (if n_Status n = StatusAlive
         then Some ((NewNodeInfo k (n_GRPCAddr n) (n_GossipAddr n) (n_HTTPAddr n) now)
           \<lparr>n_Incarnation := n_Incarnation n\<rparr>) else None)"
      using fresh [OF us] assms(6) unfolding node_update_simps k by blast
    with get Some show ?thesis by (auto simp: NewNodeInfo_def Touch_def)
  qed
qed

text \<open>
  A failed node is silent. While the crash fault is injected, a ping round writes no packet,
  although it still picks a target, and every packet received is dropped unread.
\<close>
theorem failed_node_silent:
  assumes "m_injector m = Some fi" "IsFailed fi"
  shows "m_out (fst (pingRandomMember env m)) = m_out m \<and> receive rng resolve m msg from' clk = (m, RecvIdle)"
proof -
  have blocked: "isBlocked m' k" if "m_injector m' = Some fi" for m' k
    using that assms(2) by (simp add: isBlocked_def)
  have "foldl (send_req r t) m' ps = m'" if "m_injector m' = Some fi" for r t m' ps
    using that by (induction ps) (simp_all add: send_req_def blocked)
  moreover have "m_out (markSuspect m' k) = m_out m'" for m' k
    by (simp add: markSuspect_def set_status_def queueUpdateLocked_def swim_emit_def start_timer_def timer_Stop_def Let_def
        split: option.splits)
  ultimately show ?thesis
    using assms(1) by (simp add: pingRandomMember_def ping_direct_def ping_indirect_def send_ping_def send_reqs_def
        receive_def blocked Let_def split: option.splits)
qed

section \<open>Two races\<close>

text \<open>
  The steps above run each handler as a whole. The ALIVE branch of \<open>applyUpdate\<close> sets the status
  before it takes the lock under which it cancels the timer. When \<open>markSuspect\<close> of the ping loop
  comes in between, the timer that is cancelled is the new one, and the member stays SUSPECT
  with no timer.
\<close>

lemma alive_race:
  assumes "reg_Get (m_registry m) k = Some n" "timers_ok m" "k \<notin> set (m_fired m)"
  shows "let m' = cancel_timer (markSuspect (set_status m k StatusAlive) k) k in suspect m' k \<and> \<not> timed m' k"
proof -
  let ?m = "markSuspect (set_status m k StatusAlive) k"
  have get: "reg_Get (m_registry (set_status m k StatusAlive)) k = Some (SetStatus StatusAlive n)"
    using assms(1) by (simp add: set_status_def)
  then have "timers_ok ?m" "suspect ?m k" "m_fired ?m = m_fired m"
    using assms(2)
    by (simp_all add: markSuspect_def GetStatus_def SetStatus_def Let_def start_timer_ok)
      (simp_all add: swim_emit_def queueUpdateLocked_def set_status_def)
  moreover have "m_fired (cancel_timer ?m k) = m_fired ?m"
    by (simp add: cancel_timer_def timer_Stop_def split: option.splits)
  ultimately show ?thesis using cancel_timer_disarms [of ?m k] assms(3) by (simp add: Let_def timed_def)
qed

text \<open>
  \<open>markDead\<close> does not ask whether the member is still SUSPECT. An alarm that has gone off before
  the timer is stopped kills a member that has become ALIVE, and one that has LEFT.
\<close>

lemma late_alarm:
  assumes "k \<in> set (m_fired (sw_m s))" "reg_Get (m_registry (sw_m s)) k = Some n" "n_Status n \<noteq> StatusDead"
  shows "\<exists>s'. swim_step s s' \<and> reg_Get (m_registry (sw_m s')) k = Some (SetStatus StatusDead n)"
  using dead_runs [OF assms(1)] assms(2,3)
  by (intro exI [of _ "s\<lparr>sw_m := run_markDead k (sw_m s)\<rparr>"])
     (simp add: run_markDead_def markDead_def GetStatus_def set_status_def queueUpdateLocked_def Let_def)

section \<open>Witnesses\<close>

text \<open>
  A node \<open>a\<close> that learns of \<open>b\<close> from a ping, suspects it when the indirect probe cannot be
  sent, and answers the ping.
\<close>

abbreviation node_a :: NodeInfo where
  "node_a \<equiv> NewNodeInfo ''a'' ''ga'' ''ua'' ''ha'' 0"

abbreviation node_b :: NodeInfo where
  "node_b \<equiv> NewNodeInfo ''b'' ''gb'' ''ub'' ''hb'' 1"

abbreviation ping_from_b :: SwimMessage where
  "ping_from_b \<equiv> \<lparr>s_Type = MsgPing, s_SenderID = ''b'', s_SenderAddr = ''ub'', s_TargetID = [], s_Incarnation = 0,
     s_Updates = [node_update node_b]\<rparr>"

abbreviation w_env :: ping_env where
  "w_env \<equiv> \<lparr>pe_rng = \<lambda>m. m, pe_rng2 = \<lambda>m. m, pe_Intn = \<lambda>_. 0, pe_shuffle = \<lambda>xs. xs, pe_resolve = \<lambda>_. None\<rparr>"

definition w_knows :: Swim where
  "w_knows = (swim_init node_a)\<lparr>sw_m := fst (receive (\<lambda>m. m) Some (sw_m (swim_init node_a)) ping_from_b ''ub'' (\<lambda>_. 1))\<rparr>"

definition w_suspects :: Swim where
  "w_suspects = w_knows\<lparr>sw_m := fst (pingRandomMember w_env (sw_m w_knows))\<rparr>"

lemma w_knows_reach: "swim_reach node_a w_knows"
proof -
  have "swim_step (swim_init node_a) ((swim_init node_a)\<lparr>sw_m := sw_m w_knows, sw_recv := RecvIdle\<rparr>)"
    by (rule recv_msg [where rng = "\<lambda>m. m" and resolve = Some and msg = ping_from_b and from' = "''ub''" and clk = "\<lambda>_. 1"])
       (simp_all add: swim_init_def w_knows_def prod_eq_iff rng_insertion.range_order_axioms, code_simp)
  moreover have "(swim_init node_a)\<lparr>sw_m := sw_m w_knows, sw_recv := RecvIdle\<rparr> = w_knows"
    by (simp add: w_knows_def swim_init_def)
  ultimately show ?thesis by (auto intro: reach_step reach_init)
qed

lemma w_suspects_step: "swim_step w_knows w_suspects"
proof -
  have "env_inv w_env"
    by (simp add: env_inv_def rng_insertion.range_order_axioms)
  moreover have "sw_ping w_knows = PingIdle" "\<not> sw_done w_knows" by (simp_all add: w_knows_def swim_init_def)
  moreover have "pingRandomMember w_env (sw_m w_knows) = (sw_m w_suspects, PingIdle)"
    by (simp add: prod_eq_iff w_suspects_def, code_simp)
  ultimately have "swim_step w_knows (w_knows\<lparr>sw_m := sw_m w_suspects, sw_ping := PingIdle\<rparr>)"
    by (intro ping_tick)
  moreover have "w_knows\<lparr>sw_m := sw_m w_suspects, sw_ping := PingIdle\<rparr> = w_suspects"
    by (simp add: w_suspects_def w_knows_def swim_init_def)
  ultimately show ?thesis by simp
qed

lemma w_suspects_reach: "swim_reach node_a w_suspects"
  by (rule reach_step [OF w_knows_reach w_suspects_step])

lemma w_suspects_b: "suspect (sw_m w_suspects) ''b''" "\<not> sw_done w_suspects"
  by code_simp+

lemma w_alive: "n_Status node_a \<noteq> StatusSuspect"
  by (simp add: NewNodeInfo_def)



theorem packets_are_own_witness:
  "\<exists>msg. (''ub'', msg) \<in> set (m_out (sw_m w_knows)) \<and> s_SenderID msg = ''a''"
proof -
  have "(''ub'', snd (hd (m_out (sw_m w_knows)))) \<in> set (m_out (sw_m w_knows))" by code_simp
  with packets_are_own [OF w_knows_reach w_alive this] show ?thesis by (auto simp: NewNodeInfo_def)
qed

theorem members_never_forgotten_witness:
  "\<exists>n'. reg_Get (m_registry (sw_m w_suspects)) ''b'' = Some n' \<and> 0 \<le> n_Incarnation n'"
proof -
  have "reg_Get (m_registry (sw_m w_knows)) ''b'' = Some node_b" by code_simp
  from members_never_forgotten [OF w_knows_reach w_alive r_into_rtranclp [of swim_step, OF w_suspects_step] this]
  show ?thesis by auto
qed

theorem refutation_revives_witness:
  "\<exists>n'. reg_Get (m_registry (applyUpdate (markSuspect (sw_m w_knows) ''b'')
      (self_update (applyUpdate (sw_m (swim_init node_b)) (status_update ''b'' StatusSuspect 0) 5)) 6)) ''b'' = Some n' \<and>
    n_Status n' = StatusAlive \<and> n_Incarnation n' = 1"
proof -
  have self: "m_selfID (sw_m (swim_init node_b)) = ''b''" by code_simp
  have "m_selfID (sw_m w_knows) \<noteq> m_selfID (sw_m (swim_init node_b))" by code_simp
  moreover have "reg_Get (m_registry (sw_m w_knows)) (m_selfID (sw_m (swim_init node_b))) = Some node_b" by code_simp
  moreover have "n_Status node_b = StatusAlive" "n_Incarnation node_b \<noteq> - 1" by (simp_all add: NewNodeInfo_def)
  moreover have "timers_ok (sw_m w_knows)"
    using swim_reach_inv [OF w_knows_reach w_alive] by (simp add: sw_inv_def m_inv_on_def)
  moreover have "\<forall>q \<in> set (m_updateQueue (sw_m (swim_init node_b))). qid q = m_selfID (sw_m (swim_init node_b)) \<longrightarrow>
      u_Incarnation (q_update q) \<le> m_incarnation (sw_m (swim_init node_b))" by code_simp
  moreover have "m_incarnation (applyUpdate (sw_m (swim_init node_b)) (status_update ''b'' StatusSuspect 0) 5) = 1" by code_simp
  moreover have "n_Incarnation node_b = 0" by (simp add: NewNodeInfo_def)
  ultimately show ?thesis
    using refutation_revives [of "sw_m w_knows" "sw_m (swim_init node_b)" node_b, OF _ _ _ _ _ _ refl refl, of 5 6]
    unfolding self by auto
qed

theorem join_learns_members_witness:
  "\<exists>n'. reg_Get (m_registry (fst (handleMessage (\<lambda>m. m) Some (sw_m (swim_init (NewNodeInfo ''c'' [] [] [] 0)))
      (swim_msg (sw_m w_knows) MsgAck [] (map node_update (GetAll (\<lambda>m. m) (m_registry (sw_m w_knows))))) ''ua'' (\<lambda>_. 2)))) ''b'' =
    Some n' \<and> n_GRPCAddr n' = ''gb''"
proof -
  let ?c = "sw_m (swim_init (NewNodeInfo ''c'' [] [] [] 0))"
  have self: "m_selfID ?c = ''c''" by code_simp
  have "reg_inv (m_registry (sw_m w_knows))"
    using swim_reach_inv [OF w_knows_reach w_alive] by (simp add: sw_inv_def m_inv_on_def)
  moreover have "reg_Get (m_registry ?c) k = None" if "k \<noteq> m_selfID ?c" for k
    using that by (simp add: self swim_init_def swim_Start_def SetOnEvent_def SetFaultInjector_def NewMembership_def queueUpdate_def NewNodeInfo_def
        NewNodeRegistry_def reg_Register_def reg_Get_def)
  moreover have "reg_Get (m_registry (sw_m w_knows)) ''b'' = Some node_b" by code_simp
  ultimately show ?thesis
    using join_learns_members [OF rng_insertion.range_order_axioms, of "sw_m w_knows" ?c "''uc''"
        "swim_msg (sw_m w_knows) MsgAck [] (map node_update (GetAll (\<lambda>m. m) (m_registry (sw_m w_knows))))",
        OF _ _ _ refl, of "''b''" "\<lambda>m. m" Some "''ua''" "\<lambda>_. 2"]
    unfolding self by (auto simp: handleJoin_def WriteToUDP_def NewNodeInfo_def)
qed

theorem failed_node_silent_witness:
  "receive (\<lambda>m. m) Some (SetFaultInjector (sw_m w_knows) (Some (SetFailed NewFaultInjector True))) ping_from_b ''ub'' (\<lambda>_. 3) =
    (SetFaultInjector (sw_m w_knows) (Some (SetFailed NewFaultInjector True)), RecvIdle)"
  using failed_node_silent [of "SetFaultInjector (sw_m w_knows) (Some (SetFailed NewFaultInjector True))"
      "SetFailed NewFaultInjector True"]
  by (simp add: SetFaultInjector_def SetFailed_def IsFailed_def)

end
