(* ===== verification/Config.thy ===== *)
theory Config
  imports Prelude
begin

text \<open>
  The node configuration, \<open>config/config.go\<close>, and what \<open>cmd/cachenode/main.go\<close> does with the
  command line before it starts anything.

  \<open>unmarshal\<close> is \<open>yaml.Unmarshal\<close> into an existing configuration: an error text or the
  configuration with the fields of the file written over it. A load factor is a rational
  number; the code compares it with 0 only.
\<close>

record Config =
  c_NodeID :: string
  c_GRPCAddr :: string
  c_HTTPAddr :: string
  c_GossipAddr :: string
  c_SeedNodes :: "string list"
  c_ReplicaCount :: int
  c_VirtualNodes :: int
  c_SweepInterval :: duration
  c_MaxLoadFactor :: rat
  c_LogLevel :: string

definition DefaultConfig :: Config where
  "DefaultConfig =
     \<lparr>c_NodeID = [], c_GRPCAddr = '':7001'', c_HTTPAddr = '':9001'', c_GossipAddr = '':8001'', c_SeedNodes = [],
      c_ReplicaCount = 3, c_VirtualNodes = 150, c_SweepInterval = 100 * Millisecond, c_MaxLoadFactor = 1 / 4,
      c_LogLevel = ''info''\<rparr>"

datatype file_read = Not_exist | Read_error string | Contents string

datatype config_error =
    Reading string | Parsing string
  | Node_id_required | Grpc_addr_required | Http_addr_required
  | Replica_count int | Virtual_nodes int | Sweep_interval duration | Max_load_factor rat

definition LoadFromFile :: "(string \<Rightarrow> Config \<Rightarrow> string + Config) \<Rightarrow> file_read \<Rightarrow> config_error + Config" where
  "LoadFromFile unmarshal file =
     (case file of
        Not_exist \<Rightarrow> Inr DefaultConfig
      | Read_error err \<Rightarrow> Inl (Reading err)
      | Contents data \<Rightarrow>
          (case unmarshal data DefaultConfig of
             Inl err \<Rightarrow> Inl (Parsing err)
           | Inr cfg \<Rightarrow> Inr cfg))"

definition Validate :: "Config \<Rightarrow> config_error option" where
  "Validate c =
     (if c_NodeID c = [] then Some Node_id_required
      else if c_GRPCAddr c = [] then Some Grpc_addr_required
      else if c_HTTPAddr c = [] then Some Http_addr_required
      else if c_ReplicaCount c < 1 then Some (Replica_count (c_ReplicaCount c))
      else if c_VirtualNodes c < 1 then Some (Virtual_nodes (c_VirtualNodes c))
      else if c_SweepInterval c \<le> 0 then Some (Sweep_interval (c_SweepInterval c))
      else if c_MaxLoadFactor c < 0 then Some (Max_load_factor (c_MaxLoadFactor c))
      else None)"

section \<open>The command line\<close>

record cli_flags =
  f_config :: string
  f_nodeID :: string
  f_grpcAddr :: string
  f_httpAddr :: string

definition cli_overrides :: "cli_flags \<Rightarrow> Config \<Rightarrow> Config" where
  "cli_overrides fl cfg0 =
     (let cfg1 = (if f_nodeID fl \<noteq> [] then cfg0\<lparr>c_NodeID := f_nodeID fl\<rparr> else cfg0);
          cfg2 = (if f_grpcAddr fl \<noteq> [] then cfg1\<lparr>c_GRPCAddr := f_grpcAddr fl\<rparr> else cfg1)
      in if f_httpAddr fl \<noteq> [] then cfg2\<lparr>c_HTTPAddr := f_httpAddr fl\<rparr> else cfg2)"

definition default_node_id :: "string \<Rightarrow> Config \<Rightarrow> Config" where
  "default_node_id hostname cfg =
     (if c_NodeID cfg = [] then cfg\<lparr>c_NodeID := ''node-'' @ hostname @ ''-'' @ c_GRPCAddr cfg\<rparr> else cfg)"

text \<open>
  \<open>main\<close> up to its call of \<open>Validate\<close>: an error is where it exits. \<open>fs\<close> is what reading a path gives.
\<close>

definition main_config :: "cli_flags \<Rightarrow> (string \<Rightarrow> file_read) \<Rightarrow> (string \<Rightarrow> Config \<Rightarrow> string + Config) \<Rightarrow> string \<Rightarrow>
    config_error + Config" where
  "main_config fl fs unmarshal hostname =
     (case (if f_config fl \<noteq> [] then LoadFromFile unmarshal (fs (f_config fl)) else Inr DefaultConfig) of
        Inl err \<Rightarrow> Inl err
      | Inr cfg0 \<Rightarrow>
          (let cfg = default_node_id hostname (cli_overrides fl cfg0) in
           case Validate cfg of Some err \<Rightarrow> Inl err | None \<Rightarrow> Inr cfg))"

section \<open>What an accepted configuration guarantees\<close>

lemma Validate_None:
  "Validate c = None \<longleftrightarrow> c_NodeID c \<noteq> [] \<and> c_GRPCAddr c \<noteq> [] \<and> c_HTTPAddr c \<noteq> [] \<and> 1 \<le> c_ReplicaCount c \<and>
     1 \<le> c_VirtualNodes c \<and> 0 < c_SweepInterval c \<and> 0 \<le> c_MaxLoadFactor c"
  by (auto simp: Validate_def)

lemma cli_frame [simp]:
  "c_ReplicaCount (default_node_id h (cli_overrides fl c)) = c_ReplicaCount c"
  "c_VirtualNodes (default_node_id h (cli_overrides fl c)) = c_VirtualNodes c"
  "c_SweepInterval (default_node_id h (cli_overrides fl c)) = c_SweepInterval c"
  "c_MaxLoadFactor (default_node_id h (cli_overrides fl c)) = c_MaxLoadFactor c"
  "c_GossipAddr (default_node_id h (cli_overrides fl c)) = c_GossipAddr c"
  "c_SeedNodes (default_node_id h (cli_overrides fl c)) = c_SeedNodes c"
  by (simp_all add: default_node_id_def cli_overrides_def Let_def)

lemma cli_fields:
  "c_NodeID (default_node_id h (cli_overrides fl c)) \<noteq> []"
  "f_nodeID fl \<noteq> [] \<Longrightarrow> c_NodeID (default_node_id h (cli_overrides fl c)) = f_nodeID fl"
  "c_GRPCAddr (default_node_id h (cli_overrides fl c)) = (if f_grpcAddr fl \<noteq> [] then f_grpcAddr fl else c_GRPCAddr c)"
  "c_HTTPAddr (default_node_id h (cli_overrides fl c)) = (if f_httpAddr fl \<noteq> [] then f_httpAddr fl else c_HTTPAddr c)"
  by (simp_all add: default_node_id_def cli_overrides_def Let_def)

text \<open>
  A node that starts has a usable configuration, and an unconfigured one starts. An accepted
  configuration has an id and addresses, at least one replica and one virtual node, a positive
  sweep interval and a load factor that is not negative; the command line wins over the file;
  and without a readable configuration file, whatever the other flags, nothing is rejected.
\<close>
theorem config_accepts:
  "(main_config fl fs unmarshal host = Inr c \<longrightarrow>
      c_NodeID c \<noteq> [] \<and> c_GRPCAddr c \<noteq> [] \<and> c_HTTPAddr c \<noteq> [] \<and> 1 \<le> c_ReplicaCount c \<and> 1 \<le> c_VirtualNodes c \<and>
      0 < c_SweepInterval c \<and> 0 \<le> c_MaxLoadFactor c \<and>
      (f_nodeID fl \<noteq> [] \<longrightarrow> c_NodeID c = f_nodeID fl) \<and> (f_grpcAddr fl \<noteq> [] \<longrightarrow> c_GRPCAddr c = f_grpcAddr fl) \<and>
      (f_httpAddr fl \<noteq> [] \<longrightarrow> c_HTTPAddr c = f_httpAddr fl)) \<and>
   (f_config fl = [] \<or> fs (f_config fl) = Not_exist \<longrightarrow> (\<exists>c. main_config fl fs unmarshal host = Inr c))"
proof -
  have "Validate (default_node_id host (cli_overrides fl DefaultConfig)) = None"
    by (auto simp: Validate_None cli_fields DefaultConfig_def Millisecond_def)
  then have "\<exists>c. main_config fl fs unmarshal host = Inr c" if "f_config fl = [] \<or> fs (f_config fl) = Not_exist"
    using that by (auto simp: main_config_def LoadFromFile_def Let_def)
  moreover have "\<exists>c0. c = default_node_id host (cli_overrides fl c0) \<and> Validate c = None"
    if "main_config fl fs unmarshal host = Inr c"
    using that by (auto simp: main_config_def Let_def split: sum.splits option.splits)
  ultimately show ?thesis by (auto simp: Validate_None cli_fields)
qed

theorem config_accepts_witness:
  "\<exists>c. main_config \<lparr>f_config = [], f_nodeID = ''n1'', f_grpcAddr = [], f_httpAddr = []\<rparr> (\<lambda>_. Not_exist) (\<lambda>_ c. Inr c) ''host'' =
     Inr c \<and> c_NodeID c = ''n1''"
  using config_accepts [of "\<lparr>f_config = [], f_nodeID = ''n1'', f_grpcAddr = [], f_httpAddr = []\<rparr>" "\<lambda>_. Not_exist" "\<lambda>_ c. Inr c" "''host''"]
  by auto

end
