(* ===== verification/Server.thy ===== *)
theory Server
  imports Replication Mitigator Chaos
begin

text \<open>
  The gRPC cache server, \<open>internal/server/grpc_server.go\<close>, and its service wrappers,
  \<open>internal/server/service.go\<close>.

  The server holds pointers to the store, the ring, the replication manager, the fault
  injector and the mitigator; \<open>main.go\<close> gives the same ring to the replication manager and the
  same store and detector to the mitigator, so the record holds each shared object once.
  \<open>cs_hasRing\<close> says whether the server itself was given the ring. \<open>cs_sends\<close> are the replication
  goroutines started, \<open>cs_panicked\<close> is set when a handler panics.

  \<open>rpc\<close> is \<open>conn.Invoke\<close> on the connection to a peer: the reply of the peer or an error. The
  \<open>i\<close>-th reading of the clock in a handler is \<open>clk i\<close>.
\<close>

section \<open>Data\<close>

record CacheServer =
  cs_nodeID :: string
  cs_store :: Store
  cs_ring :: Ring
  cs_hasRing :: bool
  cs_rm :: "ReplicationManager option"
  cs_fi :: "FaultInjector option"
  cs_mitigator :: "Mitigator option"
  cs_detector :: Detector
  cs_startTime :: instant
  cs_sends :: "pending list"
  cs_panicked :: bool

definition NewCacheServer :: "string \<Rightarrow> Store \<Rightarrow> Ring \<Rightarrow> bool \<Rightarrow> ReplicationManager option \<Rightarrow> FaultInjector option \<Rightarrow>
    Mitigator option \<Rightarrow> Detector \<Rightarrow> instant \<Rightarrow> CacheServer" where
  "NewCacheServer nodeID s r hasRing rm fi mit d now =
     \<lparr>cs_nodeID = nodeID, cs_store = s, cs_ring = r, cs_hasRing = hasRing, cs_rm = rm, cs_fi = fi,
      cs_mitigator = mit, cs_detector = d, cs_startTime = now, cs_sends = [], cs_panicked = False\<rparr>"

type_synonym ('q, 'r) rpc = "string \<Rightarrow> 'q \<Rightarrow> rpc_error + 'r"
type_synonym 'r handled = "CacheServer \<times> (rpc_error + 'r)"

section \<open>What the handlers share\<close>

text \<open>
  \<open>IncrementLoad\<close> on entry and the deferred \<open>DecrementLoad\<close> on return, around the body of a handler.
\<close>

definition enter :: "CacheServer \<Rightarrow> CacheServer" where
  "enter cs = (if cs_hasRing cs then cs\<lparr>cs_ring := IncrementLoad (cs_ring cs) (cs_nodeID cs)\<rparr> else cs)"

definition leave :: "CacheServer \<Rightarrow> CacheServer" where
  "leave cs = (if cs_hasRing cs then cs\<lparr>cs_ring := DecrementLoad (cs_ring cs) (cs_nodeID cs)\<rparr> else cs)"

definition tracked :: "(CacheServer \<Rightarrow> 'r handled) \<Rightarrow> CacheServer \<Rightarrow> 'r handled" where
  "tracked body cs = (case body (enter cs) of (cs', reply) \<Rightarrow> (leave cs', reply))"

text \<open>
  The connection a request is passed on to: when there is a replication manager, this node
  does not own the key, and there is a connection to the primary.
\<close>

definition proxy :: "(Ring \<Rightarrow> ReplicationManager \<Rightarrow> string \<Rightarrow> bool) \<Rightarrow> CacheServer \<Rightarrow> string \<Rightarrow> string option" where
  "proxy owns cs key =
     (case cs_rm cs of
        None \<Rightarrow> None
      | Some rm \<Rightarrow>
          if owns (cs_ring cs) rm key then None
          else case GetPrimary (cs_ring cs) key of
              None \<Rightarrow> None
            | Some primary \<Rightarrow> if primary = cs_nodeID cs then None else GetPeerConn rm primary)"

definition ttl_of_ms :: "int \<Rightarrow> duration" where
  "ttl_of_ms ttlMs = (if ttlMs > 0 then dur_of_ms ttlMs else 0)"

text \<open>Starting the replication of a write when this node is the primary.\<close>

definition replicate_if_primary :: "(Ring \<Rightarrow> ReplicationManager \<Rightarrow> (ReplicationManager \<times> pending list) option) \<Rightarrow>
    string \<Rightarrow> CacheServer \<Rightarrow> CacheServer" where
  "replicate_if_primary repl key cs =
     (case cs_rm cs of
        None \<Rightarrow> cs
      | Some rm \<Rightarrow>
          if IsPrimary (cs_ring cs) rm key then
            case repl (cs_ring cs) rm of
              None \<Rightarrow> cs\<lparr>cs_panicked := True\<rparr>
            | Some (rm', sends) \<Rightarrow> cs\<lparr>cs_rm := Some rm', cs_sends := cs_sends cs @ sends\<rparr>
          else cs)"

definition reply :: "CacheServer \<Rightarrow> 'r \<Rightarrow> 'r handled" where
  "reply cs resp = (cs, if cs_panicked cs then Inl (Rpc_failed ''panic'') else Inr resp)"

section \<open>The methods of the service\<close>

definition get_local :: "GetRequest \<Rightarrow> (nat \<Rightarrow> instant) \<Rightarrow> CacheServer \<Rightarrow> GetResponse handled" where
  "get_local req clk cs =
     (case store_Get (cs_store cs) (gq_Key req) (clk 0) (clk 1) of
        (s, value, found) \<Rightarrow>
          let cs1 = cs\<lparr>cs_store := s\<rparr>;
              resp = \<lparr>gr_Key = gq_Key req, gr_Value = [], gr_Found = found, gr_TtlMs = 0, gr_IsHot = False\<rparr> in
          if \<not> found then (cs1, Inr resp)
          else
            case cs_mitigator cs of
              None \<Rightarrow> (cs1, Inr (resp\<lparr>gr_Value := value\<rparr>))
            | Some m \<Rightarrow>
                case CheckAndMitigate (cs_detector cs) m s (gq_Key req) (\<lambda>i. clk (2 + i)) of
                  (d', m', s', isHot) \<Rightarrow>
                    (cs1\<lparr>cs_store := s', cs_detector := d', cs_mitigator := Some m'\<rparr>,
                     Inr (resp\<lparr>gr_Value := value, gr_IsHot := isHot\<rparr>)))"

definition get_body :: "(GetRequest, GetResponse) rpc \<Rightarrow> (nat \<Rightarrow> instant) \<Rightarrow> GetRequest \<Rightarrow> CacheServer \<Rightarrow> GetResponse handled" where
  "get_body rpc clk req cs =
     (case proxy IsReplica cs (gq_Key req) of
        Some conn \<Rightarrow> (cs, rpc conn req)
      | None \<Rightarrow> get_local req clk cs)"

definition server_Get :: "(GetRequest, GetResponse) rpc \<Rightarrow> (nat \<Rightarrow> instant) \<Rightarrow> GetRequest \<Rightarrow> CacheServer \<Rightarrow> GetResponse handled" where
  "server_Get rpc clk req = tracked (get_body rpc clk req)"

definition write_local :: "SetRequest \<Rightarrow> (nat \<Rightarrow> instant) \<Rightarrow> CacheServer \<Rightarrow> CacheServer" where
  "write_local req clk cs =
     (let ttl = ttl_of_ms (sq_TtlMs req) in
      case cs_mitigator cs of
        None \<Rightarrow> cs\<lparr>cs_store := store_Set (cs_store cs) (sq_Key req) (sq_Value req) ttl (clk 0) (clk 1)\<rparr>
      | Some m \<Rightarrow>
          if IsMitigated m (sq_Key req)
          then cs\<lparr>cs_store := WriteToShards m (cs_store cs) (sq_Key req) (sq_Value req) ttl clk\<rparr>
          else cs\<lparr>cs_store := store_Set (cs_store cs) (sq_Key req) (sq_Value req) ttl (clk 0) (clk 1)\<rparr>)"

definition set_body :: "(SetRequest, SetResponse) rpc \<Rightarrow> (nat \<Rightarrow> instant) \<Rightarrow> SetRequest \<Rightarrow> CacheServer \<Rightarrow> SetResponse handled" where
  "set_body rpc clk req cs =
     (case proxy IsPrimary cs (sq_Key req) of
        Some conn \<Rightarrow> (cs, rpc conn req)
      | None \<Rightarrow>
          reply (replicate_if_primary (\<lambda>r rm. ReplicateWrite r rm (sq_Key req) (sq_Value req) (sq_TtlMs req)) (sq_Key req)
            (write_local req clk cs)) \<lparr>sr_Success = True\<rparr>)"

definition server_Set :: "(SetRequest, SetResponse) rpc \<Rightarrow> (nat \<Rightarrow> instant) \<Rightarrow> SetRequest \<Rightarrow> CacheServer \<Rightarrow> SetResponse handled" where
  "server_Set rpc clk req = tracked (set_body rpc clk req)"

definition delete_body :: "(DeleteRequest, DeleteResponse) rpc \<Rightarrow> DeleteRequest \<Rightarrow> CacheServer \<Rightarrow> DeleteResponse handled" where
  "delete_body rpc req cs =
     (case proxy IsPrimary cs (dq_Key req) of
        Some conn \<Rightarrow> (cs, rpc conn req)
      | None \<Rightarrow>
          (case store_Delete (cs_store cs) (dq_Key req) of
             (s, existed) \<Rightarrow>
               reply (replicate_if_primary (\<lambda>r rm. ReplicateDelete r rm (dq_Key req)) (dq_Key req) (cs\<lparr>cs_store := s\<rparr>))
                 \<lparr>dr_Existed = existed\<rparr>))"

definition server_Delete :: "(DeleteRequest, DeleteResponse) rpc \<Rightarrow> DeleteRequest \<Rightarrow> CacheServer \<Rightarrow> DeleteResponse handled" where
  "server_Delete rpc req = tracked (delete_body rpc req)"

definition expire_body :: "(ExpireRequest, ExpireResponse) rpc \<Rightarrow> (nat \<Rightarrow> instant) \<Rightarrow> ExpireRequest \<Rightarrow> CacheServer \<Rightarrow>
    ExpireResponse handled" where
  "expire_body rpc clk req cs =
     (case proxy IsPrimary cs (eq_Key req) of
        Some conn \<Rightarrow> (cs, rpc conn req)
      | None \<Rightarrow>
          case store_Expire (cs_store cs) (eq_Key req) (ttl_of_ms (eq_TtlMs req)) (clk 0) (clk 1) of
            (s, found) \<Rightarrow>
              let cs1 = cs\<lparr>cs_store := s\<rparr>;
                  primary = (case cs_rm cs of None \<Rightarrow> False | Some rm \<Rightarrow> IsPrimary (cs_ring cs) rm (eq_Key req)) in
              if \<not> (found \<and> primary) then reply cs1 \<lparr>er_Found = found\<rparr>
              else case store_Get s (eq_Key req) (clk 2) (clk 3) of
                  (s', val, ok) \<Rightarrow>
                    let cs2 = cs1\<lparr>cs_store := s'\<rparr> in
                    reply (if ok then replicate_if_primary
                             (\<lambda>r rm. ReplicateWrite r rm (eq_Key req) val (eq_TtlMs req)) (eq_Key req) cs2 else cs2)
                      \<lparr>er_Found = found\<rparr>)"

definition server_Expire :: "(ExpireRequest, ExpireResponse) rpc \<Rightarrow> (nat \<Rightarrow> instant) \<Rightarrow> ExpireRequest \<Rightarrow> CacheServer \<Rightarrow>
    ExpireResponse handled" where
  "server_Expire rpc clk req = tracked (expire_body rpc clk req)"

definition server_Keys :: "scan_order \<Rightarrow> instant \<Rightarrow> KeysRequest \<Rightarrow> CacheServer \<Rightarrow> KeysResponse handled" where
  "server_Keys rng now req cs = (cs, Inr \<lparr>kr_Keys = store_Keys rng (cs_store cs) now\<rparr>)"

definition server_Ping :: "(nat \<Rightarrow> instant) \<Rightarrow> unit \<Rightarrow> CacheServer \<Rightarrow> PingResponse handled" where
  "server_Ping clk req cs =
     (cs, Inr \<lparr>pr_NodeId = cs_nodeID cs, pr_UptimeMs = Milliseconds (Sub (clk 0) (cs_startTime cs)),
               pr_KeysCount = int64 (int (store_Len (cs_store cs) (clk 1)))\<rparr>)"

definition server_Replicate :: "(nat \<Rightarrow> instant) \<Rightarrow> ReplicateRequest \<Rightarrow> CacheServer \<Rightarrow> ReplicateResponse handled" where
  "server_Replicate clk req cs =
     (let s = (case rq_Op req of
                 OpSet \<Rightarrow> store_Set (cs_store cs) (rq_Key req) (rq_Value req) (ttl_of_ms (rq_TtlMs req)) (clk 0) (clk 1)
               | OpDelete \<Rightarrow> fst (store_Delete (cs_store cs) (rq_Key req))
               | OpOther _ \<Rightarrow> cs_store cs)
      in (cs\<lparr>cs_store := s\<rparr>, Inr \<lparr>rr_Success = True\<rparr>))"

text \<open>\<open>send_ok i\<close> is whether the \<open>i\<close>-th \<open>stream.Send\<close> succeeded; the method returns no error either way.\<close>

definition transfer_step :: "(nat \<Rightarrow> bool) \<Rightarrow> KeyValuePair list \<Rightarrow> string \<Rightarrow> bytes \<Rightarrow> duration \<Rightarrow> KeyValuePair list \<times> bool" where
  "transfer_step send_ok sent key value ttl =
     (if \<not> send_ok (length sent) then (sent, False)
      else (sent @ [\<lparr>kv_Key = key, kv_Value = value, kv_TtlMs = Milliseconds ttl\<rparr>], True))"

definition TransferKeys :: "scan_order \<Rightarrow> (nat \<Rightarrow> bool) \<Rightarrow> instant \<Rightarrow> TransferKeysRequest \<Rightarrow> CacheServer \<Rightarrow> KeyValuePair list" where
  "TransferKeys rng send_ok now req cs = ForEach rng (cs_store cs) now (transfer_step send_ok) []"

section \<open>Interceptors and handler wrappers\<close>

type_synonym 'r interceptor = "(CacheServer \<Rightarrow> 'r handled) \<Rightarrow> CacheServer \<Rightarrow> 'r handled"

text \<open>\<open>loggingInterceptor\<close> writes a log line and returns what the handler returned.\<close>

definition loggingInterceptor :: "'r interceptor" where
  "loggingInterceptor handler cs = (case handler cs of (cs', resp) \<Rightarrow> (cs', resp))"

definition chain :: "FaultInjector option \<Rightarrow> (duration \<Rightarrow> bool) \<Rightarrow> 'r interceptor" where
  "chain fi ctx_alive handler =
     (case fi of
        None \<Rightarrow> loggingInterceptor handler
      | Some fi \<Rightarrow> loggingInterceptor (UnaryInterceptor fi ctx_alive handler))"

definition handle_unary :: "('q \<Rightarrow> CacheServer \<Rightarrow> 'r handled) \<Rightarrow> rpc_error + 'q \<Rightarrow> 'r interceptor option \<Rightarrow>
    CacheServer \<Rightarrow> 'r handled" where
  "handle_unary method dec interceptor cs =
     (case dec of
        Inl err \<Rightarrow> (cs, Inl err)
      | Inr req \<Rightarrow>
          (case interceptor of
             None \<Rightarrow> method req cs
           | Some ic \<Rightarrow> ic (method req) cs))"

definition handleGet :: "(GetRequest, GetResponse) rpc \<Rightarrow> (nat \<Rightarrow> instant) \<Rightarrow> rpc_error + GetRequest \<Rightarrow>
    GetResponse interceptor option \<Rightarrow> CacheServer \<Rightarrow> GetResponse handled" where
  "handleGet rpc clk = handle_unary (server_Get rpc clk)"

definition handleSet :: "(SetRequest, SetResponse) rpc \<Rightarrow> (nat \<Rightarrow> instant) \<Rightarrow> rpc_error + SetRequest \<Rightarrow>
    SetResponse interceptor option \<Rightarrow> CacheServer \<Rightarrow> SetResponse handled" where
  "handleSet rpc clk = handle_unary (server_Set rpc clk)"

definition handleDelete :: "(DeleteRequest, DeleteResponse) rpc \<Rightarrow> rpc_error + DeleteRequest \<Rightarrow>
    DeleteResponse interceptor option \<Rightarrow> CacheServer \<Rightarrow> DeleteResponse handled" where
  "handleDelete rpc = handle_unary (server_Delete rpc)"

definition handleExpire :: "(ExpireRequest, ExpireResponse) rpc \<Rightarrow> (nat \<Rightarrow> instant) \<Rightarrow> rpc_error + ExpireRequest \<Rightarrow>
    ExpireResponse interceptor option \<Rightarrow> CacheServer \<Rightarrow> ExpireResponse handled" where
  "handleExpire rpc clk = handle_unary (server_Expire rpc clk)"

definition handleKeys :: "scan_order \<Rightarrow> instant \<Rightarrow> rpc_error + KeysRequest \<Rightarrow>
    KeysResponse interceptor option \<Rightarrow> CacheServer \<Rightarrow> KeysResponse handled" where
  "handleKeys rng now = handle_unary (server_Keys rng now)"

definition handlePing :: "(nat \<Rightarrow> instant) \<Rightarrow> rpc_error + unit \<Rightarrow>
    PingResponse interceptor option \<Rightarrow> CacheServer \<Rightarrow> PingResponse handled" where
  "handlePing clk = handle_unary (server_Ping clk)"

definition handleReplicate :: "(nat \<Rightarrow> instant) \<Rightarrow> rpc_error + ReplicateRequest \<Rightarrow>
    ReplicateResponse interceptor option \<Rightarrow> CacheServer \<Rightarrow> ReplicateResponse handled" where
  "handleReplicate clk = handle_unary (server_Replicate clk)"

text \<open>\<open>handleTransferKeys\<close>: the request comes from \<open>stream.RecvMsg\<close>.\<close>

definition handleTransferKeys :: "scan_order \<Rightarrow> (nat \<Rightarrow> bool) \<Rightarrow> instant \<Rightarrow> rpc_error + TransferKeysRequest \<Rightarrow>
    CacheServer \<Rightarrow> KeyValuePair list \<times> rpc_error option" where
  "handleTransferKeys rng send_ok now recv cs =
     (case recv of Inl err \<Rightarrow> ([], Some err) | Inr req \<Rightarrow> (TransferKeys rng send_ok now req cs, None))"

section \<open>The service\<close>

text \<open>
  What arrives at the server: the method by name, with the outcome of decoding its request,
  dispatched through \<open>ServiceDesc\<close> with the interceptors that \<open>Start\<close> installs. \<open>env\<close> is what a
  call finds: peers, clock, iteration order and whether its context outlives a delay.
\<close>

record call_env =
  ce_clk :: "nat \<Rightarrow> instant"
  ce_rng :: scan_order
  ce_alive :: "duration \<Rightarrow> bool"
  ce_get :: "(GetRequest, GetResponse) rpc"
  ce_set :: "(SetRequest, SetResponse) rpc"
  ce_del :: "(DeleteRequest, DeleteResponse) rpc"
  ce_exp :: "(ExpireRequest, ExpireResponse) rpc"

datatype rpc_call = Call_Get "rpc_error + GetRequest" | Call_Set "rpc_error + SetRequest" |
  Call_Delete "rpc_error + DeleteRequest" | Call_Expire "rpc_error + ExpireRequest" |
  Call_Keys "rpc_error + KeysRequest" | Call_Ping "rpc_error + unit" | Call_Replicate "rpc_error + ReplicateRequest"

datatype rpc_reply = Reply_Get GetResponse | Reply_Set SetResponse | Reply_Delete DeleteResponse |
  Reply_Expire ExpireResponse | Reply_Keys KeysResponse | Reply_Ping PingResponse | Reply_Replicate ReplicateResponse

definition tag :: "('r \<Rightarrow> rpc_reply) \<Rightarrow> 'r handled \<Rightarrow> rpc_reply handled" where
  "tag f = (\<lambda>(cs, r). (cs, map_sum id f r))"

definition ServiceDesc :: "call_env \<Rightarrow> rpc_call \<Rightarrow> CacheServer \<Rightarrow> rpc_reply handled" where
  "ServiceDesc env call cs =
     (let fi = cs_fi cs; clk = ce_clk env; alive = ce_alive env in
      case call of
        Call_Get q \<Rightarrow> tag Reply_Get (handleGet (ce_get env) clk q (Some (chain fi alive)) cs)
      | Call_Set q \<Rightarrow> tag Reply_Set (handleSet (ce_set env) clk q (Some (chain fi alive)) cs)
      | Call_Delete q \<Rightarrow> tag Reply_Delete (handleDelete (ce_del env) q (Some (chain fi alive)) cs)
      | Call_Expire q \<Rightarrow> tag Reply_Expire (handleExpire (ce_exp env) clk q (Some (chain fi alive)) cs)
      | Call_Keys q \<Rightarrow> tag Reply_Keys (handleKeys (ce_rng env) (clk 0) q (Some (chain fi alive)) cs)
      | Call_Ping q \<Rightarrow> tag Reply_Ping (handlePing clk q (Some (chain fi alive)) cs)
      | Call_Replicate q \<Rightarrow> tag Reply_Replicate (handleReplicate clk q (Some (chain fi alive)) cs))"

definition ServiceDesc_stream :: "call_env \<Rightarrow> (nat \<Rightarrow> bool) \<Rightarrow> rpc_error + TransferKeysRequest \<Rightarrow> CacheServer \<Rightarrow>
    KeyValuePair list \<times> rpc_error option" where
  "ServiceDesc_stream env send_ok recv cs =
     (let handler = (\<lambda>_. handleTransferKeys (ce_rng env) send_ok (ce_clk env 0) recv cs) in
      case cs_fi cs of
        None \<Rightarrow> handler []
      | Some fi \<Rightarrow> StreamInterceptor fi (ce_alive env) handler [])"

text \<open>The interceptors let a call through.\<close>

definition no_fault :: "call_env \<Rightarrow> CacheServer \<Rightarrow> bool" where
  "no_fault env cs \<longleftrightarrow> (case cs_fi cs of None \<Rightarrow> True
     | Some fi \<Rightarrow> \<not> fi_failed fi \<and> (fi_latency fi > 0 \<longrightarrow> ce_alive env (fi_latency fi)))"

section \<open>Load tracking leaves no trace\<close>

definition set_loads :: "(string, NodeLoad) gomap \<Rightarrow> CacheServer \<Rightarrow> CacheServer" where
  "set_loads l cs = cs\<lparr>cs_ring := (cs_ring cs)\<lparr>loads := l\<rparr>\<rparr>"

definition loads_ok :: "Ring \<Rightarrow> bool" where
  "loads_ok r \<longleftrightarrow> (\<forall>k l. gm_get (loads r) k = Some l \<longrightarrow> int64 (lActive l) = lActive l)"

definition blind :: "(CacheServer \<Rightarrow> 'r handled) \<Rightarrow> bool" where
  "blind body \<longleftrightarrow> (\<forall>cs l. body (set_loads l cs) = apfst (set_loads l) (body cs) \<and>
     cs_nodeID (fst (body cs)) = cs_nodeID cs \<and> cs_hasRing (fst (body cs)) = cs_hasRing cs \<and>
     cs_ring (fst (body cs)) = cs_ring cs)"

lemma gm_put_same: "gm_get m k = Some v \<Longrightarrow> gm_put k v m = m"
  by (induction m) auto

lemma int64_back: "int64 a = a \<Longrightarrow> int64 (int64 (a + 1) - 1) = a"
  using signed_take_bit_diff [of 63 "a + 1" 1] by (simp add: int64_def)

lemma load_round: "loads_ok r \<Longrightarrow> DecrementLoad (IncrementLoad r x) x = r"
  by (cases "gm_get (loads r) x")
    (auto simp: IncrementLoad_def DecrementLoad_def add_load_def loads_ok_def int64_back gm_put_same)

lemma loads_frame [simp]:
  "GetNodes (r\<lparr>loads := l\<rparr>) key n = GetNodes r key n" "GetPrimary (r\<lparr>loads := l\<rparr>) key = GetPrimary r key"
  "IsPrimary (r\<lparr>loads := l\<rparr>) rm key = IsPrimary r rm key" "IsReplica (r\<lparr>loads := l\<rparr>) rm key = IsReplica r rm key"
  "ReplicateWrite (r\<lparr>loads := l\<rparr>) rm key v t = ReplicateWrite r rm key v t"
  "ReplicateDelete (r\<lparr>loads := l\<rparr>) rm key = ReplicateDelete r rm key"
proof -
  show nodes: "GetNodes (r\<lparr>loads := l\<rparr>) key n = GetNodes r key n" for key n
    by (simp add: GetNodes_def search_def Let_def)
  then show "GetPrimary (r\<lparr>loads := l\<rparr>) key = GetPrimary r key"
    "IsPrimary (r\<lparr>loads := l\<rparr>) rm key = IsPrimary r rm key" "IsReplica (r\<lparr>loads := l\<rparr>) rm key = IsReplica r rm key"
    "ReplicateWrite (r\<lparr>loads := l\<rparr>) rm key v t = ReplicateWrite r rm key v t"
    "ReplicateDelete (r\<lparr>loads := l\<rparr>) rm key = ReplicateDelete r rm key"
    by (simp_all add: GetPrimary_def IsPrimary_def IsReplica_def ReplicateWrite_def ReplicateDelete_def
        replicate_to_def getSecondaries_def)
qed

lemma set_loads_simps [simp]:
  "cs_store (set_loads l cs) = cs_store cs" "cs_rm (set_loads l cs) = cs_rm cs"
  "cs_ring (set_loads l cs) = (cs_ring cs)\<lparr>loads := l\<rparr>" "cs_nodeID (set_loads l cs) = cs_nodeID cs"
  "cs_mitigator (set_loads l cs) = cs_mitigator cs" "cs_detector (set_loads l cs) = cs_detector cs"
  "cs_panicked (set_loads l cs) = cs_panicked cs" "cs_hasRing (set_loads l cs) = cs_hasRing cs"
  "cs_sends (set_loads l cs) = cs_sends cs"
  by (simp_all add: set_loads_def)

lemma set_loads_update:
  "(set_loads l cs)\<lparr>cs_store := s\<rparr> = set_loads l (cs\<lparr>cs_store := s\<rparr>)"
  "(set_loads l cs)\<lparr>cs_detector := d\<rparr> = set_loads l (cs\<lparr>cs_detector := d\<rparr>)"
  "(set_loads l cs)\<lparr>cs_mitigator := m\<rparr> = set_loads l (cs\<lparr>cs_mitigator := m\<rparr>)"
  "(set_loads l cs)\<lparr>cs_rm := rm\<rparr> = set_loads l (cs\<lparr>cs_rm := rm\<rparr>)"
  "(set_loads l cs)\<lparr>cs_sends := q\<rparr> = set_loads l (cs\<lparr>cs_sends := q\<rparr>)"
  "(set_loads l cs)\<lparr>cs_panicked := b\<rparr> = set_loads l (cs\<lparr>cs_panicked := b\<rparr>)"
  by (simp_all add: set_loads_def)

lemma tracked_blind:
  assumes "blind body" "loads_ok (cs_ring cs)"
  shows "tracked body cs = body cs"
proof (cases "cs_hasRing cs")
  case True
  obtain cs' r where body: "body cs = (cs', r)" by (cases "body cs")
  let ?l = "loads (IncrementLoad (cs_ring cs) (cs_nodeID cs))"
  have ring: "IncrementLoad (cs_ring cs) (cs_nodeID cs) = (cs_ring cs)\<lparr>loads := ?l\<rparr>"
    by (simp add: IncrementLoad_def add_load_def split: option.split)
  then have "enter cs = set_loads ?l cs" using True by (simp add: enter_def set_loads_def)
  moreover have same: "body (set_loads ?l cs) = (set_loads ?l cs', r)" "cs_nodeID cs' = cs_nodeID cs"
    "cs_hasRing cs' = cs_hasRing cs" "cs_ring cs' = cs_ring cs"
    using assms(1) body unfolding blind_def by (metis apfst_conv fst_conv)+
  moreover have "leave (set_loads ?l cs') = cs'"
    using True same(2,3,4) load_round [OF assms(2), of "cs_nodeID cs"] ring
    by (simp add: leave_def) (simp add: set_loads_def)
  ultimately show ?thesis using body by (simp add: tracked_def)
next
  case False
  obtain cs' r where body: "body cs = (cs', r)" by (cases "body cs")
  with assms(1) have "cs_hasRing cs' = cs_hasRing cs" unfolding blind_def by (metis fst_conv)
  with False body show ?thesis by (simp add: tracked_def enter_def leave_def)
qed

lemma proxy_loads [simp]:
  "proxy IsReplica (set_loads l cs) key = proxy IsReplica cs key"
  "proxy IsPrimary (set_loads l cs) key = proxy IsPrimary cs key"
  by (simp_all add: proxy_def split: option.split)

lemma get_local_blind: "get_local req clk (set_loads l cs) = apfst (set_loads l) (get_local req clk cs)"
  by (simp add: get_local_def set_loads_update Let_def split: option.split prod.split)

lemma get_local_frame:
  "cs_nodeID (fst (get_local req clk cs)) = cs_nodeID cs" "cs_hasRing (fst (get_local req clk cs)) = cs_hasRing cs"
  "cs_ring (fst (get_local req clk cs)) = cs_ring cs" "cs_rm (fst (get_local req clk cs)) = cs_rm cs"
  "cs_panicked (fst (get_local req clk cs)) = cs_panicked cs" "cs_sends (fst (get_local req clk cs)) = cs_sends cs"
  by (simp_all add: get_local_def Let_def split: option.split prod.split)

lemma write_local_blind: "write_local req clk (set_loads l cs) = set_loads l (write_local req clk cs)"
  by (simp add: write_local_def set_loads_update Let_def split: option.split)

lemma write_local_frame [simp]:
  "cs_nodeID (write_local req clk cs) = cs_nodeID cs" "cs_hasRing (write_local req clk cs) = cs_hasRing cs"
  "cs_ring (write_local req clk cs) = cs_ring cs" "cs_rm (write_local req clk cs) = cs_rm cs"
  "cs_panicked (write_local req clk cs) = cs_panicked cs" "cs_sends (write_local req clk cs) = cs_sends cs"
  "cs_mitigator (write_local req clk cs) = cs_mitigator cs"
  by (simp_all add: write_local_def Let_def split: option.split)

lemma replicate_blind:
  assumes "\<And>r rm l. repl (r\<lparr>loads := l\<rparr>) rm = repl r rm"
  shows "replicate_if_primary repl key (set_loads l cs) = set_loads l (replicate_if_primary repl key cs)"
  by (simp add: replicate_if_primary_def assms set_loads_update split: option.split prod.split)

lemma replicate_frame [simp]:
  "cs_nodeID (replicate_if_primary repl key cs) = cs_nodeID cs" "cs_hasRing (replicate_if_primary repl key cs) = cs_hasRing cs"
  "cs_ring (replicate_if_primary repl key cs) = cs_ring cs" "cs_store (replicate_if_primary repl key cs) = cs_store cs"
  "cs_mitigator (replicate_if_primary repl key cs) = cs_mitigator cs"
  by (simp_all add: replicate_if_primary_def split: option.split prod.split)

lemma reply_blind [simp]: "reply (set_loads l cs) resp = apfst (set_loads l) (reply cs resp)"
  by (simp add: reply_def)

lemma fst_reply [simp]: "fst (reply cs resp) = cs"
  by (simp add: reply_def)

lemma bodies_blind:
  "blind (get_body rpc1 clk q1)" "blind (set_body rpc2 clk q2)" "blind (delete_body rpc3 q3)" "blind (expire_body rpc4 clk q4)"
proof -
  show "blind (get_body rpc1 clk q1)"
    by (auto simp: get_body_def blind_def get_local_blind get_local_frame split: option.split)
  show "blind (set_body rpc2 clk q2)"
    by (auto simp: set_body_def blind_def write_local_blind replicate_blind split: option.split)
  show "blind (delete_body rpc3 q3)"
    by (auto simp: delete_body_def blind_def set_loads_update replicate_blind split: option.split prod.split)
  show "blind (expire_body rpc4 clk q4)"
    by (auto simp: expire_body_def blind_def set_loads_update replicate_blind Let_def split: option.split prod.split)
qed

lemma server_Get_eq:
  assumes "loads_ok (cs_ring cs)"
  shows "server_Get rpc clk req cs =
    (case proxy IsReplica cs (gq_Key req) of Some conn \<Rightarrow> (cs, rpc conn req) | None \<Rightarrow> get_local req clk cs)"
  unfolding server_Get_def tracked_blind [OF bodies_blind(1) assms] by (simp add: get_body_def)

lemma server_Set_eq:
  assumes "loads_ok (cs_ring cs)"
  shows "server_Set rpc clk req cs =
    (case proxy IsPrimary cs (sq_Key req) of Some conn \<Rightarrow> (cs, rpc conn req)
     | None \<Rightarrow> reply (replicate_if_primary (\<lambda>r rm. ReplicateWrite r rm (sq_Key req) (sq_Value req) (sq_TtlMs req))
         (sq_Key req) (write_local req clk cs)) \<lparr>sr_Success = True\<rparr>)"
  unfolding server_Set_def tracked_blind [OF bodies_blind(2) assms] by (simp add: set_body_def)

lemma server_Delete_eq:
  assumes "loads_ok (cs_ring cs)"
  shows "server_Delete rpc req cs =
    (case proxy IsPrimary cs (dq_Key req) of Some conn \<Rightarrow> (cs, rpc conn req)
     | None \<Rightarrow> reply (replicate_if_primary (\<lambda>r rm. ReplicateDelete r rm (dq_Key req)) (dq_Key req)
         (cs\<lparr>cs_store := fst (store_Delete (cs_store cs) (dq_Key req))\<rparr>))
         \<lparr>dr_Existed = snd (store_Delete (cs_store cs) (dq_Key req))\<rparr>)"
  unfolding server_Delete_def tracked_blind [OF bodies_blind(3) assms] by (simp add: delete_body_def split: option.split prod.split)

lemma server_Expire_eq:
  assumes "loads_ok (cs_ring cs)"
  shows "server_Expire rpc clk req cs =
    (case proxy IsPrimary cs (eq_Key req) of Some conn \<Rightarrow> (cs, rpc conn req)
     | None \<Rightarrow>
         case store_Expire (cs_store cs) (eq_Key req) (ttl_of_ms (eq_TtlMs req)) (clk 0) (clk 1) of
           (s, found) \<Rightarrow>
             let cs1 = cs\<lparr>cs_store := s\<rparr>;
                 primary = (case cs_rm cs of None \<Rightarrow> False | Some rm \<Rightarrow> IsPrimary (cs_ring cs) rm (eq_Key req)) in
             if \<not> (found \<and> primary) then reply cs1 \<lparr>er_Found = found\<rparr>
             else case store_Get s (eq_Key req) (clk 2) (clk 3) of
                 (s', val, ok) \<Rightarrow>
                   let cs2 = cs1\<lparr>cs_store := s'\<rparr> in
                   reply (if ok then replicate_if_primary
                            (\<lambda>r rm. ReplicateWrite r rm (eq_Key req) val (eq_TtlMs req)) (eq_Key req) cs2 else cs2)
                     \<lparr>er_Found = found\<rparr>)"
  unfolding server_Expire_def tracked_blind [OF bodies_blind(4) assms] by (simp add: expire_body_def)

section \<open>The invariant of a node\<close>

definition node_inv :: "CacheServer \<Rightarrow> bool" where
  "node_inv cs \<longleftrightarrow> store_inv (cs_store cs) \<and> ring_inv (cs_ring cs) \<and> loads_ok (cs_ring cs) \<and>
     \<not> cs_panicked cs \<and> cms_inv (sketch (cs_detector cs)) \<and>
     (\<forall>rm. cs_rm cs = Some rm \<longrightarrow> rm_selfID rm = cs_nodeID cs \<and> 1 \<le> rm_replicaCount rm)"

lemma node_inv_loads: "node_inv cs \<Longrightarrow> loads_ok (cs_ring cs)"
  by (simp add: node_inv_def)

lemma replicate_to_primary:
  assumes "ring_inv r" "IsPrimary r rm key" "1 \<le> rm_replicaCount rm"
  shows "\<exists>q. replicate_to r rm key mk = Some (rm\<lparr>rm_sequence := q\<rparr>, map (\<lambda>t. (t, mk q)) (tl (GetReplicaSet r rm key)))"
proof (cases "tl (GetReplicaSet r rm key) = []")
  case True
  then show ?thesis
    using secondaries_of_primary [OF assms] by (intro exI [of _ "rm_sequence rm"]) (simp add: replicate_to_def)
next
  case False
  then show ?thesis
    using secondaries_of_primary [OF assms]
    by (intro exI [of _ "rm_sequence rm + 1"]) (simp add: replicate_to_def Let_def del: length_tl)
qed

lemma WriteToShards_inv: "store_inv s \<Longrightarrow> store_inv (WriteToShards m s key value ttl clk)"
  by (simp add: WriteToShards_def Let_def store_Set_inv write_shards_inv)

lemma cms_Increment_inv: "cms_inv cms \<Longrightarrow> cms_inv (cms_Increment cms key)"
  using cms_apply_inv [of cms "Inc key"] by simp

lemma CheckAndMitigate_inv:
  assumes "CheckAndMitigate d m s key clk = (d', m', s', hot)" "store_inv s" "cms_inv (sketch d)"
  shows "store_inv s' \<and> cms_inv (sketch d')"
proof -
  have "store_inv (applySplitting m s key clk)"
    using assms(2) store_Get_inv [OF assms(2), of key "clk 0" "clk 1"]
    by (auto simp: applySplitting_def write_shards_inv split: prod.splits)
  with assms show ?thesis
    by (auto simp: CheckAndMitigate_def RecordAccess_def cms_Increment_inv Let_def split: if_splits prod.splits)
qed

lemma get_local_inv:
  assumes "node_inv cs"
  shows "node_inv (fst (get_local req clk cs))"
proof -
  have "store_inv (fst (store_Get (cs_store cs) (gq_Key req) (clk 0) (clk 1)))"
    using assms by (simp add: node_inv_def store_Get_inv)
  with assms show ?thesis
    using CheckAndMitigate_inv
    by (auto simp: get_local_def node_inv_def Let_def split: option.split prod.splits) (blast+)?
qed

lemma write_local_inv: "node_inv cs \<Longrightarrow> node_inv (write_local req clk cs)"
  by (simp add: write_local_def node_inv_def store_Set_inv WriteToShards_inv Let_def split: option.split)

lemma replicate_inv:
  assumes "node_inv cs"
    and "\<And>rm. cs_rm cs = Some rm \<Longrightarrow> IsPrimary (cs_ring cs) rm key \<Longrightarrow>
      \<exists>q sends. repl (cs_ring cs) rm = Some (rm\<lparr>rm_sequence := q\<rparr>, sends)"
  shows "node_inv (replicate_if_primary repl key cs)"
  using assms by (fastforce simp: replicate_if_primary_def node_inv_def split: option.split)

lemma replicate_write_inv:
  assumes "node_inv cs"
  shows "node_inv (replicate_if_primary (\<lambda>r rm. ReplicateWrite r rm key v t) key cs)"
    "node_inv (replicate_if_primary (\<lambda>r rm. ReplicateDelete r rm key) key cs)"
proof -
  have ok: "\<exists>q sends. replicate_to (cs_ring cs) rm key mk = Some (rm\<lparr>rm_sequence := q\<rparr>, sends)"
    if "cs_rm cs = Some rm" "IsPrimary (cs_ring cs) rm key" for rm mk
    using that assms replicate_to_primary [of "cs_ring cs" rm key mk] by (auto simp: node_inv_def)
  then show "node_inv (replicate_if_primary (\<lambda>r rm. ReplicateWrite r rm key v t) key cs)"
    unfolding ReplicateWrite_def by (rule replicate_inv [OF assms])
  show "node_inv (replicate_if_primary (\<lambda>r rm. ReplicateDelete r rm key) key cs)"
    unfolding ReplicateDelete_def by (rule replicate_inv [OF assms]) (rule ok)
qed

lemma node_inv_store: "node_inv cs \<Longrightarrow> store_inv s \<Longrightarrow> node_inv (cs\<lparr>cs_store := s\<rparr>)"
  by (simp add: node_inv_def)

lemma server_inv:
  assumes inv: "node_inv cs"
  shows "node_inv (fst (server_Get gpc clk gq cs))" "node_inv (fst (server_Set spc clk sq cs))"
    "node_inv (fst (server_Delete dpc dq cs))" "node_inv (fst (server_Expire epc clk eq cs))"
    "node_inv (fst (server_Keys rng now kq cs))" "node_inv (fst (server_Ping clk u cs))"
    "node_inv (fst (server_Replicate clk rq cs))"
proof -
  note loads = node_inv_loads [OF inv] and store = inv [unfolded node_inv_def, THEN conjunct1]
  show "node_inv (fst (server_Get gpc clk gq cs))"
    using inv by (simp add: server_Get_eq [OF loads] get_local_inv split: option.split)
  show "node_inv (fst (server_Set spc clk sq cs))"
    using inv by (simp add: server_Set_eq [OF loads] replicate_write_inv write_local_inv split: option.split)
  show "node_inv (fst (server_Delete dpc dq cs))"
    using inv store
    by (simp add: server_Delete_eq [OF loads] replicate_write_inv node_inv_store store_Delete_inv split: option.split)
  have "store_inv (fst (store_Expire (cs_store cs) (eq_Key eq) (ttl_of_ms (eq_TtlMs eq)) (clk 0) (clk 1)))"
    using store by (rule store_Expire_inv)
  then show "node_inv (fst (server_Expire epc clk eq cs))"
    using inv store_Get_inv [of "fst (store_Expire (cs_store cs) (eq_Key eq) (ttl_of_ms (eq_TtlMs eq)) (clk 0) (clk 1))"]
    by (auto simp: server_Expire_eq [OF loads] Let_def intro!: replicate_write_inv node_inv_store split: option.split prod.split)
      (metis fst_conv)+
  show "node_inv (fst (server_Keys rng now kq cs))" "node_inv (fst (server_Ping clk u cs))"
    using inv by (simp_all add: server_Keys_def server_Ping_def)
  show "node_inv (fst (server_Replicate clk rq cs))"
    using inv store by (simp add: server_Replicate_def Let_def node_inv_store store_Set_inv store_Delete_inv split: Operation.split)
qed

lemma server_ring:
  assumes "loads_ok (cs_ring cs)"
  shows "cs_ring (fst (server_Get gpc clk gq cs)) = cs_ring cs" "cs_ring (fst (server_Set spc clk sq cs)) = cs_ring cs"
    "cs_ring (fst (server_Delete dpc dq cs)) = cs_ring cs" "cs_ring (fst (server_Expire epc clk eq cs)) = cs_ring cs"
  by (simp_all add: server_Get_eq server_Set_eq server_Delete_eq server_Expire_eq assms get_local_frame Let_def
      split: option.split prod.split)

lemma handle_unary_cases:
  assumes "\<And>req. P (method req cs)" "\<And>err. P (cs, Inl err)"
  shows "P (handle_unary method dec (Some (chain fi alive)) cs)"
  using assms
  by (auto simp: handle_unary_def chain_def loggingInterceptor_def UnaryInterceptor_def Let_def split: sum.split option.split)

lemma handle_unary_faults:
  "handle_unary method (Inl err) ic cs = (cs, Inl err)"
  "IsFailed fi \<Longrightarrow> handle_unary method (Inr req) (Some (chain (Some fi) alive)) cs = (cs, Inl crash_error)"
  "\<not> IsFailed fi \<Longrightarrow> 0 < GetLatency fi \<Longrightarrow> \<not> alive (GetLatency fi) \<Longrightarrow>
    handle_unary method (Inr req) (Some (chain (Some fi) alive)) cs = (cs, Inl Ctx_done)"
  by (simp_all add: handle_unary_def chain_def loggingInterceptor_def UnaryInterceptor_def IsFailed_def GetLatency_def Let_def)

lemma fst_tag [simp]: "fst (tag f h) = fst h"
  by (simp add: tag_def split: prod.split)

lemmas handle_defs = handleGet_def handleSet_def handleDelete_def handleExpire_def handleKeys_def handlePing_def
  handleReplicate_def

lemma ServiceDesc_inv:
  assumes "node_inv cs"
  shows "node_inv (fst (ServiceDesc env call cs)) \<and> cs_ring (fst (ServiceDesc env call cs)) = cs_ring cs"
proof -
  note ring = server_ring [OF node_inv_loads [OF assms]]
  note cases = handle_unary_cases [where P = "\<lambda>h. node_inv (fst h) \<and> cs_ring (fst h) = cs_ring cs"]
  have rest: "cs_ring (fst (server_Keys rng now kq cs)) = cs_ring cs" "cs_ring (fst (server_Ping clk u cs)) = cs_ring cs"
    "cs_ring (fst (server_Replicate clk rq cs)) = cs_ring cs" for rng now kq clk u rq
    by (simp_all add: server_Keys_def server_Ping_def server_Replicate_def Let_def)
  show ?thesis
    unfolding ServiceDesc_def Let_def handle_defs
    by (cases call) (simp_all only: rpc_call.case fst_tag, (rule cases; simp add: assms server_inv ring rest)+)
qed

section \<open>Properties\<close>

text \<open>
  C10. Requests keep a node well formed. Whatever call arrives, decodable or not, forwarded or
  not, the server does not panic and leaves a node that satisfies the invariant: each key in
  the shard of its hash, the ring consistent, the sketch rectangular. The load taken on entry
  is given back on every path, so the ring is exactly what it was.
\<close>
theorem requests_keep_node_inv:
  assumes "node_inv cs"
  shows "node_inv (fst (ServiceDesc env call cs)) \<and> cs_ring (fst (ServiceDesc env call cs)) = cs_ring cs"
  using assms by (rule ServiceDesc_inv)

text \<open>What decoding made of the request of a call.\<close>

fun decode_error :: "rpc_call \<Rightarrow> rpc_error option" where
  "decode_error (Call_Get q) = (case q of Inl e \<Rightarrow> Some e | Inr _ \<Rightarrow> None)"
| "decode_error (Call_Set q) = (case q of Inl e \<Rightarrow> Some e | Inr _ \<Rightarrow> None)"
| "decode_error (Call_Delete q) = (case q of Inl e \<Rightarrow> Some e | Inr _ \<Rightarrow> None)"
| "decode_error (Call_Expire q) = (case q of Inl e \<Rightarrow> Some e | Inr _ \<Rightarrow> None)"
| "decode_error (Call_Keys q) = (case q of Inl e \<Rightarrow> Some e | Inr _ \<Rightarrow> None)"
| "decode_error (Call_Ping q) = (case q of Inl e \<Rightarrow> Some e | Inr _ \<Rightarrow> None)"
| "decode_error (Call_Replicate q) = (case q of Inl e \<Rightarrow> Some e | Inr _ \<Rightarrow> None)"


section \<open>Witnesses\<close>

text \<open>The node \<open>n1\<close> of a ring of two, connected to the other.\<close>

definition demo_node :: "string \<Rightarrow> string \<Rightarrow> CacheServer" where
  "demo_node self peer = NewCacheServer self empty_store demo_ring True
     (Some (fst (ConnectToPeer (NewReplicationManager self 3) peer peer True)))
     (Some NewFaultInjector) (Some (NewMitigator 4)) (NewDetector 100 0) 0"

lemma demo_loads: "loads_ok demo_ring"
  by (auto simp: loads_ok_def demo_ring_def AddNode_def HasNode_def NewRing_def int64_def split: if_splits)

lemma demo_node_inv: "node_inv (demo_node self peer)"
  by (simp add: node_inv_def demo_node_def NewCacheServer_def empty_store_inv demo_ring_inv demo_loads
      NewDetector_def cms_New_inv ConnectToPeer_def NewReplicationManager_def)

definition demo_env :: call_env where
  "demo_env = \<lparr>ce_clk = int, ce_rng = \<lambda>_ m. m, ce_alive = \<lambda>_. True,
     ce_get = \<lambda>_ _. Inl Ctx_done, ce_set = \<lambda>_ _. Inl Ctx_done, ce_del = \<lambda>_ _. Inl Ctx_done, ce_exp = \<lambda>_ _. Inl Ctx_done\<rparr>"

theorem requests_keep_node_inv_witness:
  "node_inv (fst (ServiceDesc demo_env (Call_Set (Inr \<lparr>sq_Key = ''k'', sq_Value = [1], sq_TtlMs = 0\<rparr>)) (demo_node ''n1'' ''n2'')))"
  using requests_keep_node_inv [OF demo_node_inv] by blast


end
