(* ===== verification/Cluster.thy ===== *)
theory Cluster
  imports Server
begin

text \<open>
  Several servers together: a client's request to one node, passed on to the primary of its
  key over the connection that the replication manager keeps, and the replication requests
  that the primary sends to the other replicas.

  A cluster maps node ids to servers. \<open>host\<close> says which node listens at an address.
\<close>

section \<open>Calls through a node\<close>

type_synonym cluster = "string \<Rightarrow> CacheServer"

text \<open>
  \<open>cluster_call\<close> runs a method at node \<open>a\<close>. When \<open>a\<close> passes the request on, the peer runs the
  method and its reply is what \<open>conn.Invoke\<close> returns at \<open>a\<close>; a peer that would pass it on again
  gets no answer here, which the theorems show does not happen.
\<close>

definition no_answer :: "('q, 'r) rpc" where
  "no_answer conn req = Inl (Rpc_failed ''no answer'')"

definition cluster_call :: "(Ring \<Rightarrow> ReplicationManager \<Rightarrow> string \<Rightarrow> bool) \<Rightarrow>
    (('q, 'r) rpc \<Rightarrow> CacheServer \<Rightarrow> 'r handled) \<Rightarrow> (string \<Rightarrow> string) \<Rightarrow> string \<Rightarrow> string \<Rightarrow> cluster \<Rightarrow>
    cluster \<times> (rpc_error + 'r)" where
  "cluster_call owns method host key a C =
     (case proxy owns (C a) key of
        None \<Rightarrow> (case method no_answer (C a) of (cs, r) \<Rightarrow> (C(a := cs), r))
      | Some addr \<Rightarrow>
          (case method no_answer (C (host addr)) of
             (cp, r) \<Rightarrow>
               let C' = C(host addr := cp) in
               case method (\<lambda>_ _. r) (C' a) of (ca, r') \<Rightarrow> (C'(a := ca), r')))"

definition cluster_Set :: "(string \<Rightarrow> string) \<Rightarrow> (nat \<Rightarrow> instant) \<Rightarrow> SetRequest \<Rightarrow> string \<Rightarrow> cluster \<Rightarrow>
    cluster \<times> (rpc_error + SetResponse)" where
  "cluster_Set host clk req = cluster_call IsPrimary (\<lambda>rpc. server_Set rpc clk req) host (sq_Key req)"

definition cluster_Get :: "(string \<Rightarrow> string) \<Rightarrow> (nat \<Rightarrow> instant) \<Rightarrow> GetRequest \<Rightarrow> string \<Rightarrow> cluster \<Rightarrow>
    cluster \<times> (rpc_error + GetResponse)" where
  "cluster_Get host clk req = cluster_call IsReplica (\<lambda>rpc. server_Get rpc clk req) host (gq_Key req)"

text \<open>
  The members agree on the ring, each knows itself by its name and has a connection to every
  other member.
\<close>

definition member_ok :: "(string \<Rightarrow> string) \<Rightarrow> string set \<Rightarrow> VNode list \<Rightarrow> string \<Rightarrow> CacheServer \<Rightarrow> bool" where
  "member_ok host M vs a cs \<longleftrightarrow> node_inv cs \<and> cs_nodeID cs = a \<and> fst ` set (nodes (cs_ring cs)) = M \<and> vnodes (cs_ring cs) = vs \<and>
     (\<exists>rm. cs_rm cs = Some rm \<and> (\<forall>b \<in> M. b \<noteq> a \<longrightarrow> (\<exists>addr. GetPeerConn rm b = Some addr \<and> host addr = b)))"

definition cluster_ok :: "(string \<Rightarrow> string) \<Rightarrow> string set \<Rightarrow> cluster \<Rightarrow> bool" where
  "cluster_ok host M C \<longleftrightarrow> (\<exists>vs. \<forall>a \<in> M. member_ok host M vs a (C a))"

lemma member_ring:
  assumes "member_ok host M vs a cs"
  shows "ring_inv (cs_ring cs)" "fst ` set (nodes (cs_ring cs)) = M"
    "GetNodes (cs_ring cs) key n = take n (nub (map vNodeID (clockwise vs (hashKey key))))"
  using assms by (simp_all add: member_ok_def node_inv_def GetNodes_pref pref_def)

lemma cluster_primary:
  assumes "cluster_ok host M C" "m \<in> M"
  obtains p where "p \<in> M" "\<And>a. a \<in> M \<Longrightarrow> GetPrimary (cs_ring (C a)) key = Some p"
proof -
  obtain vs where vs: "\<And>a. a \<in> M \<Longrightarrow> member_ok host M vs a (C a)" using assms(1) by (auto simp: cluster_ok_def)
  note ring = member_ring [OF vs]
  have "fst ` set (nodes (cs_ring (C m))) \<noteq> {}" unfolding ring(2) [OF assms(2)] using assms(2) by auto
  then obtain p rest where p: "GetNodes (cs_ring (C m)) key 1 = p # rest" "GetNodes (cs_ring (C m)) key 1 = [p]"
    "p \<in> fst ` set (nodes (cs_ring (C m)))" "p \<notin> set rest"
    by (rule rt.route_head [OF ring(1) [OF assms(2)] _ zero_less_one])
  show thesis
  proof
    show "p \<in> M" using p(3) unfolding ring(2) [OF assms(2)] .
    fix a assume a: "a \<in> M"
    have "GetNodes (cs_ring (C a)) key 1 = GetNodes (cs_ring (C m)) key 1"
      unfolding ring(3) [OF a] ring(3) [OF assms(2)] ..
    then show "GetPrimary (cs_ring (C a)) key = Some p"
      using GetPrimary_single [OF ring(1) [OF a]] p(2) by simp
  qed
qed

lemma cluster_okD:
  assumes "cluster_ok host M C" "a \<in> M"
  obtains rm where "node_inv (C a)" "cs_nodeID (C a) = a" "cs_rm (C a) = Some rm" "rm_selfID rm = a"
    "\<And>b. b \<in> M \<Longrightarrow> b \<noteq> a \<Longrightarrow> \<exists>addr. GetPeerConn rm b = Some addr \<and> host addr = b"
proof -
  obtain vs where "member_ok host M vs a (C a)" using assms by (auto simp: cluster_ok_def)
  then show thesis using that by (auto simp: member_ok_def node_inv_def)
qed

lemma cluster_proxy:
  assumes "cluster_ok host M C" "a \<in> M" "p \<in> M" "GetPrimary (cs_ring (C a)) key = Some p"
  shows "a = p \<Longrightarrow> proxy owns (C a) key = None"
    and "a \<noteq> p \<Longrightarrow> \<not> owns (cs_ring (C a)) (the (cs_rm (C a))) key \<Longrightarrow> \<exists>addr. proxy owns (C a) key = Some addr \<and> host addr = p"
proof -
  obtain rm where a: "cs_nodeID (C a) = a" "cs_rm (C a) = Some rm"
    "\<And>b. b \<in> M \<Longrightarrow> b \<noteq> a \<Longrightarrow> \<exists>addr. GetPeerConn rm b = Some addr \<and> host addr = b"
    by (rule cluster_okD [OF assms(1,2)]) blast
  show "a = p \<Longrightarrow> proxy owns (C a) key = None" using a(1,2) assms(4) by (simp add: proxy_def)
  show "\<exists>addr. proxy owns (C a) key = Some addr \<and> host addr = p" if "a \<noteq> p" "\<not> owns (cs_ring (C a)) (the (cs_rm (C a))) key"
    using that a(1,2) a(3) [OF assms(3)] assms(4) by (auto simp: proxy_def)
qed

text \<open>Whether or not node \<open>a\<close> passes the request on, the primary runs the method.\<close>

lemma cluster_call_primary:
  assumes ok: "cluster_ok host M C" "a \<in> M" "p \<in> M" "GetPrimary (cs_ring (C a)) key = Some p"
    and "a = p \<or> \<not> owns (cs_ring (C a)) (the (cs_rm (C a))) key"
    and pass: "\<And>rpc addr. proxy owns (C a) key = Some addr \<Longrightarrow> method rpc (C a) = (C a, rpc addr req)"
  shows "cluster_call owns method host key a C = (C(p := fst (method no_answer (C p))), snd (method no_answer (C p)))"
proof (cases "a = p")
  case True
  with cluster_proxy(1) [OF ok] show ?thesis by (simp add: cluster_call_def split_def)
next
  case False
  with assms(5) cluster_proxy(2) [OF ok False] obtain addr where addr: "proxy owns (C a) key = Some addr" "host addr = p" by blast
  with False pass [OF addr(1)] show ?thesis by (simp add: cluster_call_def split_def Let_def fun_upd_twist fun_upd_idem)
qed

lemma cluster_ok_update:
  assumes "cluster_ok host M C" "p \<in> M" "node_inv cs" "cs_nodeID cs = cs_nodeID (C p)" "cs_ring cs = cs_ring (C p)"
    and "\<And>rm. cs_rm (C p) = Some rm \<Longrightarrow> \<exists>q. cs_rm cs = Some (rm\<lparr>rm_sequence := q\<rparr>)"
  shows "cluster_ok host M (C(p := cs))"
proof -
  obtain vs where vs: "\<And>a. a \<in> M \<Longrightarrow> member_ok host M vs a (C a)" using assms(1) by (auto simp: cluster_ok_def)
  obtain rm q where "cs_rm (C p) = Some rm" "cs_rm cs = Some (rm\<lparr>rm_sequence := q\<rparr>)"
    using vs [OF assms(2)] assms(6) by (auto simp: member_ok_def)
  then have "member_ok host M vs p cs"
    using vs [OF assms(2)] assms(3-5) by (auto simp: member_ok_def GetPeerConn_def)
  with vs show ?thesis by (auto simp: cluster_ok_def intro!: exI [of _ vs])
qed

section \<open>Reading one's writes\<close>

lemma write_local_lookup:
  assumes "store_inv (cs_store cs)"
  shows "lookup_entry (cs_store (write_local req clk cs)) (sq_Key req) =
    Some (mk_entry (sq_Value req) (ttl_of_ms (sq_TtlMs req)) (clk 0) (clk 1))"
proof -
  have "sq_Key req \<notin> ShardKeyName (sq_Key req) ` {0..<n}" for n by (auto dest: sym)
  then show ?thesis
    using assms
    by (simp add: write_local_def WriteToShards_def Let_def view_Set store_Set_inv write_shards_other split: option.split)
qed

lemma get_local_live:
  assumes "live_value (lookup_entry (cs_store cs)) (gq_Key req) (clk 0) = Some v"
  shows "\<exists>resp. snd (get_local req clk cs) = Inr resp \<and> gr_Found resp \<and> gr_Value resp = v \<and> gr_Key resp = gq_Key req"
proof -
  obtain s where "store_Get (cs_store cs) (gq_Key req) (clk 0) (clk 1) = (s, v, True)"
    using snd_store_Get [of "cs_store cs" "gq_Key req" "clk 0" "clk 1"] assms
    by (cases "store_Get (cs_store cs) (gq_Key req) (clk 0) (clk 1)") auto
  then show ?thesis by (auto simp: get_local_def Let_def split: option.split prod.split)
qed

lemma server_Set_primary:
  assumes "node_inv cs" "proxy IsPrimary cs (sq_Key req) = None"
  shows "snd (server_Set rpc clk req cs) = Inr \<lparr>sr_Success = True\<rparr>"
    "cs_store (fst (server_Set rpc clk req cs)) = cs_store (write_local req clk cs)"
proof -
  note eq = server_Set_eq [OF node_inv_loads [OF assms(1)], of rpc clk req]
  have "\<not> cs_panicked (fst (server_Set rpc clk req cs))"
    using server_inv(2) [OF assms(1), of rpc clk req] by (simp add: node_inv_def)
  then show "snd (server_Set rpc clk req cs) = Inr \<lparr>sr_Success = True\<rparr>"
    "cs_store (fst (server_Set rpc clk req cs)) = cs_store (write_local req clk cs)"
    using assms(2) by (simp_all add: eq reply_def)
qed

lemma replicate_rm:
  assumes "cs_rm cs = Some rm"
  shows "\<exists>q. cs_rm (replicate_if_primary (\<lambda>r rm. ReplicateWrite r rm k v t) key cs) = Some (rm\<lparr>rm_sequence := q\<rparr>)"
proof -
  have "\<exists>q. rm' = rm\<lparr>rm_sequence := q\<rparr>" if "ReplicateWrite r rm k v t = Some (rm', sends)" for r rm' sends
    using that by (auto simp: ReplicateWrite_def replicate_to_def Let_def split: option.splits if_splits)
      (metis ReplicationManager.surjective ReplicationManager.update_convs(3))
  moreover have "\<exists>q. rm = rm\<lparr>rm_sequence := q\<rparr>" by (rule exI [of _ "rm_sequence rm"]) simp
  ultimately show ?thesis using assms
    by (auto simp: replicate_if_primary_def split: option.split)
qed

lemma server_Set_frame:
  assumes "node_inv cs" "proxy IsPrimary cs (sq_Key req) = None"
  shows "cs_nodeID (fst (server_Set rpc clk req cs)) = cs_nodeID cs"
    "cs_rm cs = Some rm \<Longrightarrow> \<exists>q. cs_rm (fst (server_Set rpc clk req cs)) = Some (rm\<lparr>rm_sequence := q\<rparr>)"
  using assms(2) by (simp_all add: server_Set_eq [OF node_inv_loads [OF assms(1)]] replicate_rm)


section \<open>Replicas follow the primary\<close>

text \<open>
  A run of writes at the primary, and the delivery of the requests it sent to one replica, in
  the order they were started. The replica handles request \<open>q\<close> with the clock \<open>clk q\<close>.
\<close>

datatype cache_write = W_Set SetRequest | W_Delete DeleteRequest

fun write_key :: "cache_write \<Rightarrow> string" where
  "write_key (W_Set q) = sq_Key q"
| "write_key (W_Delete q) = dq_Key q"

fun write_value :: "cache_write \<Rightarrow> bytes option" where
  "write_value (W_Set q) = Some (sq_Value q)"
| "write_value (W_Delete q) = None"

fun do_write :: "CacheServer \<Rightarrow> (nat \<Rightarrow> instant) \<times> cache_write \<Rightarrow> CacheServer" where
  "do_write cs (clk, W_Set q) = fst (server_Set no_answer clk q cs)"
| "do_write cs (clk, W_Delete q) = fst (server_Delete no_answer q cs)"

definition deliver :: "(ReplicateRequest \<Rightarrow> nat \<Rightarrow> instant) \<Rightarrow> CacheServer \<Rightarrow> pending list \<Rightarrow> CacheServer" where
  "deliver clk cs sends =
     foldl (\<lambda>cs (t, q). if t = cs_nodeID cs then fst (server_Replicate (clk q) q cs) else cs) cs sends"

definition stored :: "CacheServer \<Rightarrow> string \<Rightarrow> bytes option" where
  "stored cs k = map_option eValue (lookup_entry (cs_store cs) k)"

fun write_request :: "ReplicationManager \<Rightarrow> cache_write \<Rightarrow> u64 \<Rightarrow> ReplicateRequest" where
  "write_request rm (W_Set q) seq = \<lparr>rq_Key = sq_Key q, rq_Value = sq_Value q, rq_TtlMs = sq_TtlMs q, rq_Sequence = seq,
     rq_SourceNode = rm_selfID rm, rq_Op = OpSet\<rparr>"
| "write_request rm (W_Delete q) seq = \<lparr>rq_Key = dq_Key q, rq_Value = [], rq_TtlMs = 0, rq_Sequence = seq,
     rq_SourceNode = rm_selfID rm, rq_Op = OpDelete\<rparr>"

definition not_shard :: "string \<Rightarrow> bool" where
  "not_shard k \<longleftrightarrow> (\<forall>key i. k \<noteq> ShardKeyName key i)"

lemma write_local_stored:
  assumes "store_inv (cs_store cs)" "not_shard k"
  shows "stored (write_local req clk cs) k = (if k = sq_Key req then Some (sq_Value req) else stored cs k)"
proof (cases "k = sq_Key req")
  case True
  then show ?thesis using write_local_lookup [OF assms(1)] by (simp add: stored_def mk_entry_def)
next
  case False
  have "k \<notin> ShardKeyName key ` A" for key A using assms(2) by (auto simp: not_shard_def)
  with False assms(1) show ?thesis
    by (simp add: stored_def write_local_def WriteToShards_def Let_def view_Set store_Set_inv write_shards_other
        split: option.split)
qed

lemma primary_no_proxy:
  assumes "node_inv cs" "cs_rm cs = Some rm" "IsPrimary (cs_ring cs) rm key"
  shows "proxy IsPrimary cs key = None"
  using assms by (simp add: proxy_def)

lemma write_request_Replicate:
  "ReplicateWrite r rm (sq_Key q) (sq_Value q) (sq_TtlMs q) = replicate_to r rm (write_key (W_Set q)) (write_request rm (W_Set q))"
  "ReplicateDelete r rm (dq_Key d) = replicate_to r rm (write_key (W_Delete d)) (write_request rm (W_Delete d))"
proof -
  have "write_request rm (W_Set q) = (\<lambda>seq. \<lparr>rq_Key = sq_Key q, rq_Value = sq_Value q, rq_TtlMs = sq_TtlMs q, rq_Sequence = seq,
     rq_SourceNode = rm_selfID rm, rq_Op = OpSet\<rparr>)"
    "write_request rm (W_Delete d) = (\<lambda>seq. \<lparr>rq_Key = dq_Key d, rq_Value = [], rq_TtlMs = 0, rq_Sequence = seq,
     rq_SourceNode = rm_selfID rm, rq_Op = OpDelete\<rparr>)" by (rule ext, simp)+
  then show "ReplicateWrite r rm (sq_Key q) (sq_Value q) (sq_TtlMs q) = replicate_to r rm (write_key (W_Set q)) (write_request rm (W_Set q))"
    "ReplicateDelete r rm (dq_Key d) = replicate_to r rm (write_key (W_Delete d)) (write_request rm (W_Delete d))"
    by (simp_all add: ReplicateWrite_def ReplicateDelete_def)
qed

lemma do_write_eq:
  assumes inv: "node_inv cs" and rm: "cs_rm cs = Some rm" and prim: "IsPrimary (cs_ring cs) rm (write_key w)"
    and q: "replicate_to (cs_ring cs) rm (write_key w) (write_request rm w) = Some (rm', sends)"
  shows "\<exists>s. do_write cs (clk, w) = cs\<lparr>cs_store := s, cs_rm := Some rm', cs_sends := cs_sends cs @ sends\<rparr>"
proof (cases w)
  case (W_Set x)
  have "write_local x clk cs = cs\<lparr>cs_store := cs_store (write_local x clk cs)\<rparr>"
    by (simp add: write_local_def Let_def split: option.split)
  then obtain s where "write_local x clk cs = cs\<lparr>cs_store := s\<rparr>" ..
  with W_Set q rm prim primary_no_proxy [OF inv rm prim] show ?thesis
    by (auto simp: server_Set_eq [OF node_inv_loads [OF inv]] replicate_if_primary_def write_request_Replicate
        simp del: write_request.simps)
next
  case (W_Delete x)
  with q rm prim primary_no_proxy [OF inv rm prim] show ?thesis
    by (auto simp: server_Delete_eq [OF node_inv_loads [OF inv]] replicate_if_primary_def write_request_Replicate
        simp del: write_request.simps)
qed

lemma do_write_effect:
  assumes inv: "node_inv cs" and rm: "cs_rm cs = Some rm" and prim: "IsPrimary (cs_ring cs) rm (write_key w)"
  obtains q where "node_inv (do_write cs (clk, w))" "cs_ring (do_write cs (clk, w)) = cs_ring cs"
    "cs_rm (do_write cs (clk, w)) = Some (rm\<lparr>rm_sequence := q\<rparr>)"
    "cs_sends (do_write cs (clk, w)) = cs_sends cs @ map (\<lambda>t. (t, write_request rm w q)) (tl (GetReplicaSet (cs_ring cs) rm (write_key w)))"
    "\<And>k. not_shard k \<Longrightarrow> stored (do_write cs (clk, w)) k = (if k = write_key w then write_value w else stored cs k)"
proof -
  note loads = node_inv_loads [OF inv] and none = primary_no_proxy [OF inv rm prim]
  have facts: "ring_inv (cs_ring cs)" "1 \<le> rm_replicaCount rm" "store_inv (cs_store cs)" using inv rm by (auto simp: node_inv_def)
  from replicate_to_primary [OF facts(1) prim facts(2), of "write_request rm w"]
  obtain q where q: "replicate_to (cs_ring cs) rm (write_key w) (write_request rm w) =
      Some (rm\<lparr>rm_sequence := q\<rparr>, map (\<lambda>t. (t, write_request rm w q)) (tl (GetReplicaSet (cs_ring cs) rm (write_key w))))" by blast
  from do_write_eq [OF inv rm prim q] obtain s where s: "do_write cs (clk, w) = cs\<lparr>cs_store := s, cs_rm := Some (rm\<lparr>rm_sequence := q\<rparr>),
      cs_sends := cs_sends cs @ map (\<lambda>t. (t, write_request rm w q)) (tl (GetReplicaSet (cs_ring cs) rm (write_key w)))\<rparr>" by blast
  have "node_inv (do_write cs (clk, w))" using server_inv(2,3) [OF inv] by (cases w) simp_all
  moreover have "stored (do_write cs (clk, w)) k = (if k = write_key w then write_value w else stored cs k)" if "not_shard k" for k
    using none write_local_stored [OF facts(3) that]
    by (cases w) (simp_all add: server_Set_eq [OF loads] server_Delete_eq [OF loads] stored_def view_Delete [OF facts(3)])
  ultimately show thesis using s by (intro that [of q]) simp_all
qed

lemma replicate_stored:
  assumes "store_inv (cs_store R)"
  shows "stored (fst (server_Replicate clk (write_request rm w q) R)) k = (if k = write_key w then write_value w else stored R k)"
    "store_inv (cs_store (fst (server_Replicate clk req R)))" "cs_nodeID (fst (server_Replicate clk req R)) = cs_nodeID R"
proof -
  show "stored (fst (server_Replicate clk (write_request rm w q) R)) k = (if k = write_key w then write_value w else stored R k)"
    using assms by (cases w) (simp_all add: server_Replicate_def stored_def Let_def view_Set view_Delete mk_entry_def)
  show "store_inv (cs_store (fst (server_Replicate clk req R)))" "cs_nodeID (fst (server_Replicate clk req R)) = cs_nodeID R"
    using assms by (simp_all add: server_Replicate_def Let_def store_Set_inv store_Delete_inv split: Operation.split)
qed

lemma deliver_copies:
  assumes "store_inv (cs_store R)" "distinct ts"
  shows "stored (deliver clk R (map (\<lambda>t. (t, write_request rm w q)) ts)) k =
      (if cs_nodeID R \<in> set ts \<and> k = write_key w then write_value w else stored R k) \<and>
    store_inv (cs_store (deliver clk R (map (\<lambda>t. (t, write_request rm w q)) ts))) \<and>
    cs_nodeID (deliver clk R (map (\<lambda>t. (t, write_request rm w q)) ts)) = cs_nodeID R"
  using assms
proof (induction ts arbitrary: R)
  case (Cons t ts)
  show ?case
  proof (cases "t = cs_nodeID R")
    case True
    let ?R = "fst (server_Replicate (clk (write_request rm w q)) (write_request rm w q) R)"
    note step = replicate_stored [OF Cons.prems(1), of "clk (write_request rm w q)"]
    have "deliver clk R (map (\<lambda>t. (t, write_request rm w q)) (t # ts)) = deliver clk ?R (map (\<lambda>t. (t, write_request rm w q)) ts)"
      using True by (simp add: deliver_def)
    with Cons.IH [OF step(2)] Cons.prems(2) step True show ?thesis by auto
  next
    case False
    then have "deliver clk R (map (\<lambda>t. (t, write_request rm w q)) (t # ts)) = deliver clk R (map (\<lambda>t. (t, write_request rm w q)) ts)"
      by (simp add: deliver_def)
    with Cons.IH [OF Cons.prems(1)] Cons.prems(2) False show ?thesis by auto
  qed
qed (simp add: deliver_def)

lemma deliver_append: "deliver clk R (xs @ ys) = deliver clk (deliver clk R xs) ys"
  by (simp add: deliver_def)

lemma converge:
  assumes "node_inv P" "cs_rm P = Some rm" "\<And>clk w. (clk, w) \<in> set ws \<Longrightarrow> IsPrimary (cs_ring P) rm (write_key w)"
    and "store_inv (cs_store R)" "not_shard k" "cs_nodeID R \<in> set (tl (GetReplicaSet (cs_ring P) rm k))" "stored R k = stored P k"
  shows "\<exists>sends. cs_sends (foldl do_write P ws) = cs_sends P @ sends \<and>
    stored (deliver clk R sends) k = stored (foldl do_write P ws) k"
  using assms
proof (induction ws arbitrary: P R rm)
  case Nil
  then show ?case by (simp add: deliver_def)
next
  case (Cons x ws)
  obtain c w where x: "x = (c, w)" by (cases x)
  have prim: "IsPrimary (cs_ring P) rm (write_key w)" using Cons.prems(3) [of c w] x by simp
  obtain q where eff: "node_inv (do_write P x)" "cs_ring (do_write P x) = cs_ring P"
    "cs_rm (do_write P x) = Some (rm\<lparr>rm_sequence := q\<rparr>)"
    "cs_sends (do_write P x) = cs_sends P @ map (\<lambda>t. (t, write_request rm w q)) (tl (GetReplicaSet (cs_ring P) rm (write_key w)))"
    "\<And>k. not_shard k \<Longrightarrow> stored (do_write P x) k = (if k = write_key w then write_value w else stored P k)"
    unfolding x by (rule do_write_effect [OF Cons.prems(1,2) prim]) blast
  let ?new = "map (\<lambda>t. (t, write_request rm w q)) (tl (GetReplicaSet (cs_ring P) rm (write_key w)))"
  have "ring_inv (cs_ring P)" using Cons.prems(1) by (simp add: node_inv_def)
  then have "distinct (tl (GetReplicaSet (cs_ring P) rm (write_key w)))"
    by (simp add: GetReplicaSet_def rt.route_distinct distinct_tl)
  note del = deliver_copies [OF Cons.prems(4) this, of clk rm w q]
  have same: "GetReplicaSet (cs_ring P) (rm\<lparr>rm_sequence := q\<rparr>) k = GetReplicaSet (cs_ring P) rm k"
    by (simp add: GetReplicaSet_def)
  have "\<exists>sends. cs_sends (foldl do_write (do_write P x) ws) = cs_sends (do_write P x) @ sends \<and>
      stored (deliver clk (deliver clk R ?new) sends) k = stored (foldl do_write (do_write P x) ws) k"
    by (rule Cons.IH [OF eff(1,3)])
      (use Cons.prems(3,5,6,7) eff(2) eff(5) [OF Cons.prems(5)] del [of k] in \<open>auto simp: same\<close>)
  then show ?case using eff(4) by (auto simp: deliver_append)
qed


section \<open>Witnesses\<close>

lemma demo_two:
  obtains p q where "p \<in> {''n1'', ''n2''}" "q \<in> {''n1'', ''n2''}" "q \<noteq> p" "GetPrimary demo_ring key = Some p"
    "GetNodes demo_ring key 3 = [p, q]"
proof -
  have M: "fst ` set (nodes demo_ring) = {''n1'', ''n2''}" by (simp add: demo_ring_nodes)
  then have "fst ` set (nodes demo_ring) \<noteq> {}" by simp
  then obtain p rest where p: "GetNodes demo_ring key 3 = p # rest" "GetNodes demo_ring key 1 = [p]"
    "p \<in> fst ` set (nodes demo_ring)" "p \<notin> set rest"
    by (rule rt.route_head [OF demo_ring_inv _ zero_less_numeral])
  have "length (GetNodes demo_ring key 3) = 2" by (simp add: rt.route_length [OF demo_ring_inv] M)
  then obtain q where q: "rest = [q]" using p(1) by (auto simp: length_Suc_conv)
  have "set (GetNodes demo_ring key 3) \<subseteq> {''n1'', ''n2''}" using rt.route_members [OF demo_ring_inv] M by metis
  then show thesis using p q M GetPrimary_single [OF demo_ring_inv] by (intro that [of p q]) auto
qed

definition demo_cluster :: cluster where
  "demo_cluster a = (if a = ''n1'' then demo_node ''n1'' ''n2'' else demo_node ''n2'' ''n1'')"

lemma demo_node_fields:
  "cs_nodeID (demo_node a b) = a" "cs_ring (demo_node a b) = demo_ring" "cs_sends (demo_node a b) = []"
  "cs_rm (demo_node a b) = Some (fst (ConnectToPeer (NewReplicationManager a 3) b b True))"
  by (simp_all add: demo_node_def NewCacheServer_def)

lemma demo_rm_fields:
  "rm_selfID (fst (ConnectToPeer (NewReplicationManager a 3) b b True)) = a"
  "rm_replicaCount (fst (ConnectToPeer (NewReplicationManager a 3) b b True)) = 3"
  "GetPeerConn (fst (ConnectToPeer (NewReplicationManager a 3) b b True)) b = Some b"
  by (simp_all add: ConnectToPeer_def NewReplicationManager_def GetPeerConn_def)

lemma demo_cluster_ok: "cluster_ok (\<lambda>addr. addr) {''n1'', ''n2''} demo_cluster"
  unfolding cluster_ok_def member_ok_def
  by (rule exI [of _ "vnodes demo_ring"])
     (auto simp: demo_cluster_def demo_node_inv demo_node_fields demo_rm_fields demo_ring_nodes)



section \<open>Two sets at once\<close>

text \<open>
  The handler writes the store first and starts the replication afterwards, with no lock over
  both. When two handlers of one key interleave, the last value stored and the last one sent
  differ, and the replica ends with another value than the primary although every request
  arrived, in the order of the sequence numbers.
\<close>

definition start_replication :: "SetRequest \<Rightarrow> CacheServer \<Rightarrow> CacheServer" where
  "start_replication q = replicate_if_primary (\<lambda>r rm. ReplicateWrite r rm (sq_Key q) (sq_Value q) (sq_TtlMs q)) (sq_Key q)"

lemma start_replication_sends:
  assumes "cs_rm cs = Some rm" "IsPrimary (cs_ring cs) rm (sq_Key q)" "ring_inv (cs_ring cs)" "1 \<le> rm_replicaCount rm"
  obtains n where "start_replication q cs = cs\<lparr>cs_rm := Some (rm\<lparr>rm_sequence := n\<rparr>), cs_sends := cs_sends cs @
      map (\<lambda>t. (t, write_request rm (W_Set q) n)) (tl (GetReplicaSet (cs_ring cs) rm (sq_Key q)))\<rparr>"
  using replicate_to_primary [OF assms(3,2,4), of "write_request rm (W_Set q)"] assms(1,2)
  by (auto simp: start_replication_def replicate_if_primary_def write_request_Replicate simp del: write_request.simps)

lemma concurrent_sets_diverge:
  assumes inv: "node_inv P" and rm: "cs_rm P = Some rm" and sends: "cs_sends P = []" and prim: "IsPrimary (cs_ring P) rm k"
    and keys: "sq_Key q1 = k" "sq_Key q2 = k" and k: "not_shard k"
    and R: "store_inv (cs_store R)" "cs_nodeID R \<in> set (tl (GetReplicaSet (cs_ring P) rm k))"
    and P': "P' = start_replication q1 (start_replication q2 (write_local q2 c2 (write_local q1 c1 P)))"
  shows "stored P' k = Some (sq_Value q2) \<and> stored (deliver clk R (cs_sends P')) k = Some (sq_Value q1)"
proof -
  let ?W = "write_local q2 c2 (write_local q1 c1 P)" and ?ts = "tl (GetReplicaSet (cs_ring P) rm k)"
  have facts: "ring_inv (cs_ring P)" "1 \<le> rm_replicaCount rm" using inv rm by (auto simp: node_inv_def)
  have "store_inv (cs_store (write_local q1 c1 P))" using write_local_inv [OF inv, of q1 c1] by (simp add: node_inv_def)
  then have st: "stored ?W k = Some (sq_Value q2)" by (simp add: write_local_stored [OF _ k] keys)
  obtain n2 where n2: "start_replication q2 ?W = ?W\<lparr>cs_rm := Some (rm\<lparr>rm_sequence := n2\<rparr>), cs_sends := cs_sends ?W @
      map (\<lambda>t. (t, write_request rm (W_Set q2) n2)) ?ts\<rparr>"
    by (rule start_replication_sends [of ?W rm q2]) (use rm prim keys facts in simp_all)
  have same: "GetReplicaSet (cs_ring P) (rm\<lparr>rm_sequence := n2\<rparr>) k = GetReplicaSet (cs_ring P) rm k"
    "IsPrimary (cs_ring P) (rm\<lparr>rm_sequence := n2\<rparr>) k" using prim by (simp_all add: GetReplicaSet_def IsPrimary_def)
  obtain n1 where n1: "P' = (start_replication q2 ?W)\<lparr>cs_rm := Some (rm\<lparr>rm_sequence := n1\<rparr>), cs_sends := cs_sends (start_replication q2 ?W) @
      map (\<lambda>t. (t, write_request (rm\<lparr>rm_sequence := n2\<rparr>) (W_Set q1) n1)) ?ts\<rparr>"
    unfolding P' by (rule start_replication_sends [of "start_replication q2 ?W" "rm\<lparr>rm_sequence := n2\<rparr>" q1])
      (use keys facts same in \<open>simp_all add: n2\<close>)
  have "distinct ?ts" using facts(1) by (simp add: GetReplicaSet_def rt.route_distinct distinct_tl)
  note del = deliver_copies [OF _ this]
  have "stored P' k = Some (sq_Value q2)" using st by (simp add: n1 n2 stored_def)
  moreover have "cs_sends P' = map (\<lambda>t. (t, write_request rm (W_Set q2) n2)) ?ts @
      map (\<lambda>t. (t, write_request (rm\<lparr>rm_sequence := n2\<rparr>) (W_Set q1) n1)) ?ts" using sends by (simp add: n1 n2)
  then have "stored (deliver clk R (cs_sends P')) k = Some (sq_Value q1)"
    using del [OF R(1), of clk rm "W_Set q2" n2] del [of "deliver clk R (map (\<lambda>t. (t, write_request rm (W_Set q2) n2)) ?ts)" clk
        "rm\<lparr>rm_sequence := n2\<rparr>" "W_Set q1" n1 k] R(2) by (simp add: deliver_append keys del: write_request.simps)
  ultimately show ?thesis ..
qed

end
