(* ===== verification/Events.thy ===== *)
theory Events
  imports Swim
begin

text \<open>
  The events of the membership protocol tell its callback the whole story: what they say of a
  node, read in the order they were emitted, is what the registry says. \<open>view_at k b es\<close> is
  whether a listener that adds nodes on JOIN and ALIVE and removes them on DEAD and LEFT has
  \<open>k\<close> after the events \<open>es\<close>, when it had \<open>k\<close> before iff \<open>b\<close>.
\<close>

definition view_step :: "string \<Rightarrow> bool \<Rightarrow> MembershipEvent \<Rightarrow> bool" where
  "view_step k b ev =
     (case ev of EventJoin j \<Rightarrow> j = k \<or> b | EventAlive j \<Rightarrow> j = k \<or> b | EventSuspect j \<Rightarrow> b
      | EventDead j \<Rightarrow> j \<noteq> k \<and> b | EventLeft j \<Rightarrow> j \<noteq> k \<and> b)"

definition view_at :: "string \<Rightarrow> bool \<Rightarrow> MembershipEvent list \<Rightarrow> bool" where
  "view_at k b es = foldl (view_step k) b es"

definition up :: "Membership \<Rightarrow> string \<Rightarrow> bool" where
  "up m k \<longleftrightarrow> (\<exists>n. reg_Get (m_registry m) k = Some n \<and> n_Status n \<noteq> StatusDead \<and> n_Status n \<noteq> StatusLeft)"

definition known :: "Membership \<Rightarrow> string \<Rightarrow> bool" where
  "known m k \<longleftrightarrow> reg_Get (m_registry m) k \<noteq> None"

fun joined :: "MembershipEvent \<Rightarrow> string set" where
  "joined (EventJoin j) = {j}"
| "joined (EventAlive j) = {j}"
| "joined _ = {}"

definition heard :: "Membership \<Rightarrow> Membership \<Rightarrow> bool" where
  "heard m m' \<longleftrightarrow> m_onEvent m \<longrightarrow> m_onEvent m' \<and> m_selfID m' = m_selfID m \<and> (\<forall>k. known m k \<longrightarrow> known m' k) \<and>
     (\<exists>es. m_events m' = m_events m @ es \<and> (\<forall>k. k \<noteq> m_selfID m \<longrightarrow> view_at k (up m k) es = up m' k) \<and>
        (\<forall>ev \<in> set es. \<forall>k \<in> joined ev. known m' k))"

lemma view_at_simps [simp]: "view_at k b [] = b" "view_at k b (es @ es') = view_at k (view_at k b es) es'"
  "view_at k b [e] = view_step k b e"
  by (simp_all add: view_at_def)

lemma heard_refl [simp]: "heard m m"
  by (auto simp: heard_def)

lemma heard_trans:
  assumes "heard a b" "heard b c"
  shows "heard a c"
proof (cases "m_onEvent a")
  case True
  with assms(1) obtain es where b: "m_onEvent b" "m_selfID b = m_selfID a" "m_events b = m_events a @ es"
    "\<And>k. k \<noteq> m_selfID a \<Longrightarrow> view_at k (up a k) es = up b k" "\<And>k. known a k \<Longrightarrow> known b k"
    "\<And>ev k. ev \<in> set es \<Longrightarrow> k \<in> joined ev \<Longrightarrow> known b k" by (auto simp: heard_def)
  with assms(2) obtain es' where c: "m_onEvent c" "m_selfID c = m_selfID b" "m_events c = m_events b @ es'"
    "\<And>k. k \<noteq> m_selfID b \<Longrightarrow> view_at k (up b k) es' = up c k" "\<And>k. known b k \<Longrightarrow> known c k"
    "\<And>ev k. ev \<in> set es' \<Longrightarrow> k \<in> joined ev \<Longrightarrow> known c k" by (auto simp: heard_def)
  from b c show ?thesis unfolding heard_def by (intro impI conjI exI [of _ "es @ es'"]) auto
qed (simp add: heard_def)

lemma heard_quiet:
  assumes "m_onEvent m' = m_onEvent m" "m_selfID m' = m_selfID m" "m_events m' = m_events m"
    and "\<And>k. k \<noteq> m_selfID m \<Longrightarrow> map_option n_Status (reg_Get (m_registry m') k) = map_option n_Status (reg_Get (m_registry m) k)"
    and "\<And>k. known m k \<Longrightarrow> known m' k"
  shows "heard m m'"
proof -
  have "up m' k = up m k" if "k \<noteq> m_selfID m" for k
    using assms(4) [OF that] by (cases "reg_Get (m_registry m) k"; cases "reg_Get (m_registry m') k") (auto simp: up_def)
  with assms show ?thesis by (auto simp: heard_def intro!: exI [of _ "[]"])
qed

lemma heard_event:
  assumes "m_onEvent m' = m_onEvent m" "m_selfID m' = m_selfID m" "m_events m' = (if m_onEvent m then m_events m @ [ev] else m_events m)"
    and "\<And>k. k \<noteq> m_selfID m \<Longrightarrow> view_step k (up m k) ev = up m' k"
    and "\<And>k. known m k \<or> k \<in> joined ev \<Longrightarrow> known m' k"
  shows "heard m m'"
  using assms by (auto simp: heard_def intro!: exI [of _ "[ev]"])

lemmas heard_fields = swim_emit_def queueUpdate_def queueUpdateLocked_def cancel_timer_def timer_Stop_def start_timer_def
  set_status_def WriteToUDP_def known_def Let_def

lemma heard_markSuspect: "heard m (markSuspect m k)"
proof -
  have "heard m (markSuspect m k)" if "reg_Get (m_registry m) k = Some n" "n_Status n \<notin> {StatusDead, StatusLeft, StatusSuspect}" for n
    using that
    by (intro heard_event [where ev = "EventSuspect k"])
      (auto simp: markSuspect_def GetStatus_def up_def view_step_def SetStatus_def heard_fields split: option.splits)
  then show ?thesis
    by (cases "reg_Get (m_registry m) k") (auto simp: markSuspect_def GetStatus_def split: if_splits)
qed

lemma heard_markDead: "heard m (markDead m k)"
proof -
  have "heard m (markDead m k)" if "reg_Get (m_registry m) k = Some n" "n_Status n \<noteq> StatusDead" for n
    using that
    by (intro heard_event [where ev = "EventDead k"])
      (auto simp: markDead_def GetStatus_def up_def view_step_def SetStatus_def heard_fields split: option.splits)
  then show ?thesis
    by (cases "reg_Get (m_registry m) k") (auto simp: markDead_def GetStatus_def split: if_splits)
qed

lemma heard_applyUpdate: "heard m (applyUpdate m u now)"
proof -
  let ?k = "u_NodeID u"
  have "heard m (refute m u)" by (rule heard_quiet) (simp_all add: refute_def heard_fields)
  moreover have "heard m (apply_new m u now)" if "reg_Get (m_registry m) ?k = None"
  proof (cases "u_Status u = StatusAlive")
    case True
    with that show ?thesis
      by (intro heard_event [where ev = "EventJoin ?k"])
        (auto simp: apply_new_def up_def view_step_def NewNodeInfo_def heard_fields)
  qed (simp add: apply_new_def)
  moreover have "heard m (apply_known m u n now)" if n: "reg_Get (m_registry m) ?k = Some n" for n
  proof -
    note defs = apply_known_def markSuspectLocked_def GetStatus_def up_def view_step_def SetStatus_def Touch_def heard_fields
    have "heard m (apply_known m u n now)" if "u_Status u = StatusAlive" "n_Status n \<noteq> StatusAlive"
      using that n by (intro heard_event [where ev = "EventAlive ?k"]) (auto simp: defs split: option.splits)
    moreover have "heard m (apply_known m u n now)" if "u_Status u = StatusSuspect" "n_Status n = StatusAlive"
      using that n by (intro heard_event [where ev = "EventSuspect ?k"]) (auto simp: defs split: option.splits)
    moreover have "heard m (apply_known m u n now)" if "u_Status u = StatusDead" "n_Status n \<noteq> StatusDead"
      using that n by (intro heard_event [where ev = "EventDead ?k"]) (auto simp: defs split: option.splits)
    moreover have "heard m (apply_known m u n now)" if "u_Status u = StatusLeft"
      using that n by (intro heard_event [where ev = "EventLeft ?k"]) (auto simp: defs)
    ultimately show ?thesis
      by (cases "u_Status u") (auto simp: apply_known_def GetStatus_def split: if_splits)
  qed
  ultimately show ?thesis by (simp add: applyUpdate_def split: option.split)
qed

lemma heard_apply_updates: "heard m (apply_updates m us clk)"
proof (induction us arbitrary: m clk)
  case (Cons u us)
  show ?case unfolding apply_updates.simps by (rule heard_trans [OF heard_applyUpdate Cons])
qed simp

lemma heard_drain: "heard m (fst (drainUpdates m))"
  by (rule heard_quiet) (simp_all add: known_def drainUpdates_eq)

lemma heard_write: "heard m (WriteToUDP m msg a)"
  by (rule heard_quiet) (simp_all add: known_def WriteToUDP_def)

lemma heard_handleAck: "heard m (handleAck m msg now)"
  by (rule heard_quiet) (auto simp: known_def handleAck_def Let_def Touch_def option.map_comp o_def split: option.split)

lemma heard_ping_timeout: "heard m (ping_timeout m k)"
  by (rule heard_quiet) (simp_all add: known_def ping_timeout_def)

lemma heard_send_ping: "heard m (fst (send_ping resolve m addr k))"
  by (rule heard_quiet) (simp_all add: known_def send_ping_def Let_def drainUpdates_eq WriteToUDP_def split: option.split)

lemma heard_send_reqs: "heard m (fst (send_reqs rng shuffle resolve m target))"
proof -
  have "heard m' (foldl (send_req resolve k) m' ps)" for k m' ps
  proof (induction ps arbitrary: m')
    case (Cons p ps)
    have "heard m' (send_req resolve k m' p)" by (simp add: send_req_def heard_write split: option.split)
    with Cons show ?case by (auto intro: heard_trans)
  qed simp
  moreover have "heard m (m\<lparr>m_nextChan := Suc (m_nextChan m), m_pendingAcks := a\<rparr>)" for a
    by (rule heard_quiet) (simp_all add: known_def)
  ultimately have "heard m (foldl (send_req resolve k) (m\<lparr>m_nextChan := Suc (m_nextChan m), m_pendingAcks := a\<rparr>) ps)"
    for k ps a by (rule heard_trans [rotated])
  then show ?thesis by (simp add: send_reqs_def Let_def)
qed

lemma heard_handleMessage: "heard m (fst (handleMessage rng resolve m msg from' clk))"
proof -
  let ?m = "apply_updates m (s_Updates msg) clk"
  have "heard ?m (fst (case s_Type msg of
        MsgPing \<Rightarrow> (swim_handlePing ?m from', None) | MsgAck \<Rightarrow> (handleAck ?m msg (clk (length (s_Updates msg))), None)
      | MsgPingReq \<Rightarrow> handlePingReq resolve ?m msg | MsgJoin \<Rightarrow> (handleJoin rng ?m from', None) | MsgOther _ \<Rightarrow> (?m, None)))"
  proof (cases "s_Type msg")
    case MsgPing
    then show ?thesis
      using heard_trans [OF heard_drain heard_write] by (simp add: swim_handlePing_def drainUpdates_eq)
  next
    case MsgPingReq
    then show ?thesis
      using heard_send_ping [of ?m resolve _ "s_TargetID msg"]
      by (auto simp: handlePingReq_def split: option.splits prod.splits) (metis fst_conv)+
  qed (simp_all add: heard_handleAck handleJoin_def heard_write)
  then show ?thesis
    using heard_apply_updates [of m "s_Updates msg" clk] unfolding handleMessage_def Let_def
    by (rule heard_trans [rotated])
qed

lemma heard_ping_indirect: "heard m (fst (ping_indirect env m target))"
  using heard_send_reqs [of m "pe_rng2 env" "pe_shuffle env" "pe_resolve env" target]
  by (auto simp: ping_indirect_def intro: heard_trans heard_markSuspect split: prod.splits option.splits)

lemma heard_pingRandomMember: "heard m (fst (pingRandomMember env m))"
proof -
  have "heard m (fst (ping_direct env m target))" for target
    using heard_send_ping [of m "pe_resolve env" "n_GossipAddr target" "n_ID target"]
    by (auto simp: ping_direct_def intro: heard_trans heard_ping_indirect split: prod.splits option.splits)
  then show ?thesis by (simp add: pingRandomMember_def Let_def)
qed

lemma heard_JoinCluster: "heard m (fst (JoinCluster resolve written m seeds))"
  unfolding JoinCluster_def
  by (simp, rule impI, rule foldl_invariant [where P = "\<lambda>p. heard m (fst p)"])
     (auto intro: heard_trans [OF _ heard_write] split: option.splits)

lemma heard_step:
  assumes "swim_step s s'"
  shows "heard (sw_m s) (sw_m s')"
  using assms
proof cases
  case (ping_tick env m pc)
  then show ?thesis using heard_pingRandomMember [of "sw_m s" env] by simp
next
  case (direct_timeout target ch env m pc)
  then show ?thesis
    using heard_trans [OF heard_ping_timeout [of "sw_m s" "n_ID target"] heard_ping_indirect [of _ env target]] by simp
next
  case (direct_stop target ch env m pc)
  then show ?thesis using heard_ping_indirect [of "sw_m s" env target] by simp
next
  case (indirect_timeout target ch)
  then show ?thesis using heard_trans [OF heard_ping_timeout heard_markSuspect] by simp
next
  case (recv_msg rng resolve msg from' clk m pc)
  then show ?thesis
    using heard_handleMessage [of "sw_m s" rng resolve msg from' clk]
    by (auto simp: receive_def split: if_splits prod.splits option.splits)
next
  case (dead_runs node)
  have "heard (sw_m s) (sw_m s\<lparr>m_fired := remove1 node (m_fired (sw_m s))\<rparr>)" by (rule heard_quiet) (simp_all add: known_def)
  with dead_runs show ?thesis by (auto simp: run_markDead_def intro: heard_trans heard_markDead)
next
  case stop
  have "heard (sw_m s) (swim_Stop (sw_m s))"
    by (rule heard_quiet) (auto simp: swim_Stop_def heard_fields)
  with stop show ?thesis by simp
next
  case (join resolve written seeds m ok)
  then show ?thesis using heard_JoinCluster [of "sw_m s" resolve written seeds] by simp
next
  case (timer_fires t node)
  then show ?thesis by (auto intro!: heard_quiet simp: fire_timer_def known_def)
next
  case shutdown
  then show ?thesis by (auto intro!: heard_quiet simp: stop_timers_fields known_def)
next
  case on_event
  then show ?thesis by (auto simp: SetOnEvent_def heard_def up_def known_def intro!: exI [of _ "[]"])
qed (auto simp: heard_markSuspect relay_ack_def heard_write heard_ping_timeout SetFaultInjector_def known_def intro: heard_quiet)

text \<open>
  In every reachable state a listener that has processed all the events holds exactly the
  other members that are neither DEAD nor LEFT.
\<close>

lemma swim_reach_view:
  assumes "swim_reach self s"
  shows "m_onEvent (sw_m s) \<and> m_selfID (sw_m s) = n_ID self \<and>
    (\<forall>k. k \<noteq> n_ID self \<longrightarrow> view_at k False (m_events (sw_m s)) = up (sw_m s) k) \<and>
    (\<forall>ev \<in> set (m_events (sw_m s)). \<forall>k \<in> joined ev. known (sw_m s) k)"
  using assms
proof (induction rule: swim_reach.induct)
  case reach_init
  show ?case
    by (auto simp: swim_init_def swim_Start_def SetOnEvent_def SetFaultInjector_def NewMembership_def queueUpdate_def
        up_def NewNodeRegistry_def reg_Get_def reg_Register_def)
next
  case (reach_step s s')
  with heard_step [OF reach_step(2)] obtain es where es: "m_events (sw_m s') = m_events (sw_m s) @ es"
    "\<forall>k. k \<noteq> n_ID self \<longrightarrow> view_at k (up (sw_m s) k) es = up (sw_m s') k"
    "\<forall>ev \<in> set es. \<forall>k \<in> joined ev. known (sw_m s') k" "\<forall>k. known (sw_m s) k \<longrightarrow> known (sw_m s') k" "m_onEvent (sw_m s')" "m_selfID (sw_m s') = n_ID self"
    by (auto simp: heard_def)
  with reach_step(3) show ?case by auto
qed

end
