(* ===== verification/Node.thy ===== *)
theory Node
  imports Config Sweeper Cluster Events
begin

text \<open>
  A cache node as \<open>cmd/cachenode/main.go\<close> wires it: the server with its store, ring and
  replication manager, and the membership protocol whose events change the ring and the
  connections. The registry is the one inside the membership state.

  \<open>emitEvent\<close> starts a goroutine per event; the model delivers the events one by one in the
  order of emission, at any time later. \<open>nd_done\<close> counts the delivered ones.
\<close>

section \<open>Wiring\<close>

record Node =
  nd_cs :: CacheServer
  nd_sw :: Swim
  nd_done :: nat

text \<open>
  What the callbacks find: the sorting of the ring, whether dialling succeeds, the iteration
  order of the store and the clock.
\<close>

record node_env =
  ne_sort :: "VNode list \<Rightarrow> VNode list"
  ne_dial :: "string \<Rightarrow> string \<Rightarrow> bool"
  ne_rng :: scan_order
  ne_now :: instant

definition main_server :: "Config \<Rightarrow> (VNode list \<Rightarrow> VNode list) \<Rightarrow> Store \<Rightarrow> instant \<Rightarrow> CacheServer" where
  "main_server cfg sortf kvStore now =
     (let ring = SetOnNodeRemoved (SetOnNodeAdded
            (fst (AddNode sortf (NewRing (c_VirtualNodes cfg) (c_MaxLoadFactor cfg)) (c_NodeID cfg))));
          repMgr = NewReplicationManager (c_NodeID cfg) (c_ReplicaCount cfg);
          detector = NewDetector 100 (60000 * Millisecond)
      in NewCacheServer (c_NodeID cfg) kvStore ring True (Some repMgr) (Some NewFaultInjector)
           (Some (NewMitigator 4)) detector now)"

definition main_node :: "Config \<Rightarrow> (VNode list \<Rightarrow> VNode list) \<Rightarrow> instant \<Rightarrow> Node option" where
  "main_node cfg sortf now =
     (case store_New of
        None \<Rightarrow> None
      | Some kvStore \<Rightarrow>
          Some \<lparr>nd_cs = main_server cfg sortf kvStore now,
                nd_sw = swim_init (NewNodeInfo (c_NodeID cfg) (c_GRPCAddr cfg) (c_GossipAddr cfg) (c_HTTPAddr cfg) now),
                nd_done = 0\<rparr>)"

definition connect_peer :: "node_env \<Rightarrow> string \<Rightarrow> string \<Rightarrow> CacheServer \<Rightarrow> CacheServer" where
  "connect_peer env nodeID addr cs =
     cs\<lparr>cs_rm := map_option (\<lambda>rm. fst (ConnectToPeer rm nodeID addr (ne_dial env nodeID addr))) (cs_rm cs)\<rparr>"

fun ring_callback :: "node_env \<Rightarrow> NodeRegistry \<Rightarrow> CacheServer \<Rightarrow> ring_call \<Rightarrow> CacheServer" where
  "ring_callback env registry cs (CallAdded nodeID) =
     (case reg_Get registry nodeID of
        None \<Rightarrow> cs
      | Some info \<Rightarrow> if nodeID \<noteq> cs_nodeID cs then connect_peer env nodeID (n_GRPCAddr info) cs else cs)"
| "ring_callback env registry cs (CallRemoved nodeID) =
     (case cs_rm cs of
        None \<Rightarrow> cs
      | Some rm \<Rightarrow>
          (case HandleNodeFailure (ne_rng env) (cs_store cs) (cs_ring cs) rm nodeID (ne_now env) of
             None \<Rightarrow> cs\<lparr>cs_panicked := True\<rparr>
           | Some (rm', sends, n) \<Rightarrow> cs\<lparr>cs_rm := Some rm', cs_sends := cs_sends cs @ sends\<rparr>))"

definition node_up :: "node_env \<Rightarrow> NodeRegistry \<Rightarrow> string \<Rightarrow> CacheServer \<Rightarrow> CacheServer" where
  "node_up env registry nodeID cs =
     (case reg_Get registry nodeID of
        None \<Rightarrow> cs
      | Some info \<Rightarrow>
          (case AddNode (ne_sort env) (cs_ring cs) nodeID of
             (r, added, calls) \<Rightarrow>
               let cs1 = foldl (ring_callback env registry) (cs\<lparr>cs_ring := r\<rparr>) calls
               in if nodeID \<noteq> cs_nodeID cs then connect_peer env nodeID (n_GRPCAddr info) cs1 else cs1))"

definition node_down :: "node_env \<Rightarrow> NodeRegistry \<Rightarrow> string \<Rightarrow> CacheServer \<Rightarrow> CacheServer" where
  "node_down env registry nodeID cs =
     (case RemoveNode (cs_ring cs) nodeID of
        None \<Rightarrow> cs\<lparr>cs_panicked := True\<rparr>
      | Some (r, removed, calls) \<Rightarrow> foldl (ring_callback env registry) (cs\<lparr>cs_ring := r\<rparr>) calls)"

fun on_event :: "node_env \<Rightarrow> NodeRegistry \<Rightarrow> CacheServer \<Rightarrow> MembershipEvent \<Rightarrow> CacheServer" where
  "on_event env registry cs (EventJoin nodeID) = node_up env registry nodeID cs"
| "on_event env registry cs (EventAlive nodeID) = node_up env registry nodeID cs"
| "on_event env registry cs (EventDead nodeID) = node_down env registry nodeID cs"
| "on_event env registry cs (EventLeft nodeID) = node_down env registry nodeID cs"
| "on_event env registry cs (EventSuspect nodeID) = cs"

section \<open>Runs of a node\<close>

text \<open>
  A step is a step of the protocol, the delivery of the next event, a call to the service, a
  request to a chaos endpoint, which changes the one fault injector, a tick of the sweeper or
  of the detector, or a replication goroutine. The sweeper visits the shards in turn; here it
  may visit any.
\<close>

definition node_env_ok :: "node_env \<Rightarrow> bool" where
  "node_env_ok env \<longleftrightarrow> vnode_sort (ne_sort env) \<and> scan_ok (ne_rng env)"

inductive node_step :: "Node \<Rightarrow> Node \<Rightarrow> bool" where
  protocol: "swim_step (nd_sw n) sw \<Longrightarrow> node_step n (n\<lparr>nd_sw := sw\<rparr>)"
| event: "nd_done n < length (m_events (sw_m (nd_sw n))) \<Longrightarrow> node_env_ok env \<Longrightarrow>
    node_step n (n\<lparr>nd_cs := on_event env (m_registry (sw_m (nd_sw n))) (nd_cs n) (m_events (sw_m (nd_sw n)) ! nd_done n),
                   nd_done := Suc (nd_done n)\<rparr>)"
| service_call: "node_step n (n\<lparr>nd_cs := fst (ServiceDesc cenv call (nd_cs n))\<rparr>)"
| chaos_call: "cs_fi (nd_cs n) = Some fi \<Longrightarrow> chaos_route rng fi meth req = (fi', resp) \<Longrightarrow>
    node_step n (n\<lparr>nd_cs := (nd_cs n)\<lparr>cs_fi := Some fi'\<rparr>,
                   nd_sw := (nd_sw n)\<lparr>sw_m := SetFaultInjector (sw_m (nd_sw n)) (Some fi')\<rparr>\<rparr>)"
| sweep: "env_ok senv \<Longrightarrow> \<forall>j. env_now senv j \<le> t \<Longrightarrow> i < length (shards (cs_store (nd_cs n))) \<Longrightarrow>
    sweepShard senv i 0 (cs_store (nd_cs n)) = Some s \<Longrightarrow> node_step n (n\<lparr>nd_cs := (nd_cs n)\<lparr>cs_store := s\<rparr>\<rparr>)"
| decay: "node_step n (n\<lparr>nd_cs := (nd_cs n)\<lparr>cs_detector := decay_tick (cs_detector (nd_cs n))\<rparr>\<rparr>)"
| replicate_send: "cs_rm (nd_cs n) = Some rm \<Longrightarrow> q \<in> set (cs_sends (nd_cs n)) \<Longrightarrow> sendReplicate rm q now ok = Some rm' \<Longrightarrow>
    node_step n (n\<lparr>nd_cs := (nd_cs n)\<lparr>cs_rm := Some rm', cs_sends := remove1 q (cs_sends (nd_cs n))\<rparr>\<rparr>)"

inductive node_reach :: "Config \<Rightarrow> Node \<Rightarrow> bool" for cfg where
  node_start: "vnode_sort sortf \<Longrightarrow> main_node cfg sortf now = Some n \<Longrightarrow> node_reach cfg n"
| node_next: "node_reach cfg n \<Longrightarrow> node_step n n' \<Longrightarrow> node_reach cfg n'"

section \<open>Events and the ring\<close>

lemma HasNode_AddNode: "HasNode (fst (AddNode sortf r x)) k \<longleftrightarrow> k = x \<or> HasNode r k"
  by (auto simp: AddNode_def HasNode_def)

lemma HasNode_RemoveNode:
  assumes "RemoveNode r x = Some (r', b, cs)"
  shows "HasNode r' k \<longleftrightarrow> k \<noteq> x \<and> HasNode r k"
  using assms by (auto simp: RemoveNode_def HasNode_def split: if_splits)

lemma connect_peer_inv: "node_inv cs \<Longrightarrow> node_inv (connect_peer env k a cs)"
  by (auto simp: connect_peer_def node_inv_def ConnectToPeer_def)

lemma connect_peer_frame [simp]:
  "cs_ring (connect_peer env k a cs) = cs_ring cs" "cs_nodeID (connect_peer env k a cs) = cs_nodeID cs"
  by (simp_all add: connect_peer_def)

lemma ring_callback_frame [simp]:
  "cs_ring (ring_callback env reg cs c) = cs_ring cs" "cs_nodeID (ring_callback env reg cs c) = cs_nodeID cs"
  by (cases c; simp split: option.split)+

lemma failure_rm:
  assumes "scan_ok rng" "store_inv s" "ring_inv r" "1 \<le> rm_replicaCount rm"
  obtains rm' sends m where "HandleNodeFailure rng s r rm dead now = Some (rm', sends, m)"
    "rm_selfID rm' = rm_selfID rm" "rm_replicaCount rm' = rm_replicaCount rm"
proof -
  have "1 \<le> rm_replicaCount (DisconnectPeer rm dead)" using assms(4) by (simp add: DisconnectPeer_frame)
  from rerep_fold [OF assms(3) this, of now "[]" 0 "scan (\<lambda>(k, e). \<not> IsExpired e now) rng s"]
  show thesis
    using that
    by (auto simp: HandleNodeFailure_def reReplicateForDeadNode_def ForEach_foldl [OF rerep_snd] DisconnectPeer_frame)
      (auto simp: DisconnectPeer_def split: if_splits)
qed

lemma ring_callback_inv:
  assumes "node_inv cs" "node_env_ok env"
  shows "node_inv (ring_callback env reg cs c)"
proof (cases c)
  case (CallRemoved k)
  show ?thesis
  proof (cases "cs_rm cs")
    case (Some rm)
    then have "scan_ok (ne_rng env)" "store_inv (cs_store cs)" "ring_inv (cs_ring cs)" "1 \<le> rm_replicaCount rm"
      using assms by (auto simp: node_inv_def node_env_ok_def)
    then obtain rm' sends m where "HandleNodeFailure (ne_rng env) (cs_store cs) (cs_ring cs) rm k (ne_now env) = Some (rm', sends, m)"
      "rm_selfID rm' = rm_selfID rm" "rm_replicaCount rm' = rm_replicaCount rm" by (rule failure_rm)
    with CallRemoved Some assms(1) show ?thesis by (auto simp: node_inv_def)
  qed (use CallRemoved assms(1) in simp)
qed (use assms(1) in \<open>simp add: connect_peer_inv split: option.split\<close>)

lemma ring_callbacks_inv:
  assumes "node_inv cs" "node_env_ok env"
  shows "node_inv (foldl (ring_callback env reg) cs calls)" "cs_ring (foldl (ring_callback env reg) cs calls) = cs_ring cs"
    "cs_nodeID (foldl (ring_callback env reg) cs calls) = cs_nodeID cs"
  using assms by (induction calls arbitrary: cs) (simp_all add: ring_callback_inv)

lemma loads_ok_ring:
  assumes "loads_ok r"
  shows "loads_ok (fst (AddNode sortf r x))" "RemoveNode r x = Some (r', b, cs) \<Longrightarrow> loads_ok r'"
  using assms by (auto simp: loads_ok_def AddNode_def RemoveNode_def int64_def split: if_splits)

lemma node_up_effect:
  assumes "node_inv cs" "node_env_ok env" "reg_Get reg k \<noteq> None"
  shows "node_inv (node_up env reg k cs) \<and> cs_nodeID (node_up env reg k cs) = cs_nodeID cs \<and>
    (HasNode (cs_ring (node_up env reg k cs)) j \<longleftrightarrow> j = k \<or> HasNode (cs_ring cs) j)"
proof -
  obtain info where info: "reg_Get reg k = Some info" using assms(3) by blast
  obtain r b calls where add: "AddNode (ne_sort env) (cs_ring cs) k = (r, b, calls)" by (cases "AddNode (ne_sort env) (cs_ring cs) k")
  have r: "r = fst (AddNode (ne_sort env) (cs_ring cs) k)" using add by simp
  have "ring_inv r"
    unfolding r using assms(1,2) by (intro vnode_sort.AddNode_inv) (auto simp: node_env_ok_def node_inv_def)
  moreover have "loads_ok r" unfolding r using assms(1) by (intro loads_ok_ring(1)) (simp add: node_inv_def)
  ultimately have inv: "node_inv (cs\<lparr>cs_ring := r\<rparr>)" using assms(1) by (simp add: node_inv_def)
  note calls = ring_callbacks_inv [OF inv assms(2), of reg calls]
  have "HasNode r j \<longleftrightarrow> j = k \<or> HasNode (cs_ring cs) j" unfolding r by (rule HasNode_AddNode)
  then show ?thesis using calls by (auto simp: node_up_def info add Let_def connect_peer_inv)
qed

lemma node_down_effect:
  assumes "node_inv cs" "node_env_ok env"
  shows "node_inv (node_down env reg k cs) \<and> cs_nodeID (node_down env reg k cs) = cs_nodeID cs \<and>
    (HasNode (cs_ring (node_down env reg k cs)) j \<longleftrightarrow> j \<noteq> k \<and> HasNode (cs_ring cs) j)"
proof -
  have ring: "ring_inv (cs_ring cs)" "loads_ok (cs_ring cs)" using assms(1) by (simp_all add: node_inv_def)
  obtain r b calls where rem: "RemoveNode (cs_ring cs) k = Some (r, b, calls)"
    using RemoveNode_total [OF ring(1), of k] by auto
  have inv: "node_inv (cs\<lparr>cs_ring := r\<rparr>)"
    using assms(1) RemoveNode_inv [OF ring(1) rem] loads_ok_ring(2) [OF ring(2) rem] by (simp add: node_inv_def)
  note calls = ring_callbacks_inv [OF inv assms(2), of reg calls]
  show ?thesis using calls by (simp add: node_down_def rem HasNode_RemoveNode [OF rem])
qed

lemma on_event_effect:
  assumes "node_inv cs" "node_env_ok env" "\<And>k. k \<in> joined ev \<Longrightarrow> reg_Get reg k \<noteq> None"
  shows "node_inv (on_event env reg cs ev) \<and> cs_nodeID (on_event env reg cs ev) = cs_nodeID cs \<and>
    (HasNode (cs_ring (on_event env reg cs ev)) j \<longleftrightarrow> view_step j (HasNode (cs_ring cs) j) ev)"
  using assms node_up_effect [OF assms(1,2)] node_down_effect [OF assms(1,2)]
  by (cases ev) (auto simp: view_step_def)

section \<open>Reachable nodes\<close>

definition node_ok :: "Config \<Rightarrow> Node \<Rightarrow> bool" where
  "node_ok cfg n \<longleftrightarrow> node_inv (nd_cs n) \<and> cs_nodeID (nd_cs n) = c_NodeID cfg \<and>
     (\<exists>self. n_ID self = c_NodeID cfg \<and> n_Status self = StatusAlive \<and> swim_reach self (nd_sw n)) \<and>
     nd_done n \<le> length (m_events (sw_m (nd_sw n))) \<and>
     (\<forall>k. k \<noteq> c_NodeID cfg \<longrightarrow>
        HasNode (cs_ring (nd_cs n)) k = view_at k False (take (nd_done n) (m_events (sw_m (nd_sw n)))))"

lemma node_ok_cs:
  assumes "node_ok cfg n" "node_inv cs" "cs_nodeID cs = cs_nodeID (nd_cs n)" "cs_ring cs = cs_ring (nd_cs n)"
  shows "node_ok cfg (n\<lparr>nd_cs := cs\<rparr>)"
  using assms by (auto simp: node_ok_def)

lemma node_ok_swim:
  assumes "node_ok cfg n" "swim_step (nd_sw n) sw"
  shows "node_ok cfg (n\<lparr>nd_sw := sw\<rparr>)"
proof -
  obtain self where self: "n_ID self = c_NodeID cfg" "n_Status self = StatusAlive" "swim_reach self (nd_sw n)"
    using assms(1) by (auto simp: node_ok_def)
  have "m_onEvent (sw_m (nd_sw n))" using swim_reach_view [OF self(3)] by simp
  then obtain es where "m_events (sw_m sw) = m_events (sw_m (nd_sw n)) @ es"
    using heard_step [OF assms(2)] by (auto simp: heard_def)
  moreover have "swim_reach self sw" using self(3) assms(2) by (rule swim_reach.reach_step)
  ultimately show ?thesis using assms(1) self(1,2) by (auto simp: node_ok_def)
qed

lemma service_nodeID: "loads_ok (cs_ring cs) \<Longrightarrow> cs_nodeID (fst (ServiceDesc env call cs)) = cs_nodeID cs"
proof -
  assume loads: "loads_ok (cs_ring cs)"
  note cases = handle_unary_cases [where P = "\<lambda>h. cs_nodeID (fst h) = cs_nodeID cs"]
  have "cs_nodeID (fst (server_Get gpc clk gq cs)) = cs_nodeID cs" "cs_nodeID (fst (server_Set spc clk sq cs)) = cs_nodeID cs"
    "cs_nodeID (fst (server_Delete dpc dq cs)) = cs_nodeID cs" "cs_nodeID (fst (server_Expire epc clk eq cs)) = cs_nodeID cs"
    "cs_nodeID (fst (server_Keys rng now kq cs)) = cs_nodeID cs" "cs_nodeID (fst (server_Ping clk u cs)) = cs_nodeID cs"
    "cs_nodeID (fst (server_Replicate clk rq cs)) = cs_nodeID cs" for gpc clk gq spc sq dpc dq epc eq rng now kq u rq
    by (simp_all add: server_Get_eq server_Set_eq server_Delete_eq server_Expire_eq loads get_local_frame server_Keys_def
        server_Ping_def server_Replicate_def Let_def split: option.split prod.split)
  then show ?thesis
    unfolding ServiceDesc_def Let_def handle_defs
    by (cases call) (simp_all only: rpc_call.case fst_tag, (rule cases; simp)+)
qed

lemma node_ok_inv: "node_ok cfg n \<Longrightarrow> node_inv (nd_cs n)"
  by (simp add: node_ok_def)

lemma node_ok_event:
  assumes ok: "node_ok cfg n" and less: "nd_done n < length (m_events (sw_m (nd_sw n)))" and env: "node_env_ok env"
  shows "node_ok cfg (n\<lparr>nd_cs := on_event env (m_registry (sw_m (nd_sw n))) (nd_cs n) (m_events (sw_m (nd_sw n)) ! nd_done n),
                         nd_done := Suc (nd_done n)\<rparr>)"
proof -
  let ?m = "sw_m (nd_sw n)"
  let ?ev = "m_events ?m ! nd_done n"
  obtain self where "swim_reach self (nd_sw n)" using ok by (auto simp: node_ok_def)
  from swim_reach_view [OF this] have "\<forall>ev \<in> set (m_events ?m). \<forall>k \<in> joined ev. known ?m k" by simp
  then have "\<forall>k \<in> joined ?ev. known ?m k" using nth_mem [OF less] by (rule bspec)
  then have reg: "reg_Get (m_registry ?m) k \<noteq> None" if "k \<in> joined ?ev" for k
    using that by (simp add: known_def)
  note eff = on_event_effect [OF node_ok_inv [OF ok] env reg]
  have "take (Suc (nd_done n)) (m_events ?m) = take (nd_done n) (m_events ?m) @ [?ev]"
    using less by (rule take_Suc_conv_app_nth)
  with ok eff less show ?thesis by (simp add: node_ok_def)
qed

lemma node_ok_call:
  assumes "node_ok cfg n"
  shows "node_ok cfg (n\<lparr>nd_cs := fst (ServiceDesc cenv call (nd_cs n))\<rparr>)"
proof -
  note inv = node_ok_inv [OF assms]
  note call = ServiceDesc_inv [OF inv, of cenv call]
  show ?thesis
    by (rule node_ok_cs [OF assms conjunct1 [OF call] service_nodeID [OF node_inv_loads [OF inv]] conjunct2 [OF call]])
qed

lemma node_ok_chaos:
  assumes "node_ok cfg n"
  shows "node_ok cfg (n\<lparr>nd_cs := (nd_cs n)\<lparr>cs_fi := Some fi\<rparr>, nd_sw := (nd_sw n)\<lparr>sw_m := SetFaultInjector (sw_m (nd_sw n)) (Some fi)\<rparr>\<rparr>)"
proof -
  let ?cs = "(nd_cs n)\<lparr>cs_fi := Some fi\<rparr>"
  have "node_inv ?cs" using node_ok_inv [OF assms] by (simp add: node_inv_def)
  from node_ok_cs [OF assms this] have "node_ok cfg (n\<lparr>nd_cs := ?cs\<rparr>)" by simp
  from node_ok_swim [OF this, of "(nd_sw n)\<lparr>sw_m := SetFaultInjector (sw_m (nd_sw n)) (Some fi)\<rparr>"] show ?thesis
    using faults [of "\<lambda>_. True" "nd_sw n" "Some fi"] by simp
qed

lemma node_ok_sweep:
  assumes "node_ok cfg n" "env_ok senv" "\<forall>j. env_now senv j \<le> t" "i < length (shards (cs_store (nd_cs n)))"
    "sweepShard senv i 0 (cs_store (nd_cs n)) = Some s"
  shows "node_ok cfg (n\<lparr>nd_cs := (nd_cs n)\<lparr>cs_store := s\<rparr>\<rparr>)"
proof -
  have "store_inv (cs_store (nd_cs n))" using node_ok_inv [OF assms(1)] by (simp add: node_inv_def)
  from sweepShard_result [OF this assms(4,3,2), of 0] assms(5) have "store_inv s" by simp
  then have "node_inv ((nd_cs n)\<lparr>cs_store := s\<rparr>)" by (rule node_inv_store [OF node_ok_inv [OF assms(1)]])
  from node_ok_cs [OF assms(1) this] show ?thesis by simp
qed

lemma node_ok_decay:
  assumes "node_ok cfg n"
  shows "node_ok cfg (n\<lparr>nd_cs := (nd_cs n)\<lparr>cs_detector := decay_tick (cs_detector (nd_cs n))\<rparr>\<rparr>)"
proof -
  have "cms_inv (cms_apply (sketch (cs_detector (nd_cs n))) Halve)"
    using node_ok_inv [OF assms] by (intro cms_apply_inv) (simp add: node_inv_def)
  then have "node_inv ((nd_cs n)\<lparr>cs_detector := decay_tick (cs_detector (nd_cs n))\<rparr>)"
    using node_ok_inv [OF assms] by (simp add: node_inv_def decay_tick_def)
  from node_ok_cs [OF assms this] show ?thesis by simp
qed

lemma node_ok_send:
  assumes "node_ok cfg n" "cs_rm (nd_cs n) = Some rm" "sendReplicate rm q now ok = Some rm'"
  shows "node_ok cfg (n\<lparr>nd_cs := (nd_cs n)\<lparr>cs_rm := Some rm', cs_sends := qs\<rparr>\<rparr>)"
proof -
  obtain nodeID req where q: "q = (nodeID, req)" by (cases q)
  have "rm_selfID rm' = rm_selfID rm \<and> rm_replicaCount rm' = rm_replicaCount rm"
    using assms(3) by (auto simp: q sendReplicate_def emitEvent_def Let_def split: option.splits if_splits)
  then have "node_inv ((nd_cs n)\<lparr>cs_rm := Some rm', cs_sends := qs\<rparr>)"
    using node_ok_inv [OF assms(1)] assms(2) by (simp add: node_inv_def)
  from node_ok_cs [OF assms(1) this] show ?thesis by simp
qed

lemma node_step_ok:
  assumes "node_ok cfg n" "node_step n n'"
  shows "node_ok cfg n'"
  using assms(2) assms(1)
  by cases (simp_all only: node_ok_swim node_ok_event node_ok_call node_ok_chaos node_ok_sweep node_ok_decay node_ok_send)

lemma main_node_ok:
  assumes "vnode_sort sortf" "main_node cfg sortf now = Some n" "Validate cfg = None"
  shows "node_ok cfg n"
proof -
  let ?self = "NewNodeInfo (c_NodeID cfg) (c_GRPCAddr cfg) (c_GossipAddr cfg) (c_HTTPAddr cfg) now"
  let ?r = "fst (AddNode sortf (NewRing (c_VirtualNodes cfg) (c_MaxLoadFactor cfg)) (c_NodeID cfg))"
  have n: "n = \<lparr>nd_cs = main_server cfg sortf empty_store now, nd_sw = swim_init ?self, nd_done = 0\<rparr>"
    using assms(2) by (simp add: main_node_def store_New_empty)
  have ring: "ring_inv ?r" "loads_ok ?r"
    by (rule vnode_sort.AddNode_inv [OF assms(1) NewRing_inv])
      (rule loads_ok_ring(1), simp add: loads_ok_def NewRing_def)
  have "node_inv (main_server cfg sortf empty_store now)"
    using ring assms(3)
    by (auto simp: node_inv_def main_server_def NewCacheServer_def empty_store_inv SetOn_inv NewDetector_def cms_New_inv
        NewReplicationManager_def Validate_None Let_def) (simp_all add: loads_ok_def SetOnNodeAdded_def SetOnNodeRemoved_def)
  moreover have "HasNode (SetOnNodeRemoved (SetOnNodeAdded r)) k = HasNode r k" for r k
    by (simp add: HasNode_def SetOnNodeRemoved_def SetOnNodeAdded_def)
  then have "\<not> HasNode (cs_ring (main_server cfg sortf empty_store now)) k" if "k \<noteq> c_NodeID cfg" for k
    using that by (simp add: main_server_def NewCacheServer_def Let_def HasNode_AddNode) (simp add: HasNode_def NewRing_def)
  moreover have "swim_reach ?self (swim_init ?self)" by (rule reach_init)
  ultimately show ?thesis
    by (auto simp: n node_ok_def main_server_def NewCacheServer_def NewNodeInfo_def Let_def intro!: exI [of _ ?self])
qed

lemma node_reach_ok: "node_reach cfg n \<Longrightarrow> Validate cfg = None \<Longrightarrow> node_ok cfg n"
  by (induction rule: node_reach.induct) (auto intro: main_node_ok node_step_ok)


section \<open>Witness\<close>

definition w_cfg :: Config where
  "w_cfg = DefaultConfig\<lparr>c_NodeID := ''a''\<rparr>"

abbreviation w_self :: NodeInfo where
  "w_self \<equiv> NewNodeInfo ''a'' '':7001'' '':8001'' '':9001'' 0"

definition w_sw :: Swim where
  "w_sw = (swim_init w_self)\<lparr>sw_m := fst (receive (\<lambda>m. m) Some (sw_m (swim_init w_self)) ping_from_b ''ub'' (\<lambda>_. 1))\<rparr>"

definition w_node :: "Swim \<Rightarrow> Node" where
  "w_node sw = \<lparr>nd_cs = main_server w_cfg (sort_key vHash) empty_store 0, nd_sw = sw, nd_done = 0\<rparr>"

definition w_env_node :: node_env where
  "w_env_node = \<lparr>ne_sort = sort_key vHash, ne_dial = \<lambda>_ _. True, ne_rng = \<lambda>_ m. m, ne_now = 7\<rparr>"

lemma w_sw_step: "swim_step (swim_init w_self) w_sw"
proof -
  have "receive (\<lambda>m. m) Some (sw_m (swim_init w_self)) ping_from_b ''ub'' (\<lambda>_. 1) = (sw_m w_sw, RecvIdle)"
    by (simp add: w_sw_def prod_eq_iff, code_simp)
  then have "swim_step (swim_init w_self) ((swim_init w_self)\<lparr>sw_m := sw_m w_sw, sw_recv := RecvIdle\<rparr>)"
    by (intro recv_msg [where rng = "\<lambda>m. m"]) (simp_all add: swim_init_def rng_insertion.range_order_axioms)
  moreover have "(swim_init w_self)\<lparr>sw_m := sw_m w_sw, sw_recv := RecvIdle\<rparr> = w_sw"
    by (simp add: w_sw_def swim_init_def)
  ultimately show ?thesis by simp
qed

lemma w_sw_facts: "m_events (sw_m w_sw) = [EventJoin ''b'']" "reg_Get (m_registry (sw_m w_sw)) ''b'' = Some node_b"
  by code_simp+

lemma w_node_reach: "node_reach w_cfg (w_node w_sw)"
proof -
  have "main_node w_cfg (sort_key vHash) 0 = Some (w_node (swim_init w_self))"
    by (simp add: main_node_def store_New_empty w_node_def w_cfg_def DefaultConfig_def)
  then have start: "node_reach w_cfg (w_node (swim_init w_self))" by (rule node_start [OF stable_sort.vnode_sort_axioms])
  have "node_step (w_node (swim_init w_self)) ((w_node (swim_init w_self))\<lparr>nd_sw := w_sw\<rparr>)"
    by (rule protocol) (simp add: w_node_def w_sw_step)
  moreover have "(w_node (swim_init w_self))\<lparr>nd_sw := w_sw\<rparr> = w_node w_sw" by (simp add: w_node_def)
  ultimately show ?thesis using node_next [OF start] by simp
qed


end
