(* ===== verification/Client.thy ===== *)
theory Client
  imports Replication L1_Cache Chaos
begin

text \<open>
  The client SDK, \<open>client/client.go\<close>. \<open>dial\<close> is whether \<open>grpc.DialContext\<close> connected to an
  address, \<open>invoke\<close> the reply to a call on the connection to an address, \<open>fl\<close> the rounding of
  the ring's floats. A connection is represented by its address.
\<close>

section \<open>Data\<close>

record Client =
  cl_ring :: Ring
  cl_conns :: "(string, string) gomap"
  cl_addrs :: "(string, string) gomap"
  cl_l1 :: "L1Cache option"
  cl_dialTimeout :: duration
  cl_requestTimeout :: duration

datatype client_option = WithDialTimeout duration | WithRequestTimeout duration | WithL1Cache int duration

fun apply_option :: "Client \<Rightarrow> client_option \<Rightarrow> Client" where
  "apply_option c (WithDialTimeout d) = c\<lparr>cl_dialTimeout := d\<rparr>"
| "apply_option c (WithRequestTimeout d) = c\<lparr>cl_requestTimeout := d\<rparr>"
| "apply_option c (WithL1Cache cap ttl) = c\<lparr>cl_l1 := Some (NewL1Cache cap ttl)\<rparr>"

datatype client_error =
    Connecting string string | No_nodes | No_connection string | Unknown_node string | Closing string
  | Call_failed string string rpc_error

section \<open>Connecting\<close>

definition addNode :: "(VNode list \<Rightarrow> VNode list) \<Rightarrow> (string \<Rightarrow> bool) \<Rightarrow> Client \<Rightarrow> string \<Rightarrow> string \<Rightarrow> Client option" where
  "addNode sortf dial c nodeID addr =
     (if \<not> dial addr then None
      else Some (c\<lparr>cl_conns := gm_put nodeID addr (cl_conns c), cl_addrs := gm_put nodeID addr (cl_addrs c),
                   cl_ring := fst (AddNode sortf (cl_ring c) nodeID)\<rparr>))"

text \<open>
  \<open>Close\<close> reports the first connection that failed to close, in the iteration order \<open>rng\<close>, and
  forgets all of them. \<open>NewClient\<close> closes the client it was building when a node cannot be dialled
  and returns none.
\<close>

definition client_Close :: "((string, string) gomap \<Rightarrow> (string, string) gomap) \<Rightarrow> (string \<Rightarrow> bool) \<Rightarrow> Client \<Rightarrow>
    Client \<times> client_error option" where
  "client_Close rng close_ok c =
     (c\<lparr>cl_conns := [], cl_l1 := map_option l1_Clear (cl_l1 c)\<rparr>,
      map_option (\<lambda>(nodeID, _). Closing nodeID) (find (\<lambda>(_, conn). \<not> close_ok conn) (rng (cl_conns c))))"

fun add_nodes :: "(VNode list \<Rightarrow> VNode list) \<Rightarrow> (string \<Rightarrow> bool) \<Rightarrow> Client \<Rightarrow> (string \<times> string) list \<Rightarrow> client_error + Client" where
  "add_nodes sortf dial c [] = Inr c"
| "add_nodes sortf dial c ((nodeID, addr) # ns) =
     (case addNode sortf dial c nodeID addr of
        None \<Rightarrow> Inl (Connecting nodeID addr)
      | Some c' \<Rightarrow> add_nodes sortf dial c' ns)"

definition NewClient :: "(VNode list \<Rightarrow> VNode list) \<Rightarrow> (string \<Rightarrow> bool) \<Rightarrow>
    ((string, string) gomap \<Rightarrow> (string, string) gomap) \<Rightarrow> (string, string) gomap \<Rightarrow> client_option list \<Rightarrow>
    client_error + Client" where
  "NewClient sortf dial rng ns opts =
     (let c = foldl apply_option
            \<lparr>cl_ring = NewRing 150 (1 / 4), cl_conns = [], cl_addrs = [], cl_l1 = None,
             cl_dialTimeout = 5000 * Millisecond, cl_requestTimeout = 3000 * Millisecond\<rparr> opts
      in add_nodes sortf dial c (rng ns))"

section \<open>Operations\<close>

definition getConn :: "(rat \<Rightarrow> rat) \<Rightarrow> Client \<Rightarrow> string \<Rightarrow> client_error + string \<times> string" where
  "getConn fl c key =
     (case GetNode fl (cl_ring c) key of
        None \<Rightarrow> Inl No_nodes
      | Some nodeID \<Rightarrow>
          (case gm_get (cl_conns c) nodeID of
             None \<Rightarrow> Inl (No_connection nodeID)
           | Some conn \<Rightarrow> Inr (conn, nodeID)))"

text \<open>
  \<open>Get\<close> reads the clock at most twice: in the lookup of the local cache and when it stores a hot
  reply there. \<open>get_remote\<close> is \<open>Get\<close> after a miss.
\<close>

definition get_remote :: "(rat \<Rightarrow> rat) \<Rightarrow> (string \<Rightarrow> GetRequest \<Rightarrow> rpc_error + GetResponse) \<Rightarrow> instant \<Rightarrow> string \<Rightarrow> Client \<Rightarrow>
    Client \<times> (client_error + bytes \<times> bool)" where
  "get_remote fl invoke now key c =
     (case getConn fl c key of
        Inl err \<Rightarrow> (c, Inl err)
      | Inr (conn, _) \<Rightarrow>
          (case invoke conn \<lparr>gq_Key = key\<rparr> of
             Inl err \<Rightarrow> (c, Inl (Call_failed ''get'' key err))
           | Inr resp \<Rightarrow>
               (case cl_l1 c of
                  Some l1 \<Rightarrow>
                    if gr_Found resp \<and> gr_IsHot resp
                    then (c\<lparr>cl_l1 := Some (l1_Set l1 key (gr_Value resp) (dur_of_ms (gr_TtlMs resp)) now)\<rparr>,
                          Inr (gr_Value resp, gr_Found resp))
                    else (c, Inr (gr_Value resp, gr_Found resp))
                | None \<Rightarrow> (c, Inr (gr_Value resp, gr_Found resp)))))"

definition client_Get :: "(rat \<Rightarrow> rat) \<Rightarrow> (string \<Rightarrow> GetRequest \<Rightarrow> rpc_error + GetResponse) \<Rightarrow> instant \<Rightarrow> instant \<Rightarrow> string \<Rightarrow> Client \<Rightarrow>
    Client \<times> (client_error + bytes \<times> bool)" where
  "client_Get fl invoke now1 now2 key c =
     (case cl_l1 c of
        None \<Rightarrow> get_remote fl invoke now2 key c
      | Some l1 \<Rightarrow>
          (case l1_Get l1 key now1 of
             (l1', val, ok) \<Rightarrow>
               let c' = c\<lparr>cl_l1 := Some l1'\<rparr> in
               if ok then (c', Inr (val, True)) else get_remote fl invoke now2 key c'))"

definition forget :: "string \<Rightarrow> Client \<Rightarrow> Client" where
  "forget key c = c\<lparr>cl_l1 := map_option (\<lambda>l1. l1_Delete l1 key) (cl_l1 c)\<rparr>"

definition client_Set :: "(rat \<Rightarrow> rat) \<Rightarrow> (string \<Rightarrow> SetRequest \<Rightarrow> rpc_error + SetResponse) \<Rightarrow> string \<Rightarrow> bytes \<Rightarrow> duration \<Rightarrow> Client \<Rightarrow>
    Client \<times> client_error option" where
  "client_Set fl invoke key value ttl c =
     (let c' = forget key c in
      case getConn fl c' key of
        Inl err \<Rightarrow> (c', Some err)
      | Inr (conn, _) \<Rightarrow>
          (case invoke conn \<lparr>sq_Key = key, sq_Value = value, sq_TtlMs = Milliseconds ttl\<rparr> of
             Inl err \<Rightarrow> (c', Some (Call_failed ''set'' key err))
           | Inr resp \<Rightarrow> (c', None)))"

definition client_Delete :: "(rat \<Rightarrow> rat) \<Rightarrow> (string \<Rightarrow> DeleteRequest \<Rightarrow> rpc_error + DeleteResponse) \<Rightarrow> string \<Rightarrow> Client \<Rightarrow>
    Client \<times> (client_error + bool)" where
  "client_Delete fl invoke key c =
     (let c' = forget key c in
      case getConn fl c' key of
        Inl err \<Rightarrow> (c', Inl err)
      | Inr (conn, _) \<Rightarrow>
          (case invoke conn \<lparr>dq_Key = key\<rparr> of
             Inl err \<Rightarrow> (c', Inl (Call_failed ''delete'' key err))
           | Inr resp \<Rightarrow> (c', Inr (dr_Existed resp))))"

definition client_Ping :: "(string \<Rightarrow> unit \<Rightarrow> rpc_error + PingResponse) \<Rightarrow> string \<Rightarrow> Client \<Rightarrow> client_error + PingResponse" where
  "client_Ping invoke nodeID c =
     (case gm_get (cl_conns c) nodeID of
        None \<Rightarrow> Inl (Unknown_node nodeID)
      | Some conn \<Rightarrow>
          (case invoke conn () of Inl err \<Rightarrow> Inl (Call_failed ''ping'' nodeID err) | Inr resp \<Rightarrow> Inr resp))"

definition NodeForKey :: "(rat \<Rightarrow> rat) \<Rightarrow> Client \<Rightarrow> string \<Rightarrow> client_error + string" where
  "NodeForKey fl c key = (case GetNode fl (cl_ring c) key of None \<Rightarrow> Inl No_nodes | Some nodeID \<Rightarrow> Inr nodeID)"

definition client_Nodes :: "Client \<Rightarrow> string list" where
  "client_Nodes c = Members (cl_ring c)"

section \<open>Routing\<close>

definition client_inv :: "Client \<Rightarrow> bool" where
  "client_inv c \<longleftrightarrow> ring_inv (cl_ring c) \<and> nodeVnodes (cl_ring c) = 150 \<and> (\<forall>x. GetLoad (cl_ring c) x = 0)"

lemma addNode_effect:
  assumes "vnode_sort sortf" "client_inv c" "addNode sortf dial c x addr = Some c'"
  shows "client_inv c' \<and> fst ` set (nodes (cl_ring c')) = insert x (fst ` set (nodes (cl_ring c))) \<and>
    (\<forall>k. gm_get (cl_conns c') k = (if k = x then Some addr else gm_get (cl_conns c) k)) \<and> cl_l1 c' = cl_l1 c"
proof -
  have inv: "ring_inv (cl_ring c)" using assms(2) by (simp add: client_inv_def)
  have c': "c' = c\<lparr>cl_conns := gm_put x addr (cl_conns c), cl_addrs := gm_put x addr (cl_addrs c),
      cl_ring := fst (AddNode sortf (cl_ring c) x)\<rparr>"
    using assms(3) by (simp add: addNode_def split: if_splits)
  have "GetLoad (fst (AddNode sortf (cl_ring c) x)) y = 0" for y
    using assms(2) by (simp add: client_inv_def AddNode_def GetLoad_def)
  moreover have "nodeVnodes (fst (AddNode sortf (cl_ring c) x)) = 150" using assms(2) by (simp add: client_inv_def AddNode_def)
  moreover have "fst ` set (nodes (fst (AddNode sortf (cl_ring c) x))) = insert x (fst ` set (nodes (cl_ring c)))"
    using HasNode_iff [OF inv, of x] by (auto simp: AddNode_def gm_keys_put)
  ultimately show ?thesis using vnode_sort.AddNode_inv [OF assms(1) inv, of x] by (simp add: c' client_inv_def)
qed

lemma add_nodes_effect:
  assumes "vnode_sort sortf" "client_inv c" "add_nodes sortf dial c ns = Inr c'" "distinct (map fst ns)"
  shows "client_inv c' \<and> fst ` set (nodes (cl_ring c')) = fst ` set (nodes (cl_ring c)) \<union> fst ` set ns \<and>
    (\<forall>k. gm_get (cl_conns c') k = (case map_of ns k of Some a \<Rightarrow> Some a | None \<Rightarrow> gm_get (cl_conns c) k)) \<and> cl_l1 c' = cl_l1 c"
  using assms(2,3,4)
proof (induction ns arbitrary: c)
  case (Cons n ns)
  obtain x addr where n: "n = (x, addr)" by (cases n)
  with Cons.prems(2) obtain c1 where c1: "addNode sortf dial c x addr = Some c1" "add_nodes sortf dial c1 ns = Inr c'"
    by (auto split: option.splits)
  note eff = addNode_effect [OF assms(1) Cons.prems(1) c1(1)]
  have "map_of ns x = None" using Cons.prems(3) n by (simp add: map_of_eq_None_iff)
  with Cons.IH [OF _ c1(2)] eff Cons.prems(3) n show ?case by (auto split: option.splits)
qed simp

lemma fold_options:
  "cl_ring (foldl apply_option c opts) = cl_ring c" "cl_conns (foldl apply_option c opts) = cl_conns c"
proof -
  have "cl_ring (apply_option c opt) = cl_ring c" "cl_conns (apply_option c opt) = cl_conns c" for c opt
    by (cases opt; simp)+
  then show "cl_ring (foldl apply_option c opts) = cl_ring c" "cl_conns (foldl apply_option c opts) = cl_conns c"
    by (induction opts arbitrary: c) simp_all
qed

lemma NewClient_effect:
  assumes "vnode_sort sortf" "range_order rng" "gm_inv ns" "NewClient sortf dial rng ns opts = Inr c"
  shows "client_inv c" "fst ` set (nodes (cl_ring c)) = fst ` set ns" "gm_get (cl_conns c) k = gm_get ns k"
proof -
  let ?c = "foldl apply_option
            \<lparr>cl_ring = NewRing 150 (1 / 4), cl_conns = [], cl_addrs = [], cl_l1 = None,
             cl_dialTimeout = 5000 * Millisecond, cl_requestTimeout = 3000 * Millisecond\<rparr> opts"
  have "client_inv ?c" using NewRing_inv [of 150 "1 / 4"] by (simp add: client_inv_def fold_options) (simp add: NewRing_def GetLoad_def)
  moreover have dist: "distinct (map fst (rng ns))" using assms(2,3) by (simp add: gm_inv_def range_order.rng_distinct)
  moreover have "add_nodes sortf dial ?c (rng ns) = Inr c" using assms(4) by (simp add: NewClient_def)
  ultimately have eff: "client_inv c" "fst ` set (nodes (cl_ring c)) = fst ` set (nodes (cl_ring ?c)) \<union> fst ` set (rng ns)"
    "gm_get (cl_conns c) k = (case map_of (rng ns) k of Some a \<Rightarrow> Some a | None \<Rightarrow> gm_get (cl_conns ?c) k)"
    using add_nodes_effect [OF assms(1)] by blast+
  have rset: "set (rng ns) = set ns" by (rule range_order.rng_set [OF assms(2)])
  then have "map_of (rng ns) = map_of ns"
    using dist assms(3) by (intro map_of_inject_set [THEN iffD2]) (auto simp: gm_inv_def)
  with eff rset show "client_inv c" "fst ` set (nodes (cl_ring c)) = fst ` set ns" "gm_get (cl_conns c) k = gm_get ns k"
    by (simp_all add: fold_options NewRing_def split: option.split)
qed

lemma mset_concat_map: "mset (concat (map f xs)) = \<Sum>\<^sub># (image_mset (\<lambda>x. mset (f x)) (mset xs))"
  by (induction xs) simp_all

lemma ring_vnodes_unique:
  assumes "ring_inv r" "ring_inv r'" "fst ` set (nodes r) = fst ` set (nodes r')" "nodeVnodes r = nodeVnodes r'"
    and "distinct (map vHash (vnodes r))"
  shows "vnodes r' = vnodes r"
proof (rule map_sorted_distinct_set_unique [of vHash])
  have "mset (map fst (nodes r)) = mset (map fst (nodes r'))"
    using assms(1-3) by (intro set_eq_iff_mset_eq_distinct [THEN iffD1]) (simp_all add: ring_inv_def gm_inv_def)
  then have "mset (concat (map (node_vnodes k) (map fst (nodes r)))) = mset (concat (map (node_vnodes k) (map fst (nodes r'))))" for k
    unfolding mset_concat_map by (simp only:)
  then have ms: "mset (vnodes r') = mset (vnodes r)" using assms(1,2,4) by (simp add: ring_inv_def)
  then show set: "set (vnodes r') = set (vnodes r)" by (rule mset_eq_setD)
  show "sorted (map vHash (vnodes r'))" "sorted (map vHash (vnodes r))" using assms(1,2) by (simp_all add: ring_inv_def)
  show "distinct (map vHash (vnodes r))" by (rule assms(5))
  then show "distinct (map vHash (vnodes r'))" using ms by (metis mset_eq_imp_distinct_iff mset_map)
  show "inj_on vHash (set (vnodes r') \<union> set (vnodes r))" using assms(5) by (simp add: set distinct_map)
qed

lemma GetPrimary_pref:
  "ring_inv r \<Longrightarrow> GetPrimary r key = (if pref r key = [] then None else Some (hd (pref r key)))"
  using GetNodes_pref [of r key 1] by (cases "pref r key") (simp_all add: GetPrimary_def)

text \<open>The client never counts load, so the bounded-load walk of its ring stops at the first node.\<close>

lemma client_GetNode:
  assumes "client_inv c"
  shows "GetNode fl (cl_ring c) key = (if pref (cl_ring c) key = [] then None else Some (hd (pref (cl_ring c) key)))"
proof -
  have inv: "ring_inv (cl_ring c)" "\<And>x. GetLoad (cl_ring c) x = 0" using assms by (simp_all add: client_inv_def)
  have "find (\<lambda>y. GetLoad (cl_ring c) y < maxLoad fl (cl_ring c)) xs = (if xs = [] then None else Some (hd xs))" for xs
    using maxLoad_pos [of fl "cl_ring c"] by (cases xs) (simp_all add: inv(2))
  then show ?thesis using GetNode_pref [OF inv(1), of fl key] pref_eq_Nil [OF inv(1), of key] by simp
qed

text \<open>
  C16. The client routes to the primary. A client connected to the members of a ring, in
  whatever order, sends each key to the very node that the servers with that ring take for its
  primary, over the connection dialled for that node. This needs 150 virtual nodes per server,
  the number the client assumes, and no two of them with the same hash.
\<close>
theorem client_routes_to_primary:
  assumes "vnode_sort sortf" "range_order rng" "gm_inv ns" "NewClient sortf dial rng ns opts = Inr c"
    and "ring_inv r" "fst ` set (nodes r) = fst ` set ns" "nodeVnodes r = 150" "distinct (map vHash (vnodes r))"
  shows "NodeForKey fl c key = (case GetPrimary r key of None \<Rightarrow> Inl No_nodes | Some p \<Rightarrow> Inr p) \<and>
    (\<forall>p. GetPrimary r key = Some p \<longrightarrow> (\<exists>addr. gm_get ns p = Some addr \<and> getConn fl c key = Inr (addr, p)))"
proof -
  note new = NewClient_effect [OF assms(1-4)]
  have inv: "ring_inv (cl_ring c)" "nodeVnodes (cl_ring c) = 150"
    using new(1) by (simp_all add: client_inv_def)
  have "vnodes (cl_ring c) = vnodes r"
    by (rule ring_vnodes_unique [OF assms(5) inv(1) _ _ assms(8)]) (simp_all add: assms(6,7) new(2) inv(2))
  then have pref: "pref (cl_ring c) key = pref r key" by (simp add: pref_def)
  note get = client_GetNode [OF new(1), of fl key, unfolded pref] and prim = GetPrimary_pref [OF assms(5), of key]
  have "\<exists>addr. gm_get ns (hd (pref r key)) = Some addr" if "pref r key \<noteq> []"
  proof -
    have "hd (pref r key) \<in> fst ` set ns"
      using that set_pref [OF assms(5), of key] assms(6) hd_in_set [OF that] by blast
    then have "hd (pref r key) \<notin> {k. map_of ns k = None}" by (simp add: map_of_eq_None_iff)
    then show ?thesis by auto
  qed
  then show ?thesis using get prim new(3) by (auto simp: NodeForKey_def getConn_def)
qed

text \<open>The hashes of the 150 virtual nodes of \<open>''n''\<close> differ: \<open>hash_order\<close> lists them in increasing order.\<close>

definition hash_order :: "nat list" where
  "hash_order =
    [59, 58, 51, 50, 53, 52, 55, 54, 57, 56, 28, 29, 24, 25, 26, 27, 20, 21, 22, 23, 39, 38,
     37, 36, 35, 34, 33, 32, 31, 30, 15, 14, 17, 16, 11, 10, 13, 12, 19, 18, 88, 89, 82, 83,
     80, 81, 86, 87, 84, 85, 99, 98, 95, 94, 97, 96, 91, 90, 93, 92, 6, 7, 4, 5, 2, 3, 0, 1, 8,
     9, 143, 142, 141, 140, 147, 146, 145, 144, 149, 148, 118, 119, 114, 115, 116, 117, 110,
     111, 112, 113, 109, 108, 107, 106, 105, 104, 103, 102, 101, 100, 132, 133, 130, 131, 136,
     137, 134, 135, 138, 139, 125, 124, 127, 126, 121, 120, 123, 122, 129, 128, 60, 61, 62, 63,
     64, 65, 66, 67, 68, 69, 73, 72, 71, 70, 77, 76, 75, 74, 79, 78, 46, 47, 44, 45, 42, 43,
     40, 41, 48, 49]"

lemma sort_hash_order: "sort hash_order = [0..<150]"
  by code_simp

lemma hash_order_increasing: "successively (<) (map (hashVNode ''n'') hash_order)"
  by code_simp

lemma vnode_hashes_distinct: "distinct (map vHash (node_vnodes 150 ''n''))"
proof -
  have "mset hash_order = mset [0..<150]" using sort_hash_order by (metis mset_sort)
  then have "mset (map (hashVNode ''n'') hash_order) = mset (map (hashVNode ''n'') [0..<150])" by (simp only: mset_map)
  moreover have "distinct (map (hashVNode ''n'') hash_order)"
    using hash_order_increasing by (simp add: successively_conv_sorted_wrt strict_sorted_iff)
  ultimately have "distinct (map (hashVNode ''n'') [0..<150])" by (metis mset_eq_imp_distinct_iff)
  then show ?thesis by (simp add: node_vnodes_def o_def)
qed

definition demo_client_ring :: Ring where
  "demo_client_ring = fst (AddNode (sort_key vHash) (NewRing 150 (1 / 4)) ''n'')"

lemma demo_client_ring_fields:
  "nodes demo_client_ring = [(''n'', True)]" "nodeVnodes demo_client_ring = 150"
  "vnodes demo_client_ring = sort_key vHash (node_vnodes 150 ''n'')"
  by (simp_all add: demo_client_ring_def AddNode_def NewRing_def HasNode_def)

lemma demo_client_ring_inv: "ring_inv demo_client_ring"
  unfolding demo_client_ring_def by (rule stable_sort.AddNode_inv [OF NewRing_inv])

definition demo_client :: Client where
  "demo_client =
     \<lparr>cl_ring = demo_client_ring, cl_conns = [(''n'', ''a:1'')], cl_addrs = [(''n'', ''a:1'')],
      cl_l1 = Some (NewL1Cache 2 1000), cl_dialTimeout = 5000 * Millisecond, cl_requestTimeout = 3000 * Millisecond\<rparr>"

lemma NewClient_demo:
  "NewClient (sort_key vHash) (\<lambda>_. True) (\<lambda>xs. xs) [(''n'', ''a:1'')] [WithL1Cache 2 1000] = Inr demo_client"
  by (simp add: NewClient_def addNode_def demo_client_def demo_client_ring_def)

lemma demo_pref: "pref demo_client_ring key \<noteq> [] \<and> hd (pref demo_client_ring key) = ''n''"
proof -
  have "set (pref demo_client_ring key) = {''n''}"
    using set_pref [OF demo_client_ring_inv, of key] by (simp add: demo_client_ring_fields)
  then show ?thesis by (cases "pref demo_client_ring key") auto
qed

theorem client_routes_to_primary_witness:
  "NodeForKey id demo_client ''k'' = Inr ''n'' \<and> getConn id demo_client ''k'' = Inr (''a:1'', ''n'')"
proof -
  have "distinct (map vHash (vnodes demo_client_ring))"
    using vnode_hashes_distinct by (simp add: demo_client_ring_fields distinct_map)
  then show ?thesis
    using client_routes_to_primary [OF stable_sort.vnode_sort_axioms rng_insertion.range_order_axioms _ NewClient_demo
        demo_client_ring_inv, of id "''k''"]
    by (auto simp: demo_client_ring_fields GetPrimary_pref [OF demo_client_ring_inv] demo_pref gm_inv_def)
qed

section \<open>The contract of the local cache\<close>

text \<open>
  What the client relies on: the cache shows values with their expiry, a hit returns a shown
  value that has not expired, and an operation adds nothing to what is shown but what it was
  asked to store. Entries may disappear at any time.
\<close>

locale local_cache =
  fixes get :: "'c \<Rightarrow> string \<Rightarrow> instant \<Rightarrow> 'c \<times> bytes \<times> bool"
    and put :: "'c \<Rightarrow> string \<Rightarrow> bytes \<Rightarrow> duration \<Rightarrow> instant \<Rightarrow> 'c"
    and del :: "'c \<Rightarrow> string \<Rightarrow> 'c" and clear :: "'c \<Rightarrow> 'c"
    and shown :: "'c \<Rightarrow> string \<rightharpoonup> bytes \<times> instant" and lifetime :: "'c \<Rightarrow> duration \<Rightarrow> duration"
    and cinv :: "'c \<Rightarrow> bool"
  assumes get_hit: "cinv c \<Longrightarrow> get c k now = (c', v, True) \<Longrightarrow> \<exists>exp. shown c k = Some (v, exp) \<and> now \<le> exp"
    and get_shown: "cinv c \<Longrightarrow> get c k now = (c', v, ok) \<Longrightarrow> cinv c' \<and> shown c' \<subseteq>\<^sub>m shown c"
    and put_shown: "cinv c \<Longrightarrow> cinv (put c k v ttl now) \<and>
      shown (put c k v ttl now) \<subseteq>\<^sub>m (shown c)(k \<mapsto> (v, now + lifetime c ttl))"
    and del_shown: "cinv c \<Longrightarrow> cinv (del c k) \<and> shown (del c k) \<subseteq>\<^sub>m (shown c)(k := None)"
    and clear_shown: "cinv c \<Longrightarrow> cinv (clear c) \<and> shown (clear c) = Map.empty"
begin

definition backed :: "'c \<Rightarrow> (string \<rightharpoonup> bytes \<times> instant) \<Rightarrow> bool" where
  "backed c g \<longleftrightarrow> cinv c \<and> shown c \<subseteq>\<^sub>m g"

lemma backed_get:
  assumes "backed c g" "get c k now = (c', v, ok)"
  shows "backed c' g" "ok \<Longrightarrow> \<exists>exp. g k = Some (v, exp) \<and> now \<le> exp"
proof -
  show "backed c' g" using assms get_shown unfolding backed_def by (blast intro: map_le_trans)
  assume ok
  with assms get_hit [of c k now c' v] obtain exp where "shown c k = Some (v, exp)" "now \<le> exp"
    by (auto simp: backed_def)
  moreover have "k \<in> dom (shown c)" using calculation by blast
  ultimately show "\<exists>exp. g k = Some (v, exp) \<and> now \<le> exp" using assms(1) by (auto simp: backed_def map_le_def)
qed

lemma backed_put: "backed c g \<Longrightarrow> backed (put c k v ttl now) (g(k \<mapsto> (v, now + lifetime c ttl)))"
  unfolding backed_def using put_shown by (meson map_le_trans map_le_upd)

lemma backed_del: "backed c g \<Longrightarrow> backed (del c k) (g(k := None))"
  unfolding backed_def using del_shown by (auto simp: map_le_def) (metis domI fun_upd_apply option.distinct(1))

lemma backed_clear: "backed c g \<Longrightarrow> backed (clear c) Map.empty"
  unfolding backed_def using clear_shown by simp

end

definition l1_shown :: "L1Cache \<Rightarrow> string \<rightharpoonup> bytes \<times> instant" where
  "l1_shown c k = map_option (\<lambda>e. (l1value e, l1expiresAt e)) (lru_find k (l1_abs c))"

definition l1_lifetime :: "L1Cache \<Rightarrow> duration \<Rightarrow> duration" where
  "l1_lifetime c ttl = (if ttl \<le> 0 then defaultTTL c else ttl)"

lemma lru_find_Cons: "lru_find k (e # l) = (if l1key e = k then Some e else lru_find k l)"
  by (simp add: lru_find_def)

lemma lru_find_others: "lru_find j (others k l) = (if j = k then None else lru_find j l)"
  by (induction l) (auto simp: others_def lru_find_def)

lemma lru_find_take: "lru_find k (take n l) = Some e \<Longrightarrow> lru_find k l = Some e"
  by (induction l arbitrary: n) (auto simp: lru_find_def take_Cons split: nat.splits if_splits)

lemma lru_find_set:
  assumes "lru_find j (lru_set n l k v t) = Some e"
  shows "if j = k then e = \<lparr>l1key = k, l1value = v, l1expiresAt = t\<rparr> else lru_find j l = Some e"
  using lru_find_take [OF assms [unfolded lru_set_def]] by (auto simp: lru_find_Cons lru_find_others split: if_splits)

lemma lru_find_key: "lru_find k l = Some e \<Longrightarrow> l1key e = k"
  by (induction l) (auto simp: lru_find_def split: if_splits)

interpretation lc: local_cache l1_Get l1_Set l1_Delete l1_Clear l1_shown l1_lifetime l1_inv
proof
  fix c c' k now v ok ttl
  assume inv: "l1_inv c"
  note ex = l1_exec_refines [OF inv]
  have get: "l1_abs (fst (l1_Get c k now)) = fst (lru_get (l1_abs c) k now)" "snd (l1_Get c k now) = snd (lru_get (l1_abs c) k now)"
    using l1_Get_refines [of c k now] inv by (simp_all add: l1_inv_def)
  show "\<exists>exp. l1_shown c k = Some (v, exp) \<and> now \<le> exp" if "l1_Get c k now = (c', v, True)"
    using get(2) that by (auto simp: l1_shown_def lru_get_def split: option.splits if_splits)
  show "l1_inv c' \<and> l1_shown c' \<subseteq>\<^sub>m l1_shown c" if "l1_Get c k now = (c', v, ok)"
    using get(1) that ex [of "LGet k now"]
    by (auto simp: map_le_def l1_shown_def lru_get_def lru_find_Cons lru_find_others dest: lru_find_key split: option.splits if_splits)
  have "l1_abs (l1_Set c k v ttl now) = lru_set (nat (capacity c)) (l1_abs c) k v (now + l1_lifetime c ttl)"
    using l1_Set_refines [OF inv, of k v ttl now] by (simp add: set_expiry_def l1_lifetime_def)
  then have "((l1_shown c)(k \<mapsto> (v, now + l1_lifetime c ttl))) j = Some w" if "l1_shown (l1_Set c k v ttl now) j = Some w" for j w
    using that lru_find_set [of j _ "l1_abs c" k v] by (fastforce simp: l1_shown_def split: if_splits)
  then show "l1_inv (l1_Set c k v ttl now) \<and> l1_shown (l1_Set c k v ttl now) \<subseteq>\<^sub>m (l1_shown c)(k \<mapsto> (v, now + l1_lifetime c ttl))"
    using l1_Set_refines [OF inv, of k v ttl now] by (simp add: map_le_def dom_def) metis
  have "l1_abs (l1_Delete c k) = others k (l1_abs c)"
    using l1_Delete_refines [of c k] inv by (simp add: l1_inv_def lru_delete_def)
  then have "l1_shown (l1_Delete c k) = (l1_shown c)(k := None)"
    by (simp add: fun_eq_iff l1_shown_def lru_find_others)
  then show "l1_inv (l1_Delete c k) \<and> l1_shown (l1_Delete c k) \<subseteq>\<^sub>m (l1_shown c)(k := None)"
    using ex [of "LDelete k"] by simp
  show "l1_inv (l1_Clear c) \<and> l1_shown (l1_Clear c) = Map.empty"
    using ex [of LClear] by (auto simp: l1_shown_def lru_find_def fun_eq_iff)
qed

section \<open>Coherence of the local cache\<close>

text \<open>
  A run of the client, and the record of what its own calls since the last invalidation have
  told it about a hot key: value and expiry of the last hot reply, forgotten when this client
  writes or deletes the key, or closes.
\<close>

datatype client_op =
    Op_Get "string \<Rightarrow> GetRequest \<Rightarrow> rpc_error + GetResponse" instant instant string
  | Op_Set "string \<Rightarrow> SetRequest \<Rightarrow> rpc_error + SetResponse" string bytes duration
  | Op_Delete "string \<Rightarrow> DeleteRequest \<Rightarrow> rpc_error + DeleteResponse" string
  | Op_Close "(string, string) gomap \<Rightarrow> (string, string) gomap" "string \<Rightarrow> bool"

fun client_exec :: "(rat \<Rightarrow> rat) \<Rightarrow> Client \<Rightarrow> client_op \<Rightarrow> Client" where
  "client_exec fl c (Op_Get invoke now1 now2 key) = fst (client_Get fl invoke now1 now2 key c)"
| "client_exec fl c (Op_Set invoke key value ttl) = fst (client_Set fl invoke key value ttl c)"
| "client_exec fl c (Op_Delete invoke key) = fst (client_Delete fl invoke key c)"
| "client_exec fl c (Op_Close rng close_ok) = fst (client_Close rng close_ok c)"

definition hot_reply :: "(rat \<Rightarrow> rat) \<Rightarrow> Client \<Rightarrow> (string \<Rightarrow> GetRequest \<Rightarrow> rpc_error + GetResponse) \<Rightarrow> string \<Rightarrow> GetResponse option" where
  "hot_reply fl c invoke key =
     (case getConn fl c key of
        Inl _ \<Rightarrow> None
      | Inr (conn, _) \<Rightarrow>
          (case invoke conn \<lparr>gq_Key = key\<rparr> of
             Inl _ \<Rightarrow> None
           | Inr resp \<Rightarrow> if gr_Found resp \<and> gr_IsHot resp then Some resp else None))"

fun told :: "(rat \<Rightarrow> rat) \<Rightarrow> Client \<Rightarrow> (string \<rightharpoonup> bytes \<times> instant) \<Rightarrow> client_op \<Rightarrow> (string \<rightharpoonup> bytes \<times> instant)" where
  "told fl c g (Op_Get invoke now1 now2 key) =
     (case cl_l1 c of
        None \<Rightarrow> g
      | Some l1 \<Rightarrow>
          if snd (snd (l1_Get l1 key now1)) then g
          else (case hot_reply fl c invoke key of
                  None \<Rightarrow> g
                | Some resp \<Rightarrow> g(key \<mapsto> (gr_Value resp, now2 + l1_lifetime l1 (dur_of_ms (gr_TtlMs resp))))))"
| "told fl c g (Op_Set invoke key value ttl) = g(key := None)"
| "told fl c g (Op_Delete invoke key) = g(key := None)"
| "told fl c g (Op_Close rng close_ok) = Map.empty"

definition client_run :: "(rat \<Rightarrow> rat) \<Rightarrow> Client \<Rightarrow> client_op list \<Rightarrow> Client \<times> (string \<rightharpoonup> bytes \<times> instant)" where
  "client_run fl c ops = foldl (\<lambda>(c, g) op. (client_exec fl c op, told fl c g op)) (c, Map.empty) ops"

definition coherent :: "Client \<times> (string \<rightharpoonup> bytes \<times> instant) \<Rightarrow> bool" where
  "coherent s \<longleftrightarrow> (\<forall>l1. cl_l1 (fst s) = Some l1 \<longrightarrow> lc.backed l1 (snd s))"

lemma getConn_frame: "getConn fl (c\<lparr>cl_l1 := x\<rparr>) key = getConn fl c key"
  by (simp add: getConn_def split: option.split)

lemma get_remote_l1:
  "cl_l1 (fst (get_remote fl invoke now key c)) =
     (case hot_reply fl c invoke key of
        None \<Rightarrow> cl_l1 c
      | Some resp \<Rightarrow> map_option (\<lambda>l1. l1_Set l1 key (gr_Value resp) (dur_of_ms (gr_TtlMs resp)) now) (cl_l1 c))"
  by (simp add: get_remote_def hot_reply_def split: sum.split option.split prod.split)

lemma client_Get_l1:
  assumes "cl_l1 c = Some l1" "l1_Get l1 key now1 = (l1', v, ok)"
  shows "cl_l1 (fst (client_Get fl invoke now1 now2 key c)) =
    (case if ok then None else hot_reply fl c invoke key of
       None \<Rightarrow> Some l1'
     | Some resp \<Rightarrow> Some (l1_Set l1' key (gr_Value resp) (dur_of_ms (gr_TtlMs resp)) now2))"
  using assms by (simp add: client_Get_def Let_def get_remote_l1 hot_reply_def getConn_frame split: option.split)

lemma client_Get_no_l1: "cl_l1 c = None \<Longrightarrow> cl_l1 (fst (client_Get fl invoke now1 now2 key c)) = None"
  by (simp add: client_Get_def get_remote_l1 split: option.split)

lemma client_write_l1:
  "cl_l1 (fst (client_Set fl invoke key value ttl c)) = map_option (\<lambda>l1. l1_Delete l1 key) (cl_l1 c)"
  "cl_l1 (fst (client_Delete fl invoke' key c)) = map_option (\<lambda>l1. l1_Delete l1 key) (cl_l1 c)"
  by (simp_all add: client_Set_def client_Delete_def forget_def Let_def split: sum.split prod.split)

lemma coherent_step:
  assumes "coherent (c, g)"
  shows "coherent (client_exec fl c op, told fl c g op)"
proof (cases op)
  case (Op_Get invoke now1 now2 key)
  show ?thesis
  proof (cases "cl_l1 c")
    case None
    then show ?thesis by (simp add: Op_Get coherent_def client_Get_no_l1)
  next
    case (Some l1)
    obtain l1' v ok where get: "l1_Get l1 key now1 = (l1', v, ok)" by (cases "l1_Get l1 key now1") auto
    have "lc.backed l1 g" using assms Some by (simp add: coherent_def)
    from lc.backed_get(1) [OF this get] have l1': "lc.backed l1' g" .
    have "l1_lifetime l1' = l1_lifetime l1"
      using l1_frame(2) [of l1 "LGet key now1"] get by (simp add: l1_lifetime_def fun_eq_iff)
    with l1' lc.backed_put [OF l1', of key _ _ now2] show ?thesis
      by (simp add: Op_Get coherent_def client_Get_l1 [OF Some get] Some get split: option.split)
  qed
qed (use assms lc.backed_del lc.backed_clear in \<open>auto simp: coherent_def client_write_l1 client_Close_def\<close>)

lemma client_run_coherent: "coherent (c, Map.empty) \<Longrightarrow> coherent (client_run fl c ops)"
  unfolding client_run_def by (rule foldl_invariant [where P = coherent]) (auto intro: coherent_step)

lemma add_nodes_l1: "add_nodes sortf dial c ns = Inr c' \<Longrightarrow> cl_l1 c' = cl_l1 c"
  by (induction ns arbitrary: c) (fastforce simp: addNode_def split: if_splits option.splits)+

lemma NewClient_coherent:
  assumes "NewClient sortf dial rng ns opts = Inr c"
  shows "coherent (c, Map.empty)"
proof -
  have fresh: "lc.backed (NewL1Cache n t) Map.empty" for n t
    using NewL1Cache_inv by (simp add: lc.backed_def l1_shown_def lru_find_def l1_abs_def NewL1Cache_def map_le_def)
  have step: "coherent (apply_option c opt, Map.empty)" if "coherent (c, Map.empty)" for c opt
    using that fresh by (cases opt) (simp_all add: coherent_def)
  have opts: "coherent (foldl apply_option c1 opts, Map.empty)" if "cl_l1 c1 = None" for c1
    by (rule foldl_invariant [where P = "\<lambda>c. coherent (c, Map.empty)"]) (use that step in \<open>auto simp: coherent_def\<close>)
  from assms obtain c1 where "cl_l1 c1 = None" "add_nodes sortf dial (foldl apply_option c1 opts) (rng ns) = Inr c"
    unfolding NewClient_def Let_def by (metis Client.select_convs(4))
  with opts [of c1] add_nodes_l1 show ?thesis by (simp add: coherent_def)
qed


text \<open>A hot reply that the demonstration client stores at 10 and reads back at 20.\<close>

definition demo_hot :: "string \<Rightarrow> GetRequest \<Rightarrow> rpc_error + GetResponse" where
  "demo_hot addr req = Inr \<lparr>gr_Key = gq_Key req, gr_Value = [7], gr_Found = True, gr_TtlMs = 0,
     gr_IsHot = True\<rparr>"

definition demo_l1 :: L1Cache where
  "demo_l1 = l1_Set (NewL1Cache 2 1000) ''k'' [7] 0 10"

lemma demo_run:
  "client_run id demo_client [Op_Get demo_hot 0 10 ''k''] =
     (demo_client\<lparr>cl_l1 := Some demo_l1\<rparr>, [''k'' \<mapsto> ([7], 1010)])"
proof -
  have "client_inv demo_client"
    by (rule NewClient_effect(1) [OF stable_sort.vnode_sort_axioms rng_insertion.range_order_axioms _ NewClient_demo])
      (simp add: gm_inv_def)
  from client_GetNode [OF this] have "GetNode id demo_client_ring ''k'' = Some ''n''"
    using demo_pref by (simp add: demo_client_def)
  then have conn: "getConn id demo_client ''k'' = Inr (''a:1'', ''n'')" by (simp add: getConn_def demo_client_def)
  have "l1_Get (NewL1Cache 2 1000) ''k'' 0 = (NewL1Cache 2 1000, [], False)" "l1_lifetime (NewL1Cache 2 1000) 0 = 1000"
    by code_simp+
  then show ?thesis using conn
    by (simp add: client_run_def client_Get_def get_remote_def getConn_frame hot_reply_def demo_hot_def demo_l1_def
        dur_of_ms_def demo_client_def int64_def)
qed


end
