(* ===== verification/Http.thy ===== *)
theory Http
  imports Store_Correct Ring_Correct Chaos
begin

text \<open>
  The admin server of a node, \<open>internal/server/http_server.go\<close>: its three read-only endpoints, the
  durations and percentages they print, and the mux that holds them with the chaos endpoints.
  \<open>fl\<close> is the rounding to a float64; a response carries the value that \<open>writeJSON\<close> encodes.
\<close>

section \<open>Durations and percentages\<close>

text \<open>\<open>Duration.Round\<close>: to the nearest multiple of \<open>m\<close>, halves away from zero, with saturation.\<close>

definition dur_Round :: "duration \<Rightarrow> duration \<Rightarrow> duration" where
  "dur_Round d m =
     (if m \<le> 0 then d
      else let r = \<bar>d\<bar> mod m in
        if d < 0 then
          if 2 * r < m then d + r else max (- (2 ^ 63)) (d - m + r)
        else if 2 * r < m then d - r else min (2 ^ 63 - 1) (d + m - r))"

text \<open>
  \<open>Duration.String\<close> of zero or of at least a second: hours and minutes when there are any, seconds
  with the fraction but without its trailing zeros.
\<close>

fun pad0 :: "nat \<Rightarrow> nat \<Rightarrow> string" where
  "pad0 0 n = []"
| "pad0 (Suc w) n = pad0 w (n div 10) @ [digit (n mod 10)]"

definition fmt_frac :: "nat \<Rightarrow> string" where
  "fmt_frac ns = (if ns = 0 then [] else ''.'' @ rev (dropWhile (\<lambda>c. c = CHR ''0'') (rev (pad0 9 ns))))"

definition dur_String :: "duration \<Rightarrow> string" where
  "dur_String d =
     (if d = 0 then ''0s''
      else
        let u = nat \<bar>d\<bar>; s = u div 1000000000; mins = s div 60; hours = mins div 60;
            sec = fmt_d (s mod 60) @ fmt_frac (u mod 1000000000) @ ''s'' in
        (if d < 0 then ''-'' else []) @ (if hours > 0 then fmt_d hours @ ''h'' else []) @
        (if mins > 0 then fmt_d (mins mod 60) @ ''m'' else []) @ sec)"

text \<open>\<open>%.2f%%\<close> of a nonnegative number: its exact value to two places, halves to even.\<close>

definition round_even :: "rat \<Rightarrow> int" where
  "round_even x =
     (let n = \<lfloor>x\<rfloor>; f = x - of_int n in
      if f < 1 / 2 then n else if f > 1 / 2 then n + 1 else if even n then n else n + 1)"

definition fmt_percent :: "rat \<Rightarrow> string" where
  "fmt_percent x = (let n = nat (round_even (x * 100)) in fmt_d (n div 100) @ ''.'' @ pad0 2 n @ ''%'')"

section \<open>The mux\<close>

text \<open>The handlers that are registered, and \<open>http.ServeMux\<close>, which panics when a pattern is registered twice.\<close>

datatype endpoint =
    Ep_health | Ep_metrics | Ep_info
  | Ep_fail_node | Ep_slow_node | Ep_partition | Ep_recover | Ep_status

type_synonym ServeMux = "(string, endpoint) gomap"

definition HandleFunc :: "string \<Rightarrow> endpoint \<Rightarrow> ServeMux \<Rightarrow> ServeMux option" where
  "HandleFunc pat ep mux = (case gm_get mux pat of None \<Rightarrow> Some (gm_put pat ep mux) | Some _ \<Rightarrow> None)"

definition registerRoutes :: "ServeMux \<Rightarrow> ServeMux option" where
  "registerRoutes mux =
     Option.bind (Option.bind (HandleFunc ''/health'' Ep_health mux)
       (HandleFunc ''/metrics'' Ep_metrics)) (HandleFunc ''/info'' Ep_info)"

record Handler =
  ch_injector :: FaultInjector

definition NewHandler :: "FaultInjector \<Rightarrow> Handler" where
  "NewHandler fi = \<lparr>ch_injector = fi\<rparr>"

definition RegisterRoutes :: "ServeMux \<Rightarrow> ServeMux option" where
  "RegisterRoutes mux =
     Option.bind (Option.bind (Option.bind (Option.bind (HandleFunc ''/chaos/fail-node'' Ep_fail_node mux)
       (HandleFunc ''/chaos/slow-node'' Ep_slow_node)) (HandleFunc ''/chaos/partition'' Ep_partition))
       (HandleFunc ''/chaos/recover'' Ep_recover)) (HandleFunc ''/chaos/status'' Ep_status)"

section \<open>The server\<close>

record HTTPServer =
  hs_nodeID :: string
  hs_store :: Store
  hs_ring :: "Ring option"
  hs_startTime :: instant
  hs_mux :: ServeMux

definition NewHTTPServer :: "string \<Rightarrow> Store \<Rightarrow> Ring option \<Rightarrow> instant \<Rightarrow> HTTPServer option" where
  "NewHTTPServer nodeID s r now =
     map_option (\<lambda>mux. \<lparr>hs_nodeID = nodeID, hs_store = s, hs_ring = r, hs_startTime = now, hs_mux = mux\<rparr>) (registerRoutes [])"

definition Mux :: "HTTPServer \<Rightarrow> ServeMux" where
  "Mux h = hs_mux h"

text \<open>What \<open>main.go\<close> builds: the server with the chaos endpoints registered on its mux.\<close>

definition main_http :: "string \<Rightarrow> Store \<Rightarrow> Ring option \<Rightarrow> instant \<Rightarrow> HTTPServer option" where
  "main_http nodeID s r now =
     Option.bind (NewHTTPServer nodeID s r now)
       (\<lambda>h. map_option (\<lambda>mux. h\<lparr>hs_mux := mux\<rparr>) (RegisterRoutes (Mux h)))"

record healthResponse =
  he_Status :: string
  he_NodeID :: string
  he_Uptime :: string

record metricsResponse =
  me_NodeID :: string
  me_KeysCount :: nat
  me_Hits :: u64
  me_Misses :: u64
  me_Sets :: u64
  me_Deletes :: u64
  me_Expirations :: u64
  me_HitRate :: string
  me_UptimeMs :: int

record infoResponse =
  in_NodeID :: string
  in_Version :: string
  in_GoVersion :: string
  in_ShardCount :: int
  in_KeysCount :: nat
  in_UptimeMs :: int
  in_RingMembers :: "string list option"

datatype http_body = Health healthResponse | Metrics metricsResponse | Info infoResponse

section \<open>The endpoints\<close>

definition handleHealth :: "HTTPServer \<Rightarrow> string \<Rightarrow> instant \<Rightarrow> http_body http_response" where
  "handleHealth h meth now =
     (if meth \<noteq> ''GET'' then method_not_allowed
      else Http_json 200 (Health \<lparr>he_Status = ''ok'', he_NodeID = hs_nodeID h,
             he_Uptime = dur_String (dur_Round (Sub now (hs_startTime h)) (1000 * Millisecond))\<rparr>))"

definition hit_rate :: "(rat \<Rightarrow> rat) \<Rightarrow> StoreStats \<Rightarrow> string" where
  "hit_rate fl st =
     (let total = Hits st + Misses st in
      if total > 0
      then fmt_percent (fl (fl (fl (of_nat (unat (Hits st))) / fl (of_nat (unat total))) * 100))
      else ''N/A'')"

text \<open>\<open>now1\<close> is the clock in \<open>Len\<close>, \<open>now2\<close> in the reading of the uptime.\<close>

definition handleMetrics :: "(rat \<Rightarrow> rat) \<Rightarrow> HTTPServer \<Rightarrow> string \<Rightarrow> instant \<Rightarrow> instant \<Rightarrow> http_body http_response" where
  "handleMetrics fl h meth now1 now2 =
     (if meth \<noteq> ''GET'' then method_not_allowed
      else let st = store_Stats (hs_store h) in
        Http_json 200 (Metrics \<lparr>me_NodeID = hs_nodeID h, me_KeysCount = store_Len (hs_store h) now1,
          me_Hits = Hits st, me_Misses = Misses st, me_Sets = Sets st, me_Deletes = Deletes st,
          me_Expirations = Expirations st, me_HitRate = hit_rate fl st,
          me_UptimeMs = Milliseconds (Sub now2 (hs_startTime h))\<rparr>))"

definition handleInfo :: "HTTPServer \<Rightarrow> string \<Rightarrow> instant \<Rightarrow> instant \<Rightarrow> http_body http_response" where
  "handleInfo h meth now1 now2 =
     (if meth \<noteq> ''GET'' then method_not_allowed
      else Http_json 200 (Info \<lparr>in_NodeID = hs_nodeID h, in_Version = ''0.1.0'', in_GoVersion = ''go1.22'',
             in_ShardCount = 256, in_KeysCount = store_Len (hs_store h) now1,
             in_UptimeMs = Milliseconds (Sub now2 (hs_startTime h)),
             in_RingMembers = map_option Members (hs_ring h)\<rparr>))"

section \<open>What the endpoints report\<close>

text \<open>The routes of a node: registering them does not panic.\<close>

lemma main_http_routes:
  "main_http nodeID s r now =
     Some \<lparr>hs_nodeID = nodeID, hs_store = s, hs_ring = r, hs_startTime = now,
       hs_mux = [(''/health'', Ep_health), (''/metrics'', Ep_metrics), (''/info'', Ep_info),
         (''/chaos/fail-node'', Ep_fail_node), (''/chaos/slow-node'', Ep_slow_node), (''/chaos/partition'', Ep_partition),
         (''/chaos/recover'', Ep_recover), (''/chaos/status'', Ep_status)]\<rparr>"
  by (simp add: main_http_def NewHTTPServer_def registerRoutes_def RegisterRoutes_def HandleFunc_def Mux_def)

text \<open>The uptime of \<open>/health\<close> is within half a second.\<close>

lemma dur_Round_near:
  assumes "0 < m" "0 \<le> d" "d + m < 2 ^ 63"
  shows "m dvd dur_Round d m \<and> 2 * \<bar>dur_Round d m - d\<bar> \<le> m"
proof -
  have r: "0 \<le> d mod m" "d mod m < m" using assms(1) by simp_all
  have "m dvd d - d mod m" by simp
  moreover have "d + m - d mod m = (d - d mod m) + m" by simp
  ultimately have "m dvd d - d mod m" "m dvd d + m - d mod m" by (simp, metis dvd_add_triv_right_iff)
  then show ?thesis using assms r by (auto simp: dur_Round_def Let_def min_def)
qed

lemma info_members:
  assumes "ring_inv r" "hs_ring h = Some r" "handleInfo h ''GET'' now1 now2 = Http_json st (Info i)"
  shows "st = 200 \<and> (\<exists>ms. in_RingMembers i = Some ms \<and> sorted ms \<and> distinct ms \<and> (x \<in> set ms \<longleftrightarrow> HasNode r x))"
proof -
  have "st = 200" "in_RingMembers i = Some (sort (map fst (nodes r)))"
    using assms(2,3) by (auto simp: handleInfo_def Members_def)
  moreover have "distinct (map fst (nodes r))" using assms(1) by (simp add: ring_inv_def gm_inv_def)
  ultimately show ?thesis using HasNode_iff [OF assms(1), of x] by simp
qed

text \<open>Rounding to two places keeps a percentage between its bounds.\<close>

lemma round_even_bounds: "0 \<le> x \<Longrightarrow> x \<le> of_int n \<Longrightarrow> 0 \<le> round_even x \<and> round_even x \<le> n"
  unfolding round_even_def Let_def by (auto; linarith)

end
