(* ===== verification/Json_Text.thy ===== *)
theory Json_Text
  imports Prelude
begin

text \<open>
  The leaves of \<open>encoding/json\<close> that the wire format of the program rests on: UTF-8
  (\<open>unicode/utf8\<close>), quoting and unquoting of strings, base64 for byte slices, and integers.
  A Go string is a sequence of bytes that need not be UTF-8. Quoting writes each byte that does
  not belong to a valid sequence as \<open>U+FFFD\<close>; \<open>sanitize\<close> is the string that comes back.
\<close>

section \<open>UTF-8\<close>

abbreviation code :: "char \<Rightarrow> nat" where
  "code c \<equiv> of_char c"

definition cont :: "char \<Rightarrow> bool" where
  "cont c \<longleftrightarrow> 0x80 \<le> code c \<and> code c \<le> 0xBF"

text \<open>
  The size that \<open>utf8.DecodeRune\<close> gives the first rune, and 0 where it reports an invalid byte
  (or the empty string).
\<close>

definition rune2 :: "char \<Rightarrow> char \<Rightarrow> bool" where
  "rune2 c c1 \<longleftrightarrow> 0xC2 \<le> code c \<and> code c \<le> 0xDF \<and> cont c1"

definition rune3 :: "char \<Rightarrow> char \<Rightarrow> char \<Rightarrow> bool" where
  "rune3 c c1 c2 \<longleftrightarrow> 0xE0 \<le> code c \<and> code c \<le> 0xEF \<and> cont c1 \<and> (code c = 0xE0 \<longrightarrow> 0xA0 \<le> code c1) \<and>
     (code c = 0xED \<longrightarrow> code c1 \<le> 0x9F) \<and> cont c2"

definition rune4 :: "char \<Rightarrow> char \<Rightarrow> char \<Rightarrow> char \<Rightarrow> bool" where
  "rune4 c c1 c2 c3 \<longleftrightarrow> 0xF0 \<le> code c \<and> code c \<le> 0xF4 \<and> cont c1 \<and> (code c = 0xF0 \<longrightarrow> 0x90 \<le> code c1) \<and>
     (code c = 0xF4 \<longrightarrow> code c1 \<le> 0x8F) \<and> cont c2 \<and> cont c3"

definition rune_size :: "string \<Rightarrow> nat" where
  "rune_size s =
     (case s of
        [] \<Rightarrow> 0
      | c # cs \<Rightarrow>
          if code c < 0x80 then 1
          else case cs of
              [] \<Rightarrow> 0
            | c1 # cs1 \<Rightarrow>
                if rune2 c c1 then 2
                else case cs1 of
                    [] \<Rightarrow> 0
                  | c2 # cs2 \<Rightarrow>
                      if rune3 c c1 c2 then 3
                      else case cs2 of [] \<Rightarrow> 0 | c3 # _ \<Rightarrow> if rune4 c c1 c2 c3 then 4 else 0)"

lemma rune_size_le: "rune_size s \<le> length s"
  by (simp add: rune_size_def split: list.split)

lemma rune_size_cases:
  assumes "0 < rune_size s"
  obtains (one) c t where "s = c # t" "rune_size s = 1" "code c < 0x80"
    | (two) c c1 t where "s = c # c1 # t" "rune_size s = 2" "\<not> code c < 0x80" "rune2 c c1"
    | (three) c c1 c2 t where "s = c # c1 # c2 # t" "rune_size s = 3" "\<not> code c < 0x80" "\<not> rune2 c c1" "rune3 c c1 c2"
    | (four) c c1 c2 c3 t where "s = c # c1 # c2 # c3 # t" "rune_size s = 4" "\<not> code c < 0x80" "\<not> rune2 c c1"
        "\<not> rune3 c c1 c2" "rune4 c c1 c2 c3"
  using assms unfolding rune_size_def by (simp split: list.split_asm if_split_asm)

lemma rune_size_take:
  assumes "0 < rune_size s"
  shows "rune_size (take (rune_size s) s @ t) = rune_size s"
  using assms by (cases rule: rune_size_cases) (simp_all add: rune_size_def)

text \<open>\<open>utf8.AppendRune\<close> for a rune below \<open>0x110000\<close> that is not a surrogate.\<close>

definition encode_rune :: "nat \<Rightarrow> string" where
  "encode_rune r =
     (if r < 0x80 then [char_of r]
      else if r < 0x800 then [char_of (0xC0 + r div 64), char_of (0x80 + r mod 64)]
      else if r < 0x10000 then [char_of (0xE0 + r div 4096), char_of (0x80 + r div 64 mod 64), char_of (0x80 + r mod 64)]
      else [char_of (0xF0 + r div 262144), char_of (0x80 + r div 4096 mod 64), char_of (0x80 + r div 64 mod 64),
            char_of (0x80 + r mod 64)])"

definition replacement :: string where
  "replacement = [CHR 0xEF, CHR 0xBF, CHR 0xBD]"

function sanitize :: "string \<Rightarrow> string" where
  "sanitize s =
     (if s = [] then []
      else if rune_size s = 0 then replacement @ sanitize (tl s)
      else take (rune_size s) s @ sanitize (drop (rune_size s) s))"
  by pat_completeness auto
termination by (relation "measure length") auto

function utf8_valid :: "string \<Rightarrow> bool" where
  "utf8_valid s = (if s = [] then True else if rune_size s = 0 then False else utf8_valid (drop (rune_size s) s))"
  by pat_completeness auto
termination by (relation "measure length") auto

declare sanitize.simps [simp del] utf8_valid.simps [simp del]

lemma sanitize_Nil [simp]: "sanitize [] = []" and utf8_valid_Nil [simp]: "utf8_valid []"
  by (subst sanitize.simps, simp) (subst utf8_valid.simps, simp)

lemma sanitize_valid: "utf8_valid s \<Longrightarrow> sanitize s = s"
proof (induction s rule: sanitize.induct)
  case (1 s)
  then show ?case
    by (cases "s = []") (auto simp: sanitize.simps [of s] utf8_valid.simps [of s] split: if_splits)
qed

lemma sanitize_append_rune:
  assumes "0 < rune_size s"
  shows "sanitize (take (rune_size s) s @ t) = take (rune_size s) s @ sanitize t"
proof -
  have "s \<noteq> []" using assms by (auto simp: rune_size_def)
  moreover have "take (rune_size s) s \<noteq> []" using assms calculation by simp
  ultimately show ?thesis
    using assms rune_size_take [OF assms] rune_size_le [of s] by (subst sanitize.simps) (simp add: min_def)
qed

lemma sanitize_idem: "utf8_valid (sanitize s)"
proof (induction s rule: sanitize.induct)
  case (1 s)
  have rep: "rune_size (replacement @ t) = 3" "drop 3 (replacement @ t) = t" for t
    by (simp_all add: rune_size_def replacement_def cont_def rune2_def rune3_def)
  show ?case
  proof (cases "s = [] \<or> rune_size s = 0")
    case True
    with 1 rep show ?thesis by (auto simp: sanitize.simps [of s] utf8_valid.simps [of "replacement @ _"])
  next
    case False
    then have "rune_size (take (rune_size s) s @ sanitize (drop (rune_size s) s)) = rune_size s"
      using rune_size_take by simp
    with False 1 rune_size_le [of s] show ?thesis
      by (simp add: sanitize.simps [of s] utf8_valid.simps [of "take _ _ @ _"] min_def)
  qed
qed

lemma sanitize_fixed: "sanitize s = s \<longleftrightarrow> utf8_valid s"
  using sanitize_idem [of s] sanitize_valid by auto

section \<open>Quoting\<close>

definition hex :: "nat \<Rightarrow> char" where
  "hex n = (if n < 10 then char_of (48 + n) else char_of (87 + n))"

text \<open>\<open>htmlSafeSet\<close> and the escapes of \<open>appendString\<close>.\<close>

definition html_safe :: "char \<Rightarrow> bool" where
  "html_safe c \<longleftrightarrow> 0x20 \<le> code c \<and> c \<notin> {CHR 0x22, CHR ''&'', CHR ''<'', CHR ''>'', CHR 0x5C}"

definition escape :: "char \<Rightarrow> string" where
  "escape c =
     (if c = CHR 0x5C \<or> c = CHR 0x22 then [CHR 0x5C, c]
      else if c = CHR 0x08 then [CHR 0x5C, CHR ''b'']
      else if c = CHR 0x0C then [CHR 0x5C, CHR ''f'']
      else if c = CHR 0x0A then [CHR 0x5C, CHR ''n'']
      else if c = CHR 0x0D then [CHR 0x5C, CHR ''r'']
      else if c = CHR 0x09 then [CHR 0x5C, CHR ''t'']
      else [CHR 0x5C, CHR ''u'', CHR ''0'', CHR ''0'', hex (code c div 16), hex (code c mod 16)])"

definition quote_rune :: "string \<Rightarrow> string" where
  "quote_rune r =
     (if r = [CHR 0xE2, CHR 0x80, CHR 0xA8] then CHR 0x5C # ''u2028''
      else if r = [CHR 0xE2, CHR 0x80, CHR 0xA9] then CHR 0x5C # ''u2029''
      else r)"

function json_quote :: "string \<Rightarrow> string" where
  "json_quote s =
     (case s of
        [] \<Rightarrow> []
      | c # cs \<Rightarrow>
          if code c < 0x80 then (if html_safe c then [c] else escape c) @ json_quote cs
          else if rune_size s = 0 then (CHR 0x5C # ''ufffd'') @ json_quote cs
          else quote_rune (take (rune_size s) s) @ json_quote (drop (rune_size s) s))"
  by pat_completeness auto
termination by (relation "measure length") auto

section \<open>Unquoting\<close>

definition hexval :: "char \<Rightarrow> nat option" where
  "hexval c =
     (if 48 \<le> code c \<and> code c \<le> 57 then Some (code c - 48)
      else if 97 \<le> code c \<and> code c \<le> 102 then Some (code c - 87)
      else if 65 \<le> code c \<and> code c \<le> 70 then Some (code c - 55)
      else None)"

text \<open>\<open>getu4\<close>: the code of an escape \<open>\uXXXX\<close> at the start.\<close>

definition getu4 :: "string \<Rightarrow> nat option" where
  "getu4 s =
     (case s of
        b # u # c1 # c2 # c3 # c4 # _ \<Rightarrow>
          if b = CHR 0x5C \<and> u = CHR ''u'' then
            (case (hexval c1, hexval c2, hexval c3, hexval c4) of
               (Some a, Some b, Some c, Some d) \<Rightarrow> Some (((a * 16 + b) * 16 + c) * 16 + d)
             | _ \<Rightarrow> None)
          else None
      | _ \<Rightarrow> None)"

definition unescape :: "char \<Rightarrow> char" where
  "unescape c =
     (if c = CHR ''b'' then CHR 0x08 else if c = CHR ''f'' then CHR 0x0C else if c = CHR ''n'' then CHR 0x0A
      else if c = CHR ''r'' then CHR 0x0D else if c = CHR ''t'' then CHR 0x09 else c)"

text \<open>The rune of an escape at the start, and how many bytes it takes; a surrogate needs its partner.\<close>

definition unquote_u :: "string \<Rightarrow> nat \<Rightarrow> string \<times> nat" where
  "unquote_u s r =
     (if 0xD800 \<le> r \<and> r < 0xE000 then
        (case getu4 (drop 6 s) of
           Some r1 \<Rightarrow>
             if r < 0xDC00 \<and> 0xDC00 \<le> r1 \<and> r1 < 0xE000
             then (encode_rune ((r - 0xD800) * 1024 + (r1 - 0xDC00) + 0x10000), 12)
             else (replacement, 6)
         | None \<Rightarrow> (replacement, 6))
      else (encode_rune r, 6))"

lemma unquote_u_pos [simp]: "0 < snd (unquote_u s r)"
  by (simp add: unquote_u_def split: option.split)

text \<open>\<open>unquoteBytes\<close> between the quotes; \<open>None\<close> where the escape is malformed.\<close>

function json_unquote :: "string \<Rightarrow> string option" where
  "json_unquote s =
     (case s of
        [] \<Rightarrow> Some []
      | c # cs \<Rightarrow>
          if c = CHR 0x5C then
            (case cs of
               [] \<Rightarrow> None
             | e # cs' \<Rightarrow>
                 if e = CHR ''u'' then
                   (case getu4 s of
                      None \<Rightarrow> None
                    | Some r \<Rightarrow>
                        map_option ((@) (fst (unquote_u s r))) (json_unquote (drop (snd (unquote_u s r)) s)))
                 else if e \<in> set [CHR 0x22, CHR 0x5C, CHR ''/'', CHR ''b'', CHR ''f'', CHR ''n'', CHR ''r'', CHR ''t'']
                 then map_option ((#) (unescape e)) (json_unquote cs')
                 else None)
          else if c = CHR 0x22 \<or> code c < 0x20 then None
          else if rune_size s = 0 then map_option ((@) replacement) (json_unquote cs)
          else map_option ((@) (take (rune_size s) s)) (json_unquote (drop (rune_size s) s)))"
  by pat_completeness auto
termination by (relation "measure length") auto

declare json_quote.simps [simp del] json_unquote.simps [simp del]

section \<open>Quoting and unquoting\<close>

lemma json_unquote_Nil [simp]: "json_unquote [] = Some []" and json_quote_Nil [simp]: "json_quote [] = []"
  by (subst json_unquote.simps, simp) (subst json_quote.simps, simp)

lemma append_singleton [simp]: "(@) [c] = (#) c"
  by (simp add: fun_eq_iff)

lemma hexval_hex: "n < 16 \<Longrightarrow> hexval (hex n) = Some n"
  by (simp add: hexval_def hex_def)

lemma json_unquote_u:
  assumes "getu4 s = Some r" "r < 0xD800 \<or> 0xE000 \<le> r"
  shows "json_unquote (s @ t) = map_option ((@) (encode_rune r)) (json_unquote (drop 6 s @ t))"
proof -
  obtain c1 c2 c3 c4 s' where s: "s = CHR 0x5C # CHR ''u'' # c1 # c2 # c3 # c4 # s'"
    using assms(1) by (auto simp: getu4_def split: list.splits if_splits)
  have "getu4 (s @ t) = Some r" using assms(1) unfolding s by (simp add: getu4_def)
  moreover have "unquote_u (s @ t) r = (encode_rune r, 6)" using assms(2) by (auto simp: unquote_u_def)
  ultimately show ?thesis unfolding s by (subst json_unquote.simps) simp
qed

lemma getu4_escape:
  assumes "code c < 0x80"
  shows "getu4 [CHR 0x5C, CHR ''u'', CHR ''0'', CHR ''0'', hex (code c div 16), hex (code c mod 16)] = Some (code c)"
proof -
  have "hexval (CHR ''0'') = Some 0" "hexval (hex (code c div 16)) = Some (code c div 16)"
    "hexval (hex (code c mod 16)) = Some (code c mod 16)"
    using assms by (simp_all add: hexval_hex) (simp add: hexval_def)
  then show ?thesis by (simp add: getu4_def)
qed

lemma getu4_2028: "getu4 (CHR 0x5C # ''u2028'') = Some 0x2028" "length (CHR 0x5C # ''u2028'') = 6"
  and getu4_2029: "getu4 (CHR 0x5C # ''u2029'') = Some 0x2029" "length (CHR 0x5C # ''u2029'') = 6"
  and getu4_fffd: "getu4 (CHR 0x5C # ''ufffd'') = Some 0xFFFD" "length (CHR 0x5C # ''ufffd'') = 6"
  by (simp_all add: getu4_def hexval_def)

lemma json_unquote_escape:
  assumes "code c < 0x80" "\<not> html_safe c"
  shows "json_unquote (escape c @ t) = map_option ((#) c) (json_unquote t)"
proof (cases "c \<in> {CHR 0x5C, CHR 0x22, CHR 0x08, CHR 0x0C, CHR 0x0A, CHR 0x0D, CHR 0x09}")
  case True
  then show ?thesis
    by (elim insertE emptyE) (subst json_unquote.simps, simp add: escape_def unescape_def)+
next
  case False
  let ?s = "[CHR 0x5C, CHR ''u'', CHR ''0'', CHR ''0'', hex (code c div 16), hex (code c mod 16)]"
  have "escape c = ?s" using False by (simp add: escape_def)
  moreover have "getu4 ?s = Some (code c)" by (rule getu4_escape [OF assms(1)])
  moreover have "encode_rune (code c) = [c]" using assms(1) by (simp add: encode_rune_def)
  ultimately show ?thesis using json_unquote_u [of ?s "code c" t] assms(1) by simp
qed

lemma json_unquote_rune:
  assumes "0 < rune_size s" "hd s \<noteq> CHR 0x5C" "hd s \<noteq> CHR 0x22" "0x20 \<le> code (hd s)"
  shows "json_unquote (take (rune_size s) s @ t) = map_option ((@) (take (rune_size s) s)) (json_unquote t)"
proof -
  let ?r = "take (rune_size s) s"
  have n: "s \<noteq> []" "rune_size (?r @ t) = rune_size s" "length ?r = rune_size s"
    using assms(1) rune_size_take [OF assms(1)] rune_size_le [of s] by (auto simp: rune_size_def)
  then obtain cs where cs: "?r @ t = hd s # cs" using assms(1) by (cases s; cases "rune_size s") auto
  have "json_unquote (?r @ t) =
      map_option ((@) (take (rune_size (?r @ t)) (?r @ t))) (json_unquote (drop (rune_size (?r @ t)) (?r @ t)))"
    using assms n(2) by (subst json_unquote.simps) (simp add: cs)
  then show ?thesis using n by simp
qed

lemma json_unquote_quote_rune:
  assumes "0 < rune_size s" "\<not> code (hd s) < 0x80"
  shows "json_unquote (quote_rune (take (rune_size s) s) @ t) = map_option ((@) (take (rune_size s) s)) (json_unquote t)"
proof -
  have "encode_rune 0x2028 = [CHR 0xE2, CHR 0x80, CHR 0xA8]" "encode_rune 0x2029 = [CHR 0xE2, CHR 0x80, CHR 0xA9]"
    by (simp_all add: encode_rune_def char_of_eq_iff take_bit_eq_mod)
  then have "json_unquote (CHR 0x5C # ''u2028'' @ t) = map_option ((@) [CHR 0xE2, CHR 0x80, CHR 0xA8]) (json_unquote t)"
    "json_unquote (CHR 0x5C # ''u2029'' @ t) = map_option ((@) [CHR 0xE2, CHR 0x80, CHR 0xA9]) (json_unquote t)"
    using json_unquote_u [OF getu4_2028(1), of t] json_unquote_u [OF getu4_2029(1), of t] by simp_all
  moreover have "hd s \<noteq> CHR 0x5C" "hd s \<noteq> CHR 0x22" using assms(2) by auto
  ultimately show ?thesis using json_unquote_rune [of s t] assms by (simp add: quote_rune_def)
qed

lemma json_unquote_invalid: "json_unquote (CHR 0x5C # ''ufffd'' @ t) = map_option ((@) replacement) (json_unquote t)"
proof -
  have "encode_rune 0xFFFD = replacement"
    by (simp add: encode_rune_def replacement_def char_of_eq_iff take_bit_eq_mod)
  then show ?thesis using json_unquote_u [OF getu4_fffd(1), of t] by simp
qed

theorem json_unquote_quote: "json_unquote (json_quote s) = Some (sanitize s)"
proof (induction s rule: json_quote.induct)
  case (1 s)
  show ?case
  proof (cases s)
    case (Cons c cs)
    consider (ascii) "code c < 0x80" | (bad) "\<not> code c < 0x80" "rune_size s = 0" | (rune) "\<not> code c < 0x80" "0 < rune_size s"
      by auto
    then show ?thesis
    proof cases
      case ascii
      then have size: "rune_size s = 1" using Cons by (simp add: rune_size_def)
      then have san: "sanitize s = c # sanitize cs" using Cons by (subst sanitize.simps) simp
      have "json_unquote ((if html_safe c then [c] else escape c) @ t) = map_option ((#) c) (json_unquote t)" for t
        using json_unquote_rune [of s t] json_unquote_escape [OF ascii, of t] size Cons
        by (auto simp: html_safe_def)
      with 1(1) [OF Cons ascii] ascii Cons san show ?thesis by (subst json_quote.simps) simp
    next
      case bad
      then have "sanitize s = replacement @ sanitize cs" using Cons by (subst sanitize.simps) simp
      with bad 1(2) [OF Cons bad] Cons show ?thesis
        using json_unquote_invalid [of "json_quote cs"] by (subst json_quote.simps) simp
    next
      case rune
      have "json_quote s = quote_rune (take (rune_size s) s) @ json_quote (drop (rune_size s) s)"
        using rune Cons by (subst json_quote.simps) simp
      moreover have "sanitize s = take (rune_size s) s @ sanitize (drop (rune_size s) s)"
        using rune Cons by (subst sanitize.simps) simp
      ultimately show ?thesis
        using 1(3) [OF Cons rune(1)] rune json_unquote_quote_rune [of s] Cons by simp
    qed
  qed simp
qed

section \<open>Integers\<close>

text \<open>\<open>strconv.AppendInt\<close>, and \<open>ParseInt\<close> and \<open>ParseUint\<close> on the literal of a JSON number before the check of the width.\<close>

definition fmt_int :: "int \<Rightarrow> string" where
  "fmt_int i = (if i < 0 then CHR ''-'' # fmt_d (nat (- i)) else fmt_d (nat i))"

definition is_digit :: "char \<Rightarrow> bool" where
  "is_digit c \<longleftrightarrow> 48 \<le> code c \<and> code c \<le> 57"

definition parse_nat :: "string \<Rightarrow> nat option" where
  "parse_nat s =
     (if s \<noteq> [] \<and> list_all is_digit s then Some (foldl (\<lambda>n c. 10 * n + (code c - 48)) 0 s) else None)"

definition parse_int :: "string \<Rightarrow> int option" where
  "parse_int s =
     (if s \<noteq> [] \<and> hd s = CHR ''-'' then map_option (\<lambda>n. - int n) (parse_nat (tl s))
      else map_option int (parse_nat s))"

lemma is_digit_digit: "d < 10 \<Longrightarrow> is_digit (digit d) \<and> code (digit d) = 48 + d"
  by (simp add: is_digit_def digit_def)

lemma fmt_d_digits: "list_all is_digit (fmt_d n)"
  using fmt_d_chars [of _ n] by (auto simp: list_all_iff is_digit_def)

lemma parse_nat_fmt: "parse_nat (fmt_d n) = Some n"
proof -
  have "foldl (\<lambda>n c. 10 * n + (code c - 48)) 0 (fmt_d n) = n"
  proof (induction n rule: fmt_d.induct)
    case (1 n)
    then show ?case using is_digit_digit [of n] is_digit_digit [of "n mod 10"]
      by (cases "n < 10") (simp_all add: fmt_d.simps [of n])
  qed
  then show ?thesis using fmt_d_digits by (simp add: parse_nat_def)
qed

lemma fmt_d_hd: "is_digit (hd (fmt_d n))"
  using fmt_d_digits [of n] by (cases "fmt_d n") simp_all

lemma parse_int_fmt: "parse_int (fmt_int i) = Some i"
proof -
  have "hd (fmt_d n) \<noteq> CHR ''-''" for n using fmt_d_hd [of n] by (auto simp: is_digit_def)
  then show ?thesis by (simp add: parse_int_def fmt_int_def parse_nat_fmt)
qed

section \<open>Base64\<close>

text \<open>\<open>base64.StdEncoding\<close>, with padding; decoding skips line breaks.\<close>

definition b64_char :: "nat \<Rightarrow> char" where
  "b64_char n =
     (if n < 26 then char_of (65 + n) else if n < 52 then char_of (71 + n) else if n < 62 then char_of (n - 4)
      else if n = 62 then CHR ''+'' else CHR ''/'')"

definition b64_val :: "char \<Rightarrow> nat option" where
  "b64_val c =
     (if 65 \<le> code c \<and> code c \<le> 90 then Some (code c - 65)
      else if 97 \<le> code c \<and> code c \<le> 122 then Some (code c - 71)
      else if 48 \<le> code c \<and> code c \<le> 57 then Some (code c + 4)
      else if c = CHR ''+'' then Some 62 else if c = CHR ''/'' then Some 63 else None)"

fun b64_encode :: "bytes \<Rightarrow> string" where
  "b64_encode [] = []"
| "b64_encode [a] = [b64_char (unat a div 4), b64_char (unat a mod 4 * 16), CHR ''='', CHR ''='']"
| "b64_encode [a, b] =
     [b64_char (unat a div 4), b64_char (unat a mod 4 * 16 + unat b div 16), b64_char (unat b mod 16 * 4), CHR ''='']"
| "b64_encode (a # b # c # bs) =
     b64_char (unat a div 4) # b64_char (unat a mod 4 * 16 + unat b div 16) #
     b64_char (unat b mod 16 * 4 + unat c div 64) # b64_char (unat c mod 64) # b64_encode bs"

fun b64_groups :: "string \<Rightarrow> bytes option" where
  "b64_groups [] = Some []"
| "b64_groups (a # b # c # d # cs) =
     (case (b64_val a, b64_val b) of
        (Some x, Some y) \<Rightarrow>
          if c = CHR ''='' \<and> d = CHR ''='' \<and> cs = [] then Some [of_nat (x * 4 + y div 16)]
          else (case b64_val c of
              None \<Rightarrow> None
            | Some z \<Rightarrow>
                if d = CHR ''='' \<and> cs = [] then Some [of_nat (x * 4 + y div 16), of_nat (y mod 16 * 16 + z div 4)]
                else case b64_val d of
                    None \<Rightarrow> None
                  | Some w \<Rightarrow> map_option (\<lambda>bs. of_nat (x * 4 + y div 16) # of_nat (y mod 16 * 16 + z div 4) #
                                 of_nat (z mod 4 * 64 + w) # bs) (b64_groups cs))
      | _ \<Rightarrow> None)"
| "b64_groups _ = None"

definition b64_decode :: "string \<Rightarrow> bytes option" where
  "b64_decode s = b64_groups (filter (\<lambda>c. c \<noteq> CHR 0x0A \<and> c \<noteq> CHR 0x0D) s)"

lemma b64_val_char: "n < 64 \<Longrightarrow> b64_val (b64_char n) = Some n"
  by (auto simp: b64_val_def b64_char_def)

lemma b64_char_pad: "n < 64 \<Longrightarrow> b64_char n \<noteq> CHR ''=''"
  using b64_val_char [of n] by (auto simp: b64_val_def)

lemma b64_char_safe: "0x20 \<le> code (b64_char n) \<and> code (b64_char n) < 0x80"
  by (auto simp: b64_char_def)

lemma unat_byte: "unat (a :: byte) < 256"
  using unsigned_less [of a] by simp

lemma b64_groups_encode: "b64_groups (b64_encode bs) = Some bs"
proof (induction bs rule: b64_encode.induct)
  case (2 a)
  have "unat a < 256" by (rule unat_byte)
  then show ?case by (simp add: b64_val_char b64_char_pad)
next
  case (3 a b)
  have "unat a < 256" "unat b < 256" by (rule unat_byte)+
  then have "unat a div 4 < 64" "unat a mod 4 * 16 + unat b div 16 < 64" "unat b mod 16 * 4 < 64"
    "(unat a mod 4 * 16 + unat b div 16) div 16 = unat a mod 4" "(unat a mod 4 * 16 + unat b div 16) mod 16 = unat b div 16"
    by auto
  then show ?case by (simp add: b64_val_char b64_char_pad)
next
  case (4 a b c bs)
  have "unat a < 256" "unat b < 256" "unat c < 256" by (rule unat_byte)+
  then have "unat a div 4 < 64" "unat a mod 4 * 16 + unat b div 16 < 64" "unat b mod 16 * 4 + unat c div 64 < 64" "unat c mod 64 < 64"
    "(unat a mod 4 * 16 + unat b div 16) div 16 = unat a mod 4" "(unat a mod 4 * 16 + unat b div 16) mod 16 = unat b div 16"
    "(unat b mod 16 * 4 + unat c div 64) div 4 = unat b mod 16" "(unat b mod 16 * 4 + unat c div 64) mod 4 = unat c div 64"
    by auto
  with 4 show ?case by (simp add: b64_val_char b64_char_pad)
qed simp

lemma b64_encode_safe: "c \<in> set (b64_encode bs) \<Longrightarrow> 0x20 \<le> code c \<and> code c < 0x80"
  by (induction bs rule: b64_encode.induct) (auto simp: b64_char_safe)

lemma b64_decode_encode: "b64_decode (b64_encode bs) = Some bs"
proof -
  have "filter (\<lambda>c. c \<noteq> CHR 0x0A \<and> c \<noteq> CHR 0x0D) (b64_encode bs) = b64_encode bs"
    using b64_encode_safe [of _ bs] by (intro filter_True) force
  then show ?thesis by (simp add: b64_decode_def b64_groups_encode)
qed

lemma utf8_valid_ascii: "(\<And>c. c \<in> set s \<Longrightarrow> code c < 0x80) \<Longrightarrow> utf8_valid s"
  by (induction s) (simp, subst utf8_valid.simps, simp add: rune_size_def)

lemma sanitize_b64: "sanitize (b64_encode bs) = b64_encode bs"
  using b64_encode_safe by (blast intro: sanitize_valid utf8_valid_ascii)

end
