(* ===== verification/Json.thy ===== *)
theory Json
  imports Json_Text
begin

text \<open>
  JSON values, as \<open>encoding/json\<close> writes and reads them. Writing is by tokens without white space.
  Reading cuts the text into tokens and runs the state machine of the package's scanner over them,
  with its stack of open arrays and objects.
\<close>

section \<open>Values and tokens\<close>

datatype json = JNull | JBool bool | JNum string | JStr string | JArr "json list" | JObj "(string \<times> json) list"

datatype token = TLBrace | TRBrace | TLBrack | TRBrack | TColon | TComma | TTrue | TFalse | TNull | TNum string | TStr string

text \<open>The text of a string token is what stands between its quotes.\<close>

fun token_text :: "token \<Rightarrow> string" where
  "token_text TLBrace = ''{''"
| "token_text TRBrace = ''}''"
| "token_text TLBrack = ''[''"
| "token_text TRBrack = '']''"
| "token_text TColon = '':''"
| "token_text TComma = '',''"
| "token_text TTrue = ''true''"
| "token_text TFalse = ''false''"
| "token_text TNull = ''null''"
| "token_text (TNum n) = n"
| "token_text (TStr raw) = CHR 0x22 # raw @ [CHR 0x22]"

fun tokens :: "json \<Rightarrow> token list" and elem_tokens :: "json list \<Rightarrow> token list"
  and member_tokens :: "(string \<times> json) list \<Rightarrow> token list" where
  "tokens JNull = [TNull]"
| "tokens (JBool b) = [if b then TTrue else TFalse]"
| "tokens (JNum n) = [TNum n]"
| "tokens (JStr s) = [TStr (json_quote s)]"
| "tokens (JArr js) = TLBrack # elem_tokens js @ [TRBrack]"
| "tokens (JObj ms) = TLBrace # member_tokens ms @ [TRBrace]"
| "elem_tokens [] = []"
| "elem_tokens (j # js) = tokens j @ (if js = [] then [] else TComma # elem_tokens js)"
| "member_tokens [] = []"
| "member_tokens ((k, j) # ms) =
     TStr (json_quote k) # TColon # tokens j @ (if ms = [] then [] else TComma # member_tokens ms)"

definition write_json :: "json \<Rightarrow> string" where
  "write_json j = concat (map token_text (tokens j))"

section \<open>From text to tokens\<close>

definition is_space :: "char \<Rightarrow> bool" where
  "is_space c \<longleftrightarrow> c = CHR '' '' \<or> c = CHR 0x09 \<or> c = CHR 0x0D \<or> c = CHR 0x0A"

text \<open>After an opening quote: the raw content and what follows the closing quote.\<close>

function scan_str :: "string \<Rightarrow> (string \<times> string) option" where
  "scan_str s =
     (case s of
        [] \<Rightarrow> None
      | c # cs \<Rightarrow>
          if c = CHR 0x22 then Some ([], cs)
          else if c = CHR 0x5C then
            (case cs of
               [] \<Rightarrow> None
             | e # cs' \<Rightarrow>
                 if e = CHR ''u'' then
                   if getu4 s = None then None else map_option (apfst ((@) (take 6 s))) (scan_str (drop 6 s))
                 else if e \<in> set [CHR 0x22, CHR 0x5C, CHR ''/'', CHR ''b'', CHR ''f'', CHR ''n'', CHR ''r'', CHR ''t'']
                 then map_option (apfst ((@) [c, e])) (scan_str cs')
                 else None)
          else if code c < 0x20 then None
          else map_option (apfst ((#) c)) (scan_str cs))"
  by pat_completeness auto
termination by (relation "measure length") auto

declare scan_str.simps [simp del]

lemma scan_str_shorter: "scan_str s = Some (raw, t) \<Longrightarrow> length t < length s"
proof (induction s arbitrary: raw t rule: length_induct)
  case (1 s)
  have IH: "length v < length s" if "scan_str u = Some (r, v)" "length u < length s" for u r v
    using 1(1) that by (meson less_trans)
  show ?case
    using 1(2) unfolding scan_str.simps [of s] by (auto split: list.splits if_splits dest!: IH)
qed

definition scan_frac :: "string \<Rightarrow> (string \<times> string) option" where
  "scan_frac s =
     (if s \<noteq> [] \<and> hd s = CHR ''.'' then
        let ds = takeWhile is_digit (tl s) in
        if ds = [] then None else Some (hd s # ds, dropWhile is_digit (tl s))
      else Some ([], s))"

definition scan_exp :: "string \<Rightarrow> (string \<times> string) option" where
  "scan_exp s =
     (if s \<noteq> [] \<and> (hd s = CHR ''e'' \<or> hd s = CHR ''E'') then
        let n = (if tl s \<noteq> [] \<and> (hd (tl s) = CHR ''+'' \<or> hd (tl s) = CHR ''-'') then 2 else 1);
            ds = takeWhile is_digit (drop n s) in
        if ds = [] then None else Some (take n s @ ds, dropWhile is_digit (drop n s))
      else Some ([], s))"

definition scan_int :: "string \<Rightarrow> (string \<times> string) option" where
  "scan_int s =
     (if s = [] \<or> \<not> is_digit (hd s) then None
      else if hd s = CHR ''0'' then Some ([hd s], tl s)
      else Some (takeWhile is_digit s, dropWhile is_digit s))"

definition scan_num :: "string \<Rightarrow> (string \<times> string) option" where
  "scan_num s =
     (let sgn = (if s \<noteq> [] \<and> hd s = CHR ''-'' then [hd s] else []) in
      case scan_int (drop (length sgn) s) of
        None \<Rightarrow> None
      | Some (n, s1) \<Rightarrow>
          (case scan_frac s1 of
             None \<Rightarrow> None
           | Some (f, s2) \<Rightarrow>
               (case scan_exp s2 of None \<Rightarrow> None | Some (e, s3) \<Rightarrow> Some (sgn @ n @ f @ e, s3))))"

lemma scan_num_shorter: "scan_num s = Some (n, t) \<Longrightarrow> length t < length s"
proof -
  have drop: "length (dropWhile P xs) \<le> length xs" for P and xs :: string by (rule length_dropWhile_le)
  have int: "length t < length s" if "scan_int s = Some (n, t)" for s n t
    using that drop [of is_digit "tl s"] by (cases s) (auto simp: scan_int_def less_Suc_eq_le split: if_splits)
  have frac: "length t \<le> length s" if "scan_frac s = Some (n, t)" for s n t
    using that drop [of is_digit "tl s"] by (cases s) (auto simp: scan_frac_def Let_def split: if_splits)
  have ex: "length t \<le> length s" if "scan_exp s = Some (n, t)" for s n t
    using that drop [of is_digit "drop 1 s"] drop [of is_digit "drop 2 s"] by (auto simp: scan_exp_def Let_def split: if_splits)
  assume "scan_num s = Some (n, t)"
  then show ?thesis
    by (fastforce simp: scan_num_def Let_def split: option.splits prod.splits if_splits dest: int frac ex)
qed

text \<open>A token of fixed text at the start.\<close>

definition fixed_token :: "string \<Rightarrow> token option" where
  "fixed_token s =
     find (\<lambda>t. take (length (token_text t)) s = token_text t)
       [TLBrace, TRBrace, TLBrack, TRBrack, TColon, TComma, TTrue, TFalse, TNull]"

lemma fixed_token_text: "fixed_token s = Some t \<Longrightarrow> token_text t \<noteq> []"
  by (auto simp: fixed_token_def split: if_splits)

function json_lex :: "string \<Rightarrow> token list option" where
  "json_lex s =
     (if s = [] then Some []
      else if is_space (hd s) then json_lex (tl s)
      else if hd s = CHR 0x22 then
        (case scan_str (tl s) of None \<Rightarrow> None | Some (raw, t) \<Rightarrow> map_option ((#) (TStr raw)) (json_lex t))
      else case fixed_token s of
          Some tok \<Rightarrow> map_option ((#) tok) (json_lex (drop (length (token_text tok)) s))
        | None \<Rightarrow>
            (case scan_num s of None \<Rightarrow> None | Some (n, t) \<Rightarrow> map_option ((#) (TNum n)) (json_lex t)))"
  by pat_completeness auto
termination
  by (relation "measure length") (auto dest: scan_str_shorter scan_num_shorter fixed_token_text)

declare json_lex.simps [simp del]

section \<open>From tokens to values\<close>

text \<open>
  The states of the scanner: where a value may begin, after a \<open>[\<close> or \<open>{\<close>, where a key must
  begin, after a key, after an element or member, and after the whole value. The stack holds what
  has been read of the open arrays and objects.
\<close>

datatype frame = FArr "json list" | FObj "(string \<times> json) list" | FKey "(string \<times> json) list" string

datatype scan_state = BeginValue | BeginValueOrEmpty | BeginString | BeginStringOrEmpty | AfterKey | EndValue | EndTop json

definition maxNestingDepth :: nat where
  "maxNestingDepth = 10000"

fun value_done :: "json \<Rightarrow> frame list \<Rightarrow> (frame list \<times> scan_state) option" where
  "value_done v [] = Some ([], EndTop v)"
| "value_done v (FArr vs # st) = Some (FArr (vs @ [v]) # st, EndValue)"
| "value_done v (FKey ms k # st) = Some (FObj (ms @ [(k, v)]) # st, EndValue)"
| "value_done v (FObj ms # st) = None"

definition push :: "frame \<Rightarrow> frame list \<Rightarrow> scan_state \<Rightarrow> (frame list \<times> scan_state) option" where
  "push f st q = (if length st < maxNestingDepth then Some (f # st, q) else None)"

definition begin_value :: "token \<Rightarrow> frame list \<Rightarrow> (frame list \<times> scan_state) option" where
  "begin_value t st =
     (case t of
        TLBrace \<Rightarrow> push (FObj []) st BeginStringOrEmpty
      | TLBrack \<Rightarrow> push (FArr []) st BeginValueOrEmpty
      | TTrue \<Rightarrow> value_done (JBool True) st
      | TFalse \<Rightarrow> value_done (JBool False) st
      | TNull \<Rightarrow> value_done JNull st
      | TNum n \<Rightarrow> value_done (JNum n) st
      | TStr raw \<Rightarrow> (case json_unquote raw of None \<Rightarrow> None | Some s \<Rightarrow> value_done (JStr s) st)
      | _ \<Rightarrow> None)"

definition begin_string :: "token \<Rightarrow> frame list \<Rightarrow> (frame list \<times> scan_state) option" where
  "begin_string t st =
     (case (t, st) of
        (TStr raw, FObj ms # st') \<Rightarrow> (case json_unquote raw of None \<Rightarrow> None | Some k \<Rightarrow> Some (FKey ms k # st', AfterKey))
      | _ \<Rightarrow> None)"

definition end_value :: "token \<Rightarrow> frame list \<Rightarrow> (frame list \<times> scan_state) option" where
  "end_value t st =
     (case (t, st) of
        (TComma, FArr vs # st') \<Rightarrow> Some (st, BeginValue)
      | (TRBrack, FArr vs # st') \<Rightarrow> value_done (JArr vs) st'
      | (TComma, FObj ms # st') \<Rightarrow> Some (st, BeginString)
      | (TRBrace, FObj ms # st') \<Rightarrow> value_done (JObj ms) st'
      | _ \<Rightarrow> None)"

fun scan_step :: "token \<Rightarrow> frame list \<times> scan_state \<Rightarrow> (frame list \<times> scan_state) option" where
  "scan_step t (st, BeginValue) = begin_value t st"
| "scan_step t (st, BeginValueOrEmpty) = (if t = TRBrack then end_value t st else begin_value t st)"
| "scan_step t (st, BeginString) = begin_string t st"
| "scan_step t (st, BeginStringOrEmpty) = (if t = TRBrace then end_value t st else begin_string t st)"
| "scan_step t (st, AfterKey) = (if t = TColon then Some (st, BeginValue) else None)"
| "scan_step t (st, EndValue) = end_value t st"
| "scan_step t (st, EndTop v) = None"

fun scan_all :: "token list \<Rightarrow> frame list \<times> scan_state \<Rightarrow> (frame list \<times> scan_state) option" where
  "scan_all [] q = Some q"
| "scan_all (t # ts) q = (case scan_step t q of None \<Rightarrow> None | Some q' \<Rightarrow> scan_all ts q')"

definition read_json :: "string \<Rightarrow> json option" where
  "read_json s =
     (case json_lex s of
        None \<Rightarrow> None
      | Some ts \<Rightarrow> (case scan_all ts ([], BeginValue) of Some (_, EndTop v) \<Rightarrow> Some v | _ \<Rightarrow> None))"

section \<open>Reading what was written\<close>

text \<open>
  Numbers that the program writes are integers; strings come back sanitized; the nesting must
  stay within the limit.
\<close>

fun plain :: "json \<Rightarrow> bool" and plain_elems :: "json list \<Rightarrow> bool" and plain_members :: "(string \<times> json) list \<Rightarrow> bool" where
  "plain (JNum n) \<longleftrightarrow> (case parse_int n of None \<Rightarrow> False | Some i \<Rightarrow> n = fmt_int i)"
| "plain (JArr js) \<longleftrightarrow> plain_elems js"
| "plain (JObj ms) \<longleftrightarrow> plain_members ms"
| "plain _ \<longleftrightarrow> True"
| "plain_elems [] \<longleftrightarrow> True"
| "plain_elems (j # js) \<longleftrightarrow> plain j \<and> plain_elems js"
| "plain_members [] \<longleftrightarrow> True"
| "plain_members ((k, j) # ms) \<longleftrightarrow> plain j \<and> plain_members ms"

fun depth :: "json \<Rightarrow> nat" and elems_depth :: "json list \<Rightarrow> nat" and members_depth :: "(string \<times> json) list \<Rightarrow> nat" where
  "depth (JArr js) = Suc (elems_depth js)"
| "depth (JObj ms) = Suc (members_depth ms)"
| "depth _ = 0"
| "elems_depth [] = 0"
| "elems_depth (j # js) = max (depth j) (elems_depth js)"
| "members_depth [] = 0"
| "members_depth ((k, j) # ms) = max (depth j) (members_depth ms)"

fun sane :: "json \<Rightarrow> json" and sane_elems :: "json list \<Rightarrow> json list"
  and sane_members :: "(string \<times> json) list \<Rightarrow> (string \<times> json) list" where
  "sane (JStr s) = JStr (sanitize s)"
| "sane (JArr js) = JArr (sane_elems js)"
| "sane (JObj ms) = JObj (sane_members ms)"
| "sane j = j"
| "sane_elems [] = []"
| "sane_elems (j # js) = sane j # sane_elems js"
| "sane_members [] = []"
| "sane_members ((k, j) # ms) = (sanitize k, sane j) # sane_members ms"

text \<open>The text of a quoted string ends at its closing quote.\<close>

lemma scan_str_plain:
  assumes "\<And>c. c \<in> set p \<Longrightarrow> c \<noteq> CHR 0x22 \<and> c \<noteq> CHR 0x5C \<and> 0x20 \<le> code c"
  shows "scan_str (p @ u) = map_option (apfst ((@) p)) (scan_str u)"
  using assms
proof (induction p)
  case Nil
  show ?case by (cases "scan_str u") (simp_all add: prod_eq_iff)
next
  case (Cons c p)
  from Cons.prems [of c] have "scan_str ((c # p) @ u) = map_option (apfst ((#) c)) (scan_str (p @ u))"
    by (subst scan_str.simps) simp
  with Cons show ?case by (cases "scan_str u") (simp_all add: prod_eq_iff)
qed

lemma scan_str_u:
  assumes "getu4 s = Some r" "length s = 6"
  shows "scan_str (s @ u) = map_option (apfst ((@) s)) (scan_str u)"
proof -
  obtain c1 c2 c3 c4 where s: "s = [CHR 0x5C, CHR ''u'', c1, c2, c3, c4]"
    using assms by (auto simp: getu4_def numeral_eq_Suc length_Suc_conv split: if_splits)
  have "getu4 (s @ u) = Some r" using assms(1) unfolding s by (simp add: getu4_def)
  then show ?thesis unfolding s by (subst scan_str.simps) simp
qed

lemma scan_str_escape:
  assumes "code c < 0x80" "\<not> html_safe c"
  shows "scan_str (escape c @ u) = map_option (apfst ((@) (escape c))) (scan_str u)"
proof (cases "c \<in> {CHR 0x5C, CHR 0x22, CHR 0x08, CHR 0x0C, CHR 0x0A, CHR 0x0D, CHR 0x09}")
  case True
  then show ?thesis
    by (elim insertE emptyE) (subst scan_str.simps, simp add: escape_def)+
next
  case False
  then have e: "escape c = [CHR 0x5C, CHR ''u'', CHR ''0'', CHR ''0'', hex (code c div 16), hex (code c mod 16)]"
    by (simp add: escape_def)
  show ?thesis by (rule scan_str_u [of _ "code c"]) (simp_all add: e getu4_escape [OF assms(1)])
qed

lemma rune_bytes:
  assumes "0 < rune_size s" "\<not> code (hd s) < 0x80" "c \<in> set (take (rune_size s) s)"
  shows "0x80 \<le> code c"
  using assms(1) by (cases rule: rune_size_cases) (use assms(2,3) in \<open>auto simp: rune2_def rune3_def rune4_def cont_def\<close>)

lemma scan_str_quote_rune:
  assumes "0 < rune_size s" "\<not> code (hd s) < 0x80"
  shows "scan_str (quote_rune (take (rune_size s) s) @ u) = map_option (apfst ((@) (quote_rune (take (rune_size s) s)))) (scan_str u)"
proof -
  have "scan_str (take (rune_size s) s @ u) = map_option (apfst ((@) (take (rune_size s) s))) (scan_str u)"
    by (rule scan_str_plain) (use rune_bytes [OF assms] in fastforce)
  then show ?thesis
    using scan_str_u [OF getu4_2028, of u] scan_str_u [OF getu4_2029, of u] by (simp add: quote_rune_def)
qed

lemma scan_str_quote: "scan_str (json_quote s @ CHR 0x22 # t) = Some (json_quote s, t)"
proof (induction s rule: json_quote.induct)
  case (1 s)
  show ?case
  proof (cases s)
    case Nil
    then show ?thesis by (simp add: scan_str.simps)
  next
    case (Cons c cs)
    consider (ascii) "code c < 0x80" | (bad) "\<not> code c < 0x80" "rune_size s = 0" | (rune) "\<not> code c < 0x80" "0 < rune_size s"
      by auto
    then show ?thesis
    proof cases
      case ascii
      have "scan_str ((if html_safe c then [c] else escape c) @ u) =
          map_option (apfst ((@) (if html_safe c then [c] else escape c))) (scan_str u)" for u
        using scan_str_plain [of "[c]" u] scan_str_escape [OF ascii, of u] by (auto simp: html_safe_def)
      moreover have "json_quote s = (if html_safe c then [c] else escape c) @ json_quote cs"
        using ascii Cons by (subst json_quote.simps) simp
      ultimately show ?thesis using 1(1) [OF Cons ascii] by simp
    next
      case bad
      then have "json_quote s = (CHR 0x5C # ''ufffd'') @ json_quote cs"
        using Cons by (subst json_quote.simps) simp
      then show ?thesis
        using 1(2) [OF Cons bad] scan_str_u [OF getu4_fffd, of "json_quote cs @ CHR 0x22 # t"] by simp
    next
      case rune
      have "json_quote s = quote_rune (take (rune_size s) s) @ json_quote (drop (rune_size s) s)"
        using rune Cons by (subst json_quote.simps) simp
      then show ?thesis using 1(3) [OF Cons rune(1)] rune scan_str_quote_rune [of s] Cons by simp
    qed
  qed
qed

text \<open>A number ends where no character continues it.\<close>

definition num_end :: "string \<Rightarrow> bool" where
  "num_end s \<longleftrightarrow> s = [] \<or> \<not> is_digit (hd s) \<and> hd s \<notin> {CHR ''.'', CHR ''e'', CHR ''E''}"

lemma fmt_d_no_leading_zero: "hd (fmt_d n) = CHR ''0'' \<longleftrightarrow> n = 0"
proof (induction n rule: fmt_d.induct)
  case (1 n)
  have "digit n = CHR ''0'' \<longleftrightarrow> n = 0" if "n < 10" for n
    using that by (simp add: digit_def char_of_eq_iff take_bit_eq_mod)
  with 1 show ?case by (cases "n < 10") (simp_all add: fmt_d.simps [of n])
qed

lemma scan_int_fmt_d:
  assumes "num_end u"
  shows "scan_int (fmt_d n @ u) = Some (fmt_d n, u)"
proof (cases "n = 0")
  case True
  have "fmt_d 0 = ''0''" by (simp add: fmt_d.simps digit_def char_of_eq_iff take_bit_eq_mod)
  then show ?thesis using True by (simp add: scan_int_def is_digit_def)
next
  case False
  have "takeWhile is_digit (fmt_d n @ u) = fmt_d n @ takeWhile is_digit u" "dropWhile is_digit (fmt_d n @ u) = dropWhile is_digit u"
    using fmt_d_digits [of n] by (auto simp: list_all_iff intro: takeWhile_append2 dropWhile_append2)
  moreover have "takeWhile is_digit u = []" "dropWhile is_digit u = u" using assms by (cases u; simp add: num_end_def)+
  ultimately show ?thesis using False fmt_d_hd [of n] fmt_d_no_leading_zero [of n] by (simp add: scan_int_def)
qed

lemma scan_num_fmt_int:
  assumes "num_end u"
  shows "scan_num (fmt_int i @ u) = Some (fmt_int i, u)"
proof -
  have "hd (fmt_d n) \<noteq> CHR ''-''" for n using fmt_d_hd [of n] by (auto simp: is_digit_def)
  moreover have "scan_frac u = Some ([], u)" "scan_exp u = Some ([], u)"
    using assms by (auto simp: num_end_def scan_frac_def scan_exp_def)
  ultimately show ?thesis using scan_int_fmt_d [OF assms] by (simp add: scan_num_def fmt_int_def)
qed

lemma lex_string: "json_lex (CHR 0x22 # json_quote s @ CHR 0x22 # u) = map_option ((#) (TStr (json_quote s))) (json_lex u)"
  by (subst json_lex.simps) (simp add: scan_str_quote is_space_def)

lemma lex_punct:
  "json_lex (CHR ''{'' # u) = map_option ((#) TLBrace) (json_lex u)"
  "json_lex (CHR ''}'' # u) = map_option ((#) TRBrace) (json_lex u)"
  "json_lex (CHR ''['' # u) = map_option ((#) TLBrack) (json_lex u)"
  "json_lex (CHR '']'' # u) = map_option ((#) TRBrack) (json_lex u)"
  "json_lex (CHR '':'' # u) = map_option ((#) TColon) (json_lex u)"
  "json_lex (CHR '','' # u) = map_option ((#) TComma) (json_lex u)"
  "json_lex (CHR ''t'' # CHR ''r'' # CHR ''u'' # CHR ''e'' # u) = map_option ((#) TTrue) (json_lex u)"
  "json_lex (CHR ''f'' # CHR ''a'' # CHR ''l'' # CHR ''s'' # CHR ''e'' # u) = map_option ((#) TFalse) (json_lex u)"
  "json_lex (CHR ''n'' # CHR ''u'' # CHR ''l'' # CHR ''l'' # u) = map_option ((#) TNull) (json_lex u)"
  by (subst json_lex.simps, simp add: fixed_token_def is_space_def)+

lemma fixed_token_hd:
  "fixed_token (c # cs) \<noteq> None \<Longrightarrow> code c \<in> {123, 125, 91, 93, 58, 44, 116, 102, 110}"
  by (simp add: fixed_token_def split: if_split_asm)

lemma num_start: "c = CHR ''-'' \<or> is_digit c \<Longrightarrow> code c = 45 \<or> 48 \<le> code c \<and> code c \<le> 57"
  by (auto simp: is_digit_def)

lemma lex_num:
  assumes "num_end u"
  shows "json_lex (fmt_int i @ u) = map_option ((#) (TNum (fmt_int i))) (json_lex u)"
proof -
  obtain c cs where c: "fmt_int i = c # cs" "c = CHR ''-'' \<or> is_digit c"
    using fmt_d_hd [of "nat i"] by (cases "i < 0"; cases "fmt_d (nat i)") (auto simp: fmt_int_def)
  have "\<not> is_space c" "c \<noteq> CHR 0x22" "fixed_token (c # cs @ u) = None"
    using num_start [OF c(2)] fixed_token_hd [of c "cs @ u"] by (force simp: is_space_def)+
  then show ?thesis using scan_num_fmt_int [OF assms, of i] by (subst json_lex.simps) (simp add: c(1))
qed

abbreviation text_of :: "token list \<Rightarrow> string" where
  "text_of ts \<equiv> concat (map token_text ts)"

lemma num_end_punct [simp]:
  "num_end (CHR '','' # s)" "num_end (CHR '']'' # s)" "num_end (CHR ''}'' # s)" "num_end []"
  by (simp_all add: num_end_def is_digit_def)

lemma append_fun:
  "(@) [] = (\<lambda>x. x)" "(@) (a # as) = (\<lambda>x. a # as @ x)" "(@) (as @ bs) = (\<lambda>x. as @ bs @ x)"
  by (simp_all add: fun_eq_iff)

lemma lex_tokens:
  "plain j \<Longrightarrow> num_end u \<Longrightarrow> json_lex (text_of (tokens j) @ u) = map_option ((@) (tokens j)) (json_lex u)"
  "plain_elems js \<Longrightarrow> num_end u \<Longrightarrow> json_lex (text_of (elem_tokens js) @ u) = map_option ((@) (elem_tokens js)) (json_lex u)"
  "plain_members ms \<Longrightarrow> num_end u \<Longrightarrow> json_lex (text_of (member_tokens ms) @ u) = map_option ((@) (member_tokens ms)) (json_lex u)"
proof (induction j and js and ms arbitrary: u and u and u rule: tokens_elem_tokens_member_tokens.induct)
  case (3 n)
  then obtain i where "n = fmt_int i" by (auto split: option.splits)
  with 3 show ?case using lex_num [of u i] by simp
qed (simp_all add: lex_punct lex_string option.map_comp option.map_ident o_def append_fun)

text \<open>The state machine reads a value and continues with what follows it.\<close>

lemma scan_tokens:
  "depth j + length st \<le> maxNestingDepth \<Longrightarrow> q = BeginValue \<or> q = BeginValueOrEmpty \<Longrightarrow>
     scan_all (tokens j @ ts) (st, q) = (case value_done (sane j) st of None \<Rightarrow> None | Some p \<Rightarrow> scan_all ts p)"
  "elems_depth js + length st < maxNestingDepth \<Longrightarrow> q = BeginValue \<or> q = BeginValueOrEmpty \<Longrightarrow> js \<noteq> [] \<Longrightarrow>
     scan_all (elem_tokens js @ ts) (FArr vs # st, q) = scan_all ts (FArr (vs @ sane_elems js) # st, EndValue)"
  "members_depth ms + length st < maxNestingDepth \<Longrightarrow> q = BeginString \<or> q = BeginStringOrEmpty \<Longrightarrow> ms \<noteq> [] \<Longrightarrow>
     scan_all (member_tokens ms @ ts) (FObj ps # st, q) = scan_all ts (FObj (ps @ sane_members ms) # st, EndValue)"
proof (induction j and js and ms arbitrary: st q ts and st q ts vs and st q ts ps rule: tokens_elem_tokens_member_tokens.induct)
  case (4 s)
  then show ?case by (auto simp: begin_value_def json_unquote_quote)
next
  case (5 js)
  have push: "push (FArr []) st BeginValueOrEmpty = Some (FArr [] # st, BeginValueOrEmpty)"
    using 5(2) by (simp add: push_def)
  show ?case
  proof (cases "js = []")
    case True
    with 5(3) push show ?thesis by (auto simp: begin_value_def end_value_def split: option.split)
  next
    case False
    with 5 push show ?thesis by (auto simp: begin_value_def end_value_def split: option.split)
  qed
next
  case (6 ms)
  have push: "push (FObj []) st BeginStringOrEmpty = Some (FObj [] # st, BeginStringOrEmpty)"
    using 6(2) by (simp add: push_def)
  show ?case
  proof (cases "ms = []")
    case True
    with 6(3) push show ?thesis by (auto simp: begin_value_def end_value_def split: option.split)
  next
    case False
    with 6 push show ?thesis by (auto simp: begin_value_def end_value_def split: option.split)
  qed
next
  case (8 j js)
  have "depth j + length (FArr vs # st) \<le> maxNestingDepth" "elems_depth js + length st < maxNestingDepth"
    using 8(3) by simp_all
  with 8 show ?case by (cases "js = []") (simp_all add: end_value_def)
next
  case (10 k j ms)
  have "depth j + length (FKey ps (sanitize k) # st) \<le> maxNestingDepth" "members_depth ms + length st < maxNestingDepth"
    using 10(3) by simp_all
  with 10 show ?case
    by (cases "ms = []") (auto simp: begin_string_def json_unquote_quote end_value_def)
qed (auto simp: begin_value_def)

theorem read_write_json:
  assumes "plain j" "depth j \<le> maxNestingDepth"
  shows "read_json (write_json j) = Some (sane j)"
proof -
  have "json_lex (write_json j) = Some (tokens j)"
    using lex_tokens(1) [OF assms(1), of "[]"] by (simp add: write_json_def) (simp add: json_lex.simps [of "[]"])
  moreover have "scan_all (tokens j) ([], BeginValue) = Some ([], EndTop (sane j))"
    using scan_tokens(1) [of j "[]" BeginValue "[]"] assms(2) by simp
  ultimately show ?thesis by (simp add: read_json_def)
qed

end
