(* ===== verification/Codec.thy ===== *)
theory Codec
  imports Json
begin

text \<open>
  Go values as \<open>encoding/json\<close> sees them through reflection, and \<open>Marshal\<close> and \<open>Unmarshal\<close> on them.
  A \<open>kind\<close> is the part of a Go type that matters: the fields of a struct with their JSON names and
  whether they are omitted when empty, and the width of an integer. A nil slice is \<open>None\<close>.

  \<open>Unmarshal\<close> decodes into an existing value: \<open>null\<close> leaves everything but a slice as it is, a later
  member of an object overrides an earlier one, members without a field are ignored.
\<close>

section \<open>Kinds and values\<close>

datatype kind = KString | KBytes | KBool | KInt nat | KUint nat | KSlice kind | KStruct "(string \<times> bool \<times> kind) list"

datatype gval = VString string | VBytes "bytes option" | VBool bool | VInt int | VSlice "gval list option" | VStruct "gval list"

fun zero_val :: "kind \<Rightarrow> gval" and zero_fields :: "(string \<times> bool \<times> kind) list \<Rightarrow> gval list" where
  "zero_val KString = VString []"
| "zero_val KBytes = VBytes None"
| "zero_val KBool = VBool False"
| "zero_val (KInt w) = VInt 0"
| "zero_val (KUint w) = VInt 0"
| "zero_val (KSlice k) = VSlice None"
| "zero_val (KStruct fs) = VStruct (zero_fields fs)"
| "zero_fields [] = []"
| "zero_fields ((n, om, k) # fs) = zero_val k # zero_fields fs"

text \<open>What \<open>omitempty\<close> omits.\<close>

fun is_empty :: "gval \<Rightarrow> bool" where
  "is_empty (VString s) \<longleftrightarrow> s = []"
| "is_empty (VBytes b) \<longleftrightarrow> b = None \<or> b = Some []"
| "is_empty (VBool b) \<longleftrightarrow> \<not> b"
| "is_empty (VInt i) \<longleftrightarrow> i = 0"
| "is_empty (VSlice vs) \<longleftrightarrow> vs = None \<or> vs = Some []"
| "is_empty (VStruct vs) \<longleftrightarrow> False"

section \<open>Marshal\<close>

fun enc :: "kind \<Rightarrow> gval \<Rightarrow> json" and enc_elems :: "kind \<Rightarrow> gval list \<Rightarrow> json list"
  and enc_fields :: "(string \<times> bool \<times> kind) list \<Rightarrow> gval list \<Rightarrow> (string \<times> json) list" where
  "enc (KStruct fs) (VStruct vs) = JObj (enc_fields fs vs)"
| "enc (KSlice k) (VSlice (Some vs)) = JArr (enc_elems k vs)"
| "enc k (VBytes (Some bs)) = JStr (b64_encode bs)"
| "enc k (VString s) = JStr s"
| "enc k (VBool b) = JBool b"
| "enc k (VInt i) = JNum (fmt_int i)"
| "enc k v = JNull"
| "enc_elems k [] = []"
| "enc_elems k (v # vs) = enc k v # enc_elems k vs"
| "enc_fields ((n, om, k) # fs) (v # vs) = (if om \<and> is_empty v then [] else [(n, enc k v)]) @ enc_fields fs vs"
| "enc_fields fs vs = []"

definition Marshal :: "kind \<Rightarrow> gval \<Rightarrow> string" where
  "Marshal k v = write_json (enc k v)"

section \<open>Unmarshal\<close>

text \<open>
  The field of a member: the one of that name, or else the first whose name differs in case only.
  Besides their two cases the letters \<open>s\<close> and \<open>k\<close> fold with \<open>U+017F\<close> and \<open>U+212A\<close>.
\<close>

fun fold_name :: "string \<Rightarrow> string" where
  "fold_name [] = []"
| "fold_name (c # cs) =
     (if code c = 0xC5 \<and> cs \<noteq> [] \<and> code (hd cs) = 0xBF then CHR ''S'' # fold_name (tl cs)
      else if code c = 0xE2 \<and> map code (take 2 cs) = [0x84, 0xAA] then CHR ''K'' # fold_name (drop 2 cs)
      else (if 97 \<le> code c \<and> code c \<le> 122 then char_of (code c - 32) else c) # fold_name cs)"

fun index_of :: "('a \<Rightarrow> bool) \<Rightarrow> 'a list \<Rightarrow> nat option" where
  "index_of P [] = None"
| "index_of P (x # xs) = (if P x then Some 0 else map_option Suc (index_of P xs))"

definition field_index :: "(string \<times> bool \<times> kind) list \<Rightarrow> string \<Rightarrow> nat option" where
  "field_index fs key =
     (case index_of (\<lambda>f. fst f = key) fs of
        Some i \<Rightarrow> Some i
      | None \<Rightarrow> index_of (\<lambda>f. fold_name (fst f) = fold_name key) fs)"

definition dec_int :: "int \<Rightarrow> int \<Rightarrow> int option \<Rightarrow> gval option" where
  "dec_int lo hi i = (case i of None \<Rightarrow> None | Some i \<Rightarrow> if lo \<le> i \<and> i < hi then Some (VInt i) else None)"

text \<open>A byte slice may also come as an array of numbers.\<close>

fun dec_byte :: "byte \<Rightarrow> json \<Rightarrow> byte option" where
  "dec_byte old (JNum n) = (case parse_nat n of None \<Rightarrow> None | Some b \<Rightarrow> if b < 256 then Some (of_nat b) else None)"
| "dec_byte old JNull = Some old"
| "dec_byte old _ = None"

fun dec_bytes :: "bytes \<Rightarrow> json list \<Rightarrow> bytes option" where
  "dec_bytes olds [] = Some []"
| "dec_bytes olds (j # js) =
     (case dec_byte (if olds = [] then 0 else hd olds) j of
        None \<Rightarrow> None
      | Some b \<Rightarrow> map_option ((#) b) (dec_bytes (tl olds) js))"

fun dec :: "kind \<Rightarrow> gval \<Rightarrow> json \<Rightarrow> gval option" and dec_elems :: "kind \<Rightarrow> gval list \<Rightarrow> json list \<Rightarrow> gval list option"
  and dec_members :: "(string \<times> bool \<times> kind) list \<Rightarrow> gval list \<Rightarrow> (string \<times> json) list \<Rightarrow> gval list option" where
  "dec KBytes old JNull = Some (VBytes None)"
| "dec (KSlice k) old JNull = Some (VSlice None)"
| "dec k old JNull = Some old"
| "dec KString old (JStr s) = Some (VString s)"
| "dec KBytes old (JStr s) = map_option (\<lambda>bs. VBytes (Some bs)) (b64_decode s)"
| "dec k old (JStr s) = None"
| "dec KBool old (JBool b) = Some (VBool b)"
| "dec k old (JBool b) = None"
| "dec (KInt w) old (JNum n) = dec_int (- (2 ^ (w - 1))) (2 ^ (w - 1)) (parse_int n)"
| "dec (KUint w) old (JNum n) = dec_int 0 (2 ^ w) (map_option int (parse_nat n))"
| "dec k old (JNum n) = None"
| "dec KBytes old (JArr js) =
     map_option (\<lambda>bs. VBytes (Some bs)) (dec_bytes (case old of VBytes (Some bs) \<Rightarrow> bs | _ \<Rightarrow> []) js)"
| "dec (KSlice k) old (JArr js) =
     map_option (\<lambda>vs. VSlice (Some vs)) (dec_elems k (case old of VSlice (Some vs) \<Rightarrow> vs | _ \<Rightarrow> []) js)"
| "dec k old (JArr js) = None"
| "dec (KStruct fs) old (JObj ms) =
     map_option VStruct (dec_members fs (case old of VStruct vs \<Rightarrow> vs | _ \<Rightarrow> zero_fields fs) ms)"
| "dec k old (JObj ms) = None"
| "dec_elems k olds [] = Some []"
| "dec_elems k olds (j # js) =
     (case dec k (if olds = [] then zero_val k else hd olds) j of
        None \<Rightarrow> None
      | Some v \<Rightarrow> map_option ((#) v) (dec_elems k (tl olds) js))"
| "dec_members fs vs [] = Some vs"
| "dec_members fs vs ((key, j) # ms) =
     (case field_index fs key of
        None \<Rightarrow> dec_members fs vs ms
      | Some i \<Rightarrow>
          (case dec (snd (snd (fs ! i))) (vs ! i) j of
             None \<Rightarrow> None
           | Some v \<Rightarrow> dec_members fs (vs[i := v]) ms))"

datatype json_error = SyntaxError | TypeError

definition Unmarshal :: "kind \<Rightarrow> gval \<Rightarrow> string \<Rightarrow> json_error + gval" where
  "Unmarshal k old s =
     (case read_json s of
        None \<Rightarrow> Inl SyntaxError
      | Some j \<Rightarrow> (case dec k old j of None \<Rightarrow> Inl TypeError | Some v \<Rightarrow> Inr v))"

section \<open>Round trip\<close>

text \<open>
  A value of a kind: integers in range, and a field omitted when empty is nil when it is an empty
  slice, as the reader makes it. \<open>sane_val\<close> is the value with its strings sanitized.
\<close>

fun has_kind :: "kind \<Rightarrow> gval \<Rightarrow> bool" and have_kind :: "kind \<Rightarrow> gval list \<Rightarrow> bool"
  and has_fields :: "(string \<times> bool \<times> kind) list \<Rightarrow> gval list \<Rightarrow> bool" where
  "has_kind KString (VString s) \<longleftrightarrow> True"
| "has_kind KBytes (VBytes b) \<longleftrightarrow> True"
| "has_kind KBool (VBool b) \<longleftrightarrow> True"
| "has_kind (KInt w) (VInt i) \<longleftrightarrow> - (2 ^ (w - 1)) \<le> i \<and> i < 2 ^ (w - 1)"
| "has_kind (KUint w) (VInt i) \<longleftrightarrow> 0 \<le> i \<and> i < 2 ^ w"
| "has_kind (KSlice k) (VSlice None) \<longleftrightarrow> True"
| "has_kind (KSlice k) (VSlice (Some vs)) \<longleftrightarrow> have_kind k vs"
| "has_kind (KStruct fs) (VStruct vs) \<longleftrightarrow> has_fields fs vs"
| "has_kind k v \<longleftrightarrow> False"
| "have_kind k [] \<longleftrightarrow> True"
| "have_kind k (v # vs) \<longleftrightarrow> has_kind k v \<and> have_kind k vs"
| "has_fields [] [] \<longleftrightarrow> True"
| "has_fields ((n, om, k) # fs) (v # vs) \<longleftrightarrow> has_kind k v \<and> (om \<and> is_empty v \<longrightarrow> v = zero_val k) \<and> has_fields fs vs"
| "has_fields fs vs \<longleftrightarrow> False"

fun wf_kind :: "kind \<Rightarrow> bool" and wf_fields :: "(string \<times> bool \<times> kind) list \<Rightarrow> bool" where
  "wf_kind (KSlice k) \<longleftrightarrow> wf_kind k"
| "wf_kind (KStruct fs) \<longleftrightarrow> wf_fields fs"
| "wf_kind k \<longleftrightarrow> True"
| "wf_fields [] \<longleftrightarrow> True"
| "wf_fields ((n, om, k) # fs) \<longleftrightarrow> sanitize n = n \<and> n \<notin> fst ` set fs \<and> wf_kind k \<and> wf_fields fs"

fun sane_val :: "gval \<Rightarrow> gval" and sane_vals :: "gval list \<Rightarrow> gval list" where
  "sane_val (VString s) = VString (sanitize s)"
| "sane_val (VSlice (Some vs)) = VSlice (Some (sane_vals vs))"
| "sane_val (VStruct vs) = VStruct (sane_vals vs)"
| "sane_val v = v"
| "sane_vals [] = []"
| "sane_vals (v # vs) = sane_val v # sane_vals vs"

fun kind_depth :: "kind \<Rightarrow> nat" and fields_depth :: "(string \<times> bool \<times> kind) list \<Rightarrow> nat" where
  "kind_depth (KSlice k) = Suc (kind_depth k)"
| "kind_depth (KStruct fs) = Suc (fields_depth fs)"
| "kind_depth k = 0"
| "fields_depth [] = 0"
| "fields_depth ((n, om, k) # fs) = max (kind_depth k) (fields_depth fs)"

lemma plain_append: "plain_members (ms @ ns) \<longleftrightarrow> plain_members ms \<and> plain_members ns"
  by (induction ms) auto

lemma plain_enc: "plain (enc k v)" "plain_elems (enc_elems k vs)" "plain_members (enc_fields fs vs)"
  by (induction k v and k vs and fs vs rule: enc_enc_elems_enc_fields.induct)
    (simp_all add: parse_int_fmt plain_append)

lemma members_depth_append: "members_depth (ms @ ns) = max (members_depth ms) (members_depth ns)"
  by (induction ms) (auto simp: max.assoc)

lemma depth_enc:
  "depth (enc k v) \<le> kind_depth k" "elems_depth (enc_elems k vs) \<le> kind_depth k" "members_depth (enc_fields fs vs) \<le> fields_depth fs"
  by (induction k v and k vs and fs vs rule: enc_enc_elems_enc_fields.induct)
    (auto simp: members_depth_append le_max_iff_disj)

lemma index_of_append: "index_of P (xs @ ys) = (case index_of P xs of Some i \<Rightarrow> Some i | None \<Rightarrow> map_option ((+) (length xs)) (index_of P ys))"
  by (induction xs; cases "index_of P ys") (auto split: option.split)

lemma index_of_None: "index_of P xs = None \<longleftrightarrow> (\<forall>x \<in> set xs. \<not> P x)"
  by (induction xs) auto

lemma field_index_middle:
  assumes "n \<notin> fst ` set pre"
  shows "field_index (pre @ (n, om, k) # fs) n = Some (length pre)"
proof -
  have "index_of (\<lambda>f. fst f = n) pre = None" using assms by (auto simp: index_of_None)
  then show ?thesis by (simp add: field_index_def index_of_append)
qed

lemma sane_members_append: "sane_members (ms @ ns) = sane_members ms @ sane_members ns"
  by (induction ms) auto

lemma length_zero_fields [simp]: "length (zero_fields fs) = length fs"
  by (induction fs) auto

text \<open>Decoding into the zero value what the encoder wrote. A struct is read field by field, in the order of writing.\<close>

lemma dec_enc:
  "wf_kind k \<Longrightarrow> has_kind k v \<Longrightarrow> dec k (zero_val k) (sane (enc k v)) = Some (sane_val v)"
  "wf_kind k \<Longrightarrow> have_kind k vs \<Longrightarrow> dec_elems k [] (sane_elems (enc_elems k vs)) = Some (sane_vals vs)"
  "wf_fields fs \<Longrightarrow> has_fields fs vs \<Longrightarrow> fst ` set pre \<inter> fst ` set fs = {} \<Longrightarrow> length vp = length pre \<Longrightarrow>
     dec_members (pre @ fs) (vp @ zero_fields fs) (sane_members (enc_fields fs vs)) = Some (vp @ sane_vals vs)"
proof (induction k v and k vs and fs vs arbitrary: and and pre vp rule: has_kind_have_kind_has_fields.induct)
  case (2 b)
  show ?case by (cases b) (simp_all add: b64_decode_encode sanitize_b64)
next
  case (5 w i)
  then have "parse_nat (fmt_int i) = Some (nat i)" by (simp add: fmt_int_def parse_nat_fmt)
  with 5 show ?case by (simp add: dec_int_def)
next
  case (8 fs vs)
  from 8(1) [of "[]" "[]"] 8(2,3) show ?case by simp
next
  case (13 n om k fs v vs)
  have IH: "dec_members ((pre @ [(n, om, k)]) @ fs) ((vp @ [w]) @ zero_fields fs) (sane_members (enc_fields fs vs)) =
      Some ((vp @ [w]) @ sane_vals vs)" for w
    using 13(3-6) by (intro 13(2)) auto
  show ?case
  proof (cases "om \<and> is_empty v")
    case True
    then have "sane_val v = zero_val k" using 13(1,3,4) by (cases k) (auto elim: is_empty.elims)
    with True IH [of "zero_val k"] show ?thesis by simp
  next
    case False
    have "field_index (pre @ (n, om, k) # fs) n = Some (length pre)"
      using 13(5) by (intro field_index_middle) auto
    moreover have "dec k (zero_val k) (sane (enc k v)) = Some (sane_val v)" using 13(1,3,4) by simp
    moreover have "sanitize n = n" using 13(3) by simp
    ultimately show ?thesis using False IH [of "sane_val v"] 13(6)
      by (auto simp: sane_members_append nth_append list_update_append)
  qed
qed (auto simp: parse_int_fmt dec_int_def)

theorem Unmarshal_Marshal:
  assumes "wf_kind k" "kind_depth k \<le> maxNestingDepth" "has_kind k v"
  shows "Unmarshal k (zero_val k) (Marshal k v) = Inr (sane_val v)"
proof -
  have "read_json (Marshal k v) = Some (sane (enc k v))"
    unfolding Marshal_def using plain_enc(1) depth_enc(1) [of k v] assms(2) by (intro read_write_json) auto
  then show ?thesis using dec_enc(1) [OF assms(1,3)] by (simp add: Unmarshal_def)
qed

end
