(* ===== verification/Message_Codec.thy ===== *)
theory Message_Codec
  imports Codec Messages
begin

text \<open>
  The messages of \<open>api/proto/messages.go\<close> as Go values,
      and the codec of \<open>api/proto/codec.go\<close> that
  gRPC uses for them. Each message has its kind, its value and the message of a value.
  \<open>nilp\<close> tells whether an empty slice in the message is nil, which the message does not show.
\<close>

section \<open>The codec\<close>

definition codec_Marshal :: "kind \<Rightarrow> gval \<Rightarrow> string" where
  "codec_Marshal k v = Marshal k v"

definition codec_Unmarshal :: "kind \<Rightarrow> (gval \<Rightarrow> 'm) \<Rightarrow> string \<Rightarrow> json_error + 'm" where
  "codec_Unmarshal k of_val data = (case Unmarshal k (zero_val k) data of Inl err \<Rightarrow> Inl err | Inr v \<Rightarrow> Inr (of_val v))"

definition codec_Name :: string where
  "codec_Name = ''json''"

section \<open>Fields\<close>

definition val_slice :: "bool \<Rightarrow> bytes \<Rightarrow> gval" where
  "val_slice nilp bs = VBytes (if nilp \<and> bs = [] then None else Some bs)"

definition val_strings :: "bool \<Rightarrow> string list \<Rightarrow> gval" where
  "val_strings nilp ss = VSlice (if nilp \<and> ss = [] then None else Some (map VString ss))"

definition field :: "nat \<Rightarrow> gval \<Rightarrow> gval" where
  "field i v = (case v of VStruct vs \<Rightarrow> vs ! i | _ \<Rightarrow> v)"

fun get_string :: "gval \<Rightarrow> string" where
  "get_string (VString s) = s" | "get_string _ = []"

fun get_bytes :: "gval \<Rightarrow> bytes" where
  "get_bytes (VBytes (Some bs)) = bs" | "get_bytes _ = []"

fun get_bool :: "gval \<Rightarrow> bool" where
  "get_bool (VBool b) = b" | "get_bool _ = False"

fun get_int :: "gval \<Rightarrow> int" where
  "get_int (VInt i) = i" | "get_int _ = 0"

fun get_strings :: "gval \<Rightarrow> string list" where
  "get_strings (VSlice (Some vs)) = map get_string vs" | "get_strings _ = []"

fun op_int :: "Operation \<Rightarrow> int" where
  "op_int OpSet = 0" | "op_int OpDelete = 1" | "op_int (OpOther i) = i"

definition op_of :: "int \<Rightarrow> Operation" where
  "op_of i = (if i = 0 then OpSet else if i = 1 then OpDelete else OpOther i)"

fun op_ok :: "Operation \<Rightarrow> bool" where
  "op_ok (OpOther i) \<longleftrightarrow> i \<noteq> 0 \<and> i \<noteq> 1 \<and> in_int64 i" | "op_ok _ \<longleftrightarrow> True"

section \<open>Messages\<close>

definition GetRequest_kind :: kind where
  "GetRequest_kind = KStruct [(''Key'', False, KString)]"

definition GetRequest_val :: "bool \<Rightarrow> GetRequest \<Rightarrow> gval" where
  "GetRequest_val nilp m = VStruct [VString (gq_Key m)]"

definition GetRequest_of :: "gval \<Rightarrow> GetRequest" where
  "GetRequest_of v = \<lparr>gq_Key = get_string (field 0 v)\<rparr>"

definition GetResponse_kind :: kind where
  "GetResponse_kind = KStruct [(''Key'', False, KString), (''Value'', False, KBytes), (''Found'', False, KBool),
      (''TtlMs'', False, KInt 64), (''IsHot'', False, KBool)]"

definition GetResponse_val :: "bool \<Rightarrow> GetResponse \<Rightarrow> gval" where
  "GetResponse_val nilp m = VStruct [VString (gr_Key m), val_slice nilp (gr_Value m), VBool (gr_Found m),
      VInt (gr_TtlMs m), VBool (gr_IsHot m)]"

definition GetResponse_of :: "gval \<Rightarrow> GetResponse" where
  "GetResponse_of v = \<lparr>gr_Key = get_string (field 0 v), gr_Value = get_bytes (field 1 v),
      gr_Found = get_bool (field 2 v), gr_TtlMs = get_int (field 3 v), gr_IsHot = get_bool (field 4 v)\<rparr>"

definition SetRequest_kind :: kind where
  "SetRequest_kind = KStruct [(''Key'', False, KString), (''Value'', False, KBytes), (''TtlMs'', False, KInt 64)]"

definition SetRequest_val :: "bool \<Rightarrow> SetRequest \<Rightarrow> gval" where
  "SetRequest_val nilp m = VStruct [VString (sq_Key m), val_slice nilp (sq_Value m), VInt (sq_TtlMs m)]"

definition SetRequest_of :: "gval \<Rightarrow> SetRequest" where
  "SetRequest_of v = \<lparr>sq_Key = get_string (field 0 v), sq_Value = get_bytes (field 1 v),
      sq_TtlMs = get_int (field 2 v)\<rparr>"

definition SetResponse_kind :: kind where
  "SetResponse_kind = KStruct [(''Success'', False, KBool)]"

definition SetResponse_val :: "bool \<Rightarrow> SetResponse \<Rightarrow> gval" where
  "SetResponse_val nilp m = VStruct [VBool (sr_Success m)]"

definition SetResponse_of :: "gval \<Rightarrow> SetResponse" where
  "SetResponse_of v = \<lparr>sr_Success = get_bool (field 0 v)\<rparr>"

definition DeleteRequest_kind :: kind where
  "DeleteRequest_kind = KStruct [(''Key'', False, KString)]"

definition DeleteRequest_val :: "bool \<Rightarrow> DeleteRequest \<Rightarrow> gval" where
  "DeleteRequest_val nilp m = VStruct [VString (dq_Key m)]"

definition DeleteRequest_of :: "gval \<Rightarrow> DeleteRequest" where
  "DeleteRequest_of v = \<lparr>dq_Key = get_string (field 0 v)\<rparr>"

definition DeleteResponse_kind :: kind where
  "DeleteResponse_kind = KStruct [(''Existed'', False, KBool)]"

definition DeleteResponse_val :: "bool \<Rightarrow> DeleteResponse \<Rightarrow> gval" where
  "DeleteResponse_val nilp m = VStruct [VBool (dr_Existed m)]"

definition DeleteResponse_of :: "gval \<Rightarrow> DeleteResponse" where
  "DeleteResponse_of v = \<lparr>dr_Existed = get_bool (field 0 v)\<rparr>"

definition ExpireRequest_kind :: kind where
  "ExpireRequest_kind = KStruct [(''Key'', False, KString), (''TtlMs'', False, KInt 64)]"

definition ExpireRequest_val :: "bool \<Rightarrow> ExpireRequest \<Rightarrow> gval" where
  "ExpireRequest_val nilp m = VStruct [VString (eq_Key m), VInt (eq_TtlMs m)]"

definition ExpireRequest_of :: "gval \<Rightarrow> ExpireRequest" where
  "ExpireRequest_of v = \<lparr>eq_Key = get_string (field 0 v), eq_TtlMs = get_int (field 1 v)\<rparr>"

definition ExpireResponse_kind :: kind where
  "ExpireResponse_kind = KStruct [(''Found'', False, KBool)]"

definition ExpireResponse_val :: "bool \<Rightarrow> ExpireResponse \<Rightarrow> gval" where
  "ExpireResponse_val nilp m = VStruct [VBool (er_Found m)]"

definition ExpireResponse_of :: "gval \<Rightarrow> ExpireResponse" where
  "ExpireResponse_of v = \<lparr>er_Found = get_bool (field 0 v)\<rparr>"

definition KeysRequest_kind :: kind where
  "KeysRequest_kind = KStruct [(''Pattern'', False, KString)]"

definition KeysRequest_val :: "bool \<Rightarrow> KeysRequest \<Rightarrow> gval" where
  "KeysRequest_val nilp m = VStruct [VString (kq_Pattern m)]"

definition KeysRequest_of :: "gval \<Rightarrow> KeysRequest" where
  "KeysRequest_of v = \<lparr>kq_Pattern = get_string (field 0 v)\<rparr>"

definition KeysResponse_kind :: kind where
  "KeysResponse_kind = KStruct [(''Keys'', False, KSlice KString)]"

definition KeysResponse_val :: "bool \<Rightarrow> KeysResponse \<Rightarrow> gval" where
  "KeysResponse_val nilp m = VStruct [val_strings nilp (kr_Keys m)]"

definition KeysResponse_of :: "gval \<Rightarrow> KeysResponse" where
  "KeysResponse_of v = \<lparr>kr_Keys = get_strings (field 0 v)\<rparr>"

definition PingRequest_kind :: kind where
  "PingRequest_kind = KStruct []"

definition PingRequest_val :: "bool \<Rightarrow> unit \<Rightarrow> gval" where
  "PingRequest_val nilp m = VStruct []"

definition PingRequest_of :: "gval \<Rightarrow> unit" where
  "PingRequest_of v = ()"

definition PingResponse_kind :: kind where
  "PingResponse_kind = KStruct [(''NodeId'', False, KString), (''UptimeMs'', False, KInt 64), (''KeysCount'', False,
      KInt 64)]"

definition PingResponse_val :: "bool \<Rightarrow> PingResponse \<Rightarrow> gval" where
  "PingResponse_val nilp m = VStruct [VString (pr_NodeId m), VInt (pr_UptimeMs m), VInt (pr_KeysCount m)]"

definition PingResponse_of :: "gval \<Rightarrow> PingResponse" where
  "PingResponse_of v = \<lparr>pr_NodeId = get_string (field 0 v), pr_UptimeMs = get_int (field 1 v),
      pr_KeysCount = get_int (field 2 v)\<rparr>"

definition ReplicateRequest_kind :: kind where
  "ReplicateRequest_kind = KStruct [(''Key'', False, KString), (''Value'', False, KBytes), (''TtlMs'', False,
      KInt 64), (''Sequence'', False, KUint 64), (''SourceNode'', False, KString), (''Op'', False, KInt 64)]"

definition ReplicateRequest_val :: "bool \<Rightarrow> ReplicateRequest \<Rightarrow> gval" where
  "ReplicateRequest_val nilp m = VStruct [VString (rq_Key m), val_slice nilp (rq_Value m), VInt (rq_TtlMs m),
      VInt (uint (rq_Sequence m)), VString (rq_SourceNode m), VInt (op_int (rq_Op m))]"

definition ReplicateRequest_of :: "gval \<Rightarrow> ReplicateRequest" where
  "ReplicateRequest_of v = \<lparr>rq_Key = get_string (field 0 v), rq_Value = get_bytes (field 1 v),
      rq_TtlMs = get_int (field 2 v), rq_Sequence = word_of_int (get_int (field 3 v)),
      rq_SourceNode = get_string (field 4 v), rq_Op = op_of (get_int (field 5 v))\<rparr>"

definition ReplicateResponse_kind :: kind where
  "ReplicateResponse_kind = KStruct [(''Success'', False, KBool)]"

definition ReplicateResponse_val :: "bool \<Rightarrow> ReplicateResponse \<Rightarrow> gval" where
  "ReplicateResponse_val nilp m = VStruct [VBool (rr_Success m)]"

definition ReplicateResponse_of :: "gval \<Rightarrow> ReplicateResponse" where
  "ReplicateResponse_of v = \<lparr>rr_Success = get_bool (field 0 v)\<rparr>"

definition TransferKeysRequest_kind :: kind where
  "TransferKeysRequest_kind = KStruct [(''RangeStart'', False, KUint 64), (''RangeEnd'', False, KUint 64),
      (''RequestingNode'', False, KString)]"

definition TransferKeysRequest_val :: "bool \<Rightarrow> TransferKeysRequest \<Rightarrow> gval" where
  "TransferKeysRequest_val nilp m = VStruct [VInt (uint (tq_RangeStart m)), VInt (uint (tq_RangeEnd m)),
      VString (tq_RequestingNode m)]"

definition TransferKeysRequest_of :: "gval \<Rightarrow> TransferKeysRequest" where
  "TransferKeysRequest_of v = \<lparr>tq_RangeStart = word_of_int (get_int (field 0 v)),
      tq_RangeEnd = word_of_int (get_int (field 1 v)), tq_RequestingNode = get_string (field 2 v)\<rparr>"

definition KeyValuePair_kind :: kind where
  "KeyValuePair_kind = KStruct [(''Key'', False, KString), (''Value'', False, KBytes), (''TtlMs'', False, KInt 64)]"

definition KeyValuePair_val :: "bool \<Rightarrow> KeyValuePair \<Rightarrow> gval" where
  "KeyValuePair_val nilp m = VStruct [VString (kv_Key m), val_slice nilp (kv_Value m), VInt (kv_TtlMs m)]"

definition KeyValuePair_of :: "gval \<Rightarrow> KeyValuePair" where
  "KeyValuePair_of v = \<lparr>kv_Key = get_string (field 0 v), kv_Value = get_bytes (field 1 v),
      kv_TtlMs = get_int (field 2 v)\<rparr>"

section \<open>Round trips\<close>

text \<open>
  The contract between a message type and the codec. \<open>good\<close> are the messages whose integers fit
  their fields, \<open>clean\<close> is the message with its strings sanitized.
\<close>

locale wire_type =
  fixes K :: kind and val :: "bool \<Rightarrow> 'm \<Rightarrow> gval" and of_val :: "gval \<Rightarrow> 'm"
    and good :: "'m \<Rightarrow> bool" and clean :: "'m \<Rightarrow> 'm"
  assumes kind_wf: "wf_kind K" and kind_shallow: "kind_depth K \<le> maxNestingDepth"
    and val_kind: "good m \<Longrightarrow> has_kind K (val nilp m)"
    and of_val_val: "good m \<Longrightarrow> of_val (sane_val (val nilp m)) = clean m"
begin

lemma wire_round_trip: "good m \<Longrightarrow> codec_Unmarshal K of_val (codec_Marshal K (val nilp m)) = Inr (clean m)"
  using Unmarshal_Marshal [OF kind_wf kind_shallow val_kind] of_val_val
  by (simp add: codec_Unmarshal_def codec_Marshal_def)

end

lemma sane_strings: "sane_vals (map VString ss) = map (\<lambda>s. VString (sanitize s)) ss"
  by (induction ss) simp_all

lemma have_strings: "have_kind KString (map VString ss)"
  by (induction ss) simp_all

lemma uint64_range: "uint (x :: u64) < 18446744073709551616"
  using uint_lt2p [of x] by simp

lemma op_int_range:
  assumes "op_ok p"
  shows "- 9223372036854775808 \<le> op_int p" "op_int p < 9223372036854775808" "op_of (op_int p) = p"
  using assms by (cases p; simp add: op_of_def in_int64_def)+

lemma sanitize_ascii_Cons: "code c < 128 \<Longrightarrow> sanitize (c # s) = c # sanitize s"
  by (subst sanitize.simps) (simp add: rune_size_def)

lemmas wire_simps = sanitize_ascii_Cons maxNestingDepth_def in_int64_def val_slice_def val_strings_def field_def
  sane_strings have_strings uint64_range op_int_range o_def

interpretation gq_wire: wire_type GetRequest_kind GetRequest_val GetRequest_of
  "\<lambda>m. True" "\<lambda>m. m\<lparr>gq_Key := sanitize (gq_Key m)\<rparr>"
  by unfold_locales (auto simp: GetRequest_kind_def GetRequest_val_def GetRequest_of_def wire_simps)

interpretation gr_wire: wire_type GetResponse_kind GetResponse_val GetResponse_of
  "\<lambda>m. in_int64 (gr_TtlMs m)" "\<lambda>m. m\<lparr>gr_Key := sanitize (gr_Key m)\<rparr>"
  by unfold_locales (auto simp: GetResponse_kind_def GetResponse_val_def GetResponse_of_def wire_simps)

interpretation sq_wire: wire_type SetRequest_kind SetRequest_val SetRequest_of
  "\<lambda>m. in_int64 (sq_TtlMs m)" "\<lambda>m. m\<lparr>sq_Key := sanitize (sq_Key m)\<rparr>"
  by unfold_locales (auto simp: SetRequest_kind_def SetRequest_val_def SetRequest_of_def wire_simps)

interpretation sr_wire: wire_type SetResponse_kind SetResponse_val SetResponse_of
  "\<lambda>m. True" "\<lambda>m. m"
  by unfold_locales (auto simp: SetResponse_kind_def SetResponse_val_def SetResponse_of_def wire_simps)

interpretation dq_wire: wire_type DeleteRequest_kind DeleteRequest_val DeleteRequest_of
  "\<lambda>m. True" "\<lambda>m. m\<lparr>dq_Key := sanitize (dq_Key m)\<rparr>"
  by unfold_locales (auto simp: DeleteRequest_kind_def DeleteRequest_val_def DeleteRequest_of_def wire_simps)

interpretation dr_wire: wire_type DeleteResponse_kind DeleteResponse_val DeleteResponse_of
  "\<lambda>m. True" "\<lambda>m. m"
  by unfold_locales (auto simp: DeleteResponse_kind_def DeleteResponse_val_def DeleteResponse_of_def wire_simps)

interpretation eq_wire: wire_type ExpireRequest_kind ExpireRequest_val ExpireRequest_of
  "\<lambda>m. in_int64 (eq_TtlMs m)" "\<lambda>m. m\<lparr>eq_Key := sanitize (eq_Key m)\<rparr>"
  by unfold_locales (auto simp: ExpireRequest_kind_def ExpireRequest_val_def ExpireRequest_of_def wire_simps)

interpretation er_wire: wire_type ExpireResponse_kind ExpireResponse_val ExpireResponse_of
  "\<lambda>m. True" "\<lambda>m. m"
  by unfold_locales (auto simp: ExpireResponse_kind_def ExpireResponse_val_def ExpireResponse_of_def wire_simps)

interpretation kq_wire: wire_type KeysRequest_kind KeysRequest_val KeysRequest_of
  "\<lambda>m. True" "\<lambda>m. m\<lparr>kq_Pattern := sanitize (kq_Pattern m)\<rparr>"
  by unfold_locales (auto simp: KeysRequest_kind_def KeysRequest_val_def KeysRequest_of_def wire_simps)

interpretation kr_wire: wire_type KeysResponse_kind KeysResponse_val KeysResponse_of
  "\<lambda>m. True" "\<lambda>m. m\<lparr>kr_Keys := map sanitize (kr_Keys m)\<rparr>"
  by unfold_locales (auto simp: KeysResponse_kind_def KeysResponse_val_def KeysResponse_of_def wire_simps)

interpretation pq_wire: wire_type PingRequest_kind PingRequest_val PingRequest_of
  "\<lambda>m. True" "\<lambda>m. m"
  by unfold_locales (auto simp: PingRequest_kind_def PingRequest_val_def PingRequest_of_def wire_simps)

interpretation pr_wire: wire_type PingResponse_kind PingResponse_val PingResponse_of
  "\<lambda>m. in_int64 (pr_UptimeMs m) \<and> in_int64 (pr_KeysCount m)" "\<lambda>m. m\<lparr>pr_NodeId := sanitize (pr_NodeId m)\<rparr>"
  by unfold_locales (auto simp: PingResponse_kind_def PingResponse_val_def PingResponse_of_def wire_simps)

interpretation rq_wire: wire_type ReplicateRequest_kind ReplicateRequest_val ReplicateRequest_of
  "\<lambda>m. in_int64 (rq_TtlMs m) \<and> op_ok (rq_Op m)" "\<lambda>m. m\<lparr>rq_Key := sanitize (rq_Key m),
      rq_SourceNode := sanitize (rq_SourceNode m)\<rparr>"
  by unfold_locales (auto simp: ReplicateRequest_kind_def ReplicateRequest_val_def ReplicateRequest_of_def wire_simps)

interpretation rr_wire: wire_type ReplicateResponse_kind ReplicateResponse_val ReplicateResponse_of
  "\<lambda>m. True" "\<lambda>m. m"
  by unfold_locales (auto simp: ReplicateResponse_kind_def ReplicateResponse_val_def ReplicateResponse_of_def wire_simps)

interpretation tq_wire: wire_type TransferKeysRequest_kind TransferKeysRequest_val TransferKeysRequest_of
  "\<lambda>m. True" "\<lambda>m. m\<lparr>tq_RequestingNode := sanitize (tq_RequestingNode m)\<rparr>"
  by unfold_locales (auto simp: TransferKeysRequest_kind_def TransferKeysRequest_val_def TransferKeysRequest_of_def wire_simps)

interpretation kv_wire: wire_type KeyValuePair_kind KeyValuePair_val KeyValuePair_of
  "\<lambda>m. in_int64 (kv_TtlMs m)" "\<lambda>m. m\<lparr>kv_Key := sanitize (kv_Key m)\<rparr>"
  by unfold_locales (auto simp: KeyValuePair_kind_def KeyValuePair_val_def KeyValuePair_of_def wire_simps)

end
