(* ===== verification/Wire.thy ===== *)
theory Wire
  imports Message_Codec Server Swim
begin

text \<open>
  What travels between the nodes: the service calls as the bytes that gRPC carries with the JSON
  codec, and the packets of the membership protocol, \<open>internal/cluster/membership.go\<close>.
\<close>

section \<open>Service calls on the wire\<close>

text \<open>
  A request that does not decode is answered with an error by gRPC before the handler. \<open>method_name\<close>
  is the last part of the method path.
\<close>

definition from_wire :: "kind \<Rightarrow> (gval \<Rightarrow> 'm) \<Rightarrow> string \<Rightarrow> rpc_error + 'm" where
  "from_wire k of_val data =
     (case codec_Unmarshal k of_val data of
        Inl _ \<Rightarrow> Inl (Rpc_failed ''error unmarshalling'')
      | Inr m \<Rightarrow> Inr m)"

fun method_name :: "rpc_call \<Rightarrow> string" where
  "method_name (Call_Get _) = ''Get''"
| "method_name (Call_Set _) = ''Set''"
| "method_name (Call_Delete _) = ''Delete''"
| "method_name (Call_Expire _) = ''Expire''"
| "method_name (Call_Keys _) = ''Keys''"
| "method_name (Call_Ping _) = ''Ping''"
| "method_name (Call_Replicate _) = ''Replicate''"

definition decode_call :: "string \<Rightarrow> string \<Rightarrow> rpc_call option" where
  "decode_call name data =
     (if name = ''Get'' then Some (Call_Get (from_wire GetRequest_kind GetRequest_of data))
      else if name = ''Set'' then Some (Call_Set (from_wire SetRequest_kind SetRequest_of data))
      else if name = ''Delete'' then Some (Call_Delete (from_wire DeleteRequest_kind DeleteRequest_of data))
      else if name = ''Expire'' then Some (Call_Expire (from_wire ExpireRequest_kind ExpireRequest_of data))
      else if name = ''Keys'' then Some (Call_Keys (from_wire KeysRequest_kind KeysRequest_of data))
      else if name = ''Ping'' then Some (Call_Ping (from_wire PingRequest_kind PingRequest_of data))
      else if name = ''Replicate'' then Some (Call_Replicate (from_wire ReplicateRequest_kind ReplicateRequest_of data))
      else None)"

fun encode_call :: "bool \<Rightarrow> rpc_call \<Rightarrow> string" where
  "encode_call nilp (Call_Get (Inr m)) = codec_Marshal GetRequest_kind (GetRequest_val nilp m)"
| "encode_call nilp (Call_Set (Inr m)) = codec_Marshal SetRequest_kind (SetRequest_val nilp m)"
| "encode_call nilp (Call_Delete (Inr m)) = codec_Marshal DeleteRequest_kind (DeleteRequest_val nilp m)"
| "encode_call nilp (Call_Expire (Inr m)) = codec_Marshal ExpireRequest_kind (ExpireRequest_val nilp m)"
| "encode_call nilp (Call_Keys (Inr m)) = codec_Marshal KeysRequest_kind (KeysRequest_val nilp m)"
| "encode_call nilp (Call_Ping (Inr m)) = codec_Marshal PingRequest_kind (PingRequest_val nilp m)"
| "encode_call nilp (Call_Replicate (Inr m)) = codec_Marshal ReplicateRequest_kind (ReplicateRequest_val nilp m)"
| "encode_call nilp _ = []"

fun encode_reply :: "bool \<Rightarrow> rpc_reply \<Rightarrow> string" where
  "encode_reply nilp (Reply_Get m) = codec_Marshal GetResponse_kind (GetResponse_val nilp m)"
| "encode_reply nilp (Reply_Set m) = codec_Marshal SetResponse_kind (SetResponse_val nilp m)"
| "encode_reply nilp (Reply_Delete m) = codec_Marshal DeleteResponse_kind (DeleteResponse_val nilp m)"
| "encode_reply nilp (Reply_Expire m) = codec_Marshal ExpireResponse_kind (ExpireResponse_val nilp m)"
| "encode_reply nilp (Reply_Keys m) = codec_Marshal KeysResponse_kind (KeysResponse_val nilp m)"
| "encode_reply nilp (Reply_Ping m) = codec_Marshal PingResponse_kind (PingResponse_val nilp m)"
| "encode_reply nilp (Reply_Replicate m) = codec_Marshal ReplicateResponse_kind (ReplicateResponse_val nilp m)"

definition decode_reply :: "string \<Rightarrow> string \<Rightarrow> rpc_error + rpc_reply" where
  "decode_reply name data =
     (if name = ''Get'' then map_sum id Reply_Get (from_wire GetResponse_kind GetResponse_of data)
      else if name = ''Set'' then map_sum id Reply_Set (from_wire SetResponse_kind SetResponse_of data)
      else if name = ''Delete'' then map_sum id Reply_Delete (from_wire DeleteResponse_kind DeleteResponse_of data)
      else if name = ''Expire'' then map_sum id Reply_Expire (from_wire ExpireResponse_kind ExpireResponse_of data)
      else if name = ''Keys'' then map_sum id Reply_Keys (from_wire KeysResponse_kind KeysResponse_of data)
      else if name = ''Ping'' then map_sum id Reply_Ping (from_wire PingResponse_kind PingResponse_of data)
      else map_sum id Reply_Replicate (from_wire ReplicateResponse_kind ReplicateResponse_of data))"

text \<open>A call served from its bytes, and the same call as the caller sees it.\<close>

definition wire_serve :: "call_env \<Rightarrow> bool \<Rightarrow> string \<Rightarrow> string \<Rightarrow> CacheServer \<Rightarrow> string handled" where
  "wire_serve env nilp name data cs =
     (case decode_call name data of
        None \<Rightarrow> (cs, Inl (Rpc_failed ''unknown method''))
      | Some call \<Rightarrow> (case ServiceDesc env call cs of (cs', r) \<Rightarrow> (cs', map_sum id (encode_reply nilp) r)))"

definition wire_invoke :: "call_env \<Rightarrow> bool \<Rightarrow> bool \<Rightarrow> rpc_call \<Rightarrow> CacheServer \<Rightarrow> rpc_reply handled" where
  "wire_invoke env nilq nilp call cs =
     (case wire_serve env nilp (method_name call) (encode_call nilq call) cs of
        (cs', Inl err) \<Rightarrow> (cs', Inl err)
      | (cs', Inr data) \<Rightarrow> (cs', decode_reply (method_name call) data))"

section \<open>Calls survive the wire\<close>

text \<open>
  A call that can be sent: its request is there and its integers fit their fields. What arrives
  has its strings sanitized.
\<close>

fun call_ok :: "rpc_call \<Rightarrow> bool" where
  "call_ok (Call_Get (Inr m)) \<longleftrightarrow> True"
| "call_ok (Call_Set (Inr m)) \<longleftrightarrow> in_int64 (sq_TtlMs m)"
| "call_ok (Call_Delete (Inr m)) \<longleftrightarrow> True"
| "call_ok (Call_Expire (Inr m)) \<longleftrightarrow> in_int64 (eq_TtlMs m)"
| "call_ok (Call_Keys (Inr m)) \<longleftrightarrow> True"
| "call_ok (Call_Ping (Inr m)) \<longleftrightarrow> True"
| "call_ok (Call_Replicate (Inr m)) \<longleftrightarrow> in_int64 (rq_TtlMs m) \<and> op_ok (rq_Op m)"
| "call_ok _ \<longleftrightarrow> False"

fun clean_call :: "rpc_call \<Rightarrow> rpc_call" where
  "clean_call (Call_Get (Inr m)) = Call_Get (Inr (m\<lparr>gq_Key := sanitize (gq_Key m)\<rparr>))"
| "clean_call (Call_Set (Inr m)) = Call_Set (Inr (m\<lparr>sq_Key := sanitize (sq_Key m)\<rparr>))"
| "clean_call (Call_Delete (Inr m)) = Call_Delete (Inr (m\<lparr>dq_Key := sanitize (dq_Key m)\<rparr>))"
| "clean_call (Call_Expire (Inr m)) = Call_Expire (Inr (m\<lparr>eq_Key := sanitize (eq_Key m)\<rparr>))"
| "clean_call (Call_Keys (Inr m)) = Call_Keys (Inr (m\<lparr>kq_Pattern := sanitize (kq_Pattern m)\<rparr>))"
| "clean_call (Call_Replicate (Inr m)) =
     Call_Replicate (Inr (m\<lparr>rq_Key := sanitize (rq_Key m), rq_SourceNode := sanitize (rq_SourceNode m)\<rparr>))"
| "clean_call c = c"

fun reply_ok :: "rpc_reply \<Rightarrow> bool" where
  "reply_ok (Reply_Get m) \<longleftrightarrow> in_int64 (gr_TtlMs m)"
| "reply_ok (Reply_Ping m) \<longleftrightarrow> in_int64 (pr_UptimeMs m) \<and> in_int64 (pr_KeysCount m)"
| "reply_ok _ \<longleftrightarrow> True"

fun clean_reply :: "rpc_reply \<Rightarrow> rpc_reply" where
  "clean_reply (Reply_Get m) = Reply_Get (m\<lparr>gr_Key := sanitize (gr_Key m)\<rparr>)"
| "clean_reply (Reply_Keys m) = Reply_Keys (m\<lparr>kr_Keys := map sanitize (kr_Keys m)\<rparr>)"
| "clean_reply (Reply_Ping m) = Reply_Ping (m\<lparr>pr_NodeId := sanitize (pr_NodeId m)\<rparr>)"
| "clean_reply r = r"

text \<open>The key of a call, or what takes its place, and the source of a replicated write, as UTF-8.\<close>

fun call_utf8 :: "rpc_call \<Rightarrow> bool" where
  "call_utf8 (Call_Get (Inr m)) \<longleftrightarrow> utf8_valid (gq_Key m)"
| "call_utf8 (Call_Set (Inr m)) \<longleftrightarrow> utf8_valid (sq_Key m)"
| "call_utf8 (Call_Delete (Inr m)) \<longleftrightarrow> utf8_valid (dq_Key m)"
| "call_utf8 (Call_Expire (Inr m)) \<longleftrightarrow> utf8_valid (eq_Key m)"
| "call_utf8 (Call_Keys (Inr m)) \<longleftrightarrow> utf8_valid (kq_Pattern m)"
| "call_utf8 (Call_Replicate (Inr m)) \<longleftrightarrow> utf8_valid (rq_Key m) \<and> utf8_valid (rq_SourceNode m)"
| "call_utf8 _ \<longleftrightarrow> True"

lemma from_wire_round_trip:
  assumes "codec_Unmarshal k of_val data = Inr m"
  shows "from_wire k of_val data = Inr m"
  using assms by (simp add: from_wire_def)

lemmas wire_round_trips =
  gq_wire.wire_round_trip gr_wire.wire_round_trip sq_wire.wire_round_trip sr_wire.wire_round_trip
  dq_wire.wire_round_trip dr_wire.wire_round_trip eq_wire.wire_round_trip er_wire.wire_round_trip
  kq_wire.wire_round_trip kr_wire.wire_round_trip pq_wire.wire_round_trip pr_wire.wire_round_trip
  rq_wire.wire_round_trip rr_wire.wire_round_trip

lemma decode_encode_call: "call_ok c \<Longrightarrow> decode_call (method_name c) (encode_call nilp c) = Some (clean_call c)"
  by (cases c rule: call_ok.cases) (simp_all add: decode_call_def from_wire_def wire_round_trips)

lemma clean_call_id: "call_utf8 c \<Longrightarrow> clean_call c = c"
  by (cases c rule: clean_call.cases) (simp_all add: sanitize_valid)

text \<open>The reply of a method is of that method.\<close>

fun reply_name :: "rpc_reply \<Rightarrow> string" where
  "reply_name (Reply_Get _) = ''Get''"
| "reply_name (Reply_Set _) = ''Set''"
| "reply_name (Reply_Delete _) = ''Delete''"
| "reply_name (Reply_Expire _) = ''Expire''"
| "reply_name (Reply_Keys _) = ''Keys''"
| "reply_name (Reply_Ping _) = ''Ping''"
| "reply_name (Reply_Replicate _) = ''Replicate''"

lemma decode_encode_reply: "reply_ok r \<Longrightarrow> decode_reply (reply_name r) (encode_reply nilp r) = Inr (clean_reply r)"
  by (cases r) (simp_all add: decode_reply_def from_wire_def wire_round_trips)

lemma tag_Inr: "snd (tag f h) = Inr r \<Longrightarrow> \<exists>x. r = f x"
  by (cases h; cases "snd h") (auto simp: tag_def)

lemma ServiceDesc_reply_name: "snd (ServiceDesc env call cs) = Inr r \<Longrightarrow> reply_name r = method_name call"
  by (cases call) (auto simp: ServiceDesc_def Let_def dest!: tag_Inr)

lemma method_name_clean: "method_name (clean_call c) = method_name c"
  by (cases c rule: clean_call.cases) simp_all

text \<open>
  C4. Calls survive the wire. A call encoded as JSON by the caller, decoded and served by the
  node, its reply encoded and decoded again, has on the node exactly the effect of the call with
  its strings sanitized, and gives the caller that reply, sanitized; errors arrive as they are.
  For keys that are UTF-8 nothing is changed on the way in.
\<close>
theorem wire_transparent:
  assumes "call_ok call" "\<And>r. snd (ServiceDesc env (clean_call call) cs) = Inr r \<Longrightarrow> reply_ok r"
  shows "wire_invoke env nilq nilp call cs =
      apsnd (map_sum id clean_reply) (ServiceDesc env (clean_call call) cs) \<and>
    (call_utf8 call \<longrightarrow> clean_call call = call)"
proof -
  obtain cs' r where sd: "ServiceDesc env (clean_call call) cs = (cs', r)" by fastforce
  then have "wire_serve env nilp (method_name call) (encode_call nilq call) cs = (cs', map_sum id (encode_reply nilp) r)"
    by (simp add: wire_serve_def decode_encode_call [OF assms(1)])
  moreover have "decode_reply (method_name call) (encode_reply nilp x) = Inr (clean_reply x)" if "r = Inr x" for x
    using that assms(2) sd decode_encode_reply [of x] ServiceDesc_reply_name [of env "clean_call call" cs x]
    by (simp add: method_name_clean)
  ultimately show ?thesis using clean_call_id sd by (cases r) (simp_all add: wire_invoke_def)
qed

lemma utf8_ascii_Cons: "code c < 128 \<Longrightarrow> utf8_valid (c # s) \<longleftrightarrow> utf8_valid s"
  by (subst utf8_valid.simps) (simp add: rune_size_def)

text \<open>
  Outside UTF-8 keys are not kept apart: two keys of one byte each arrive as the same key, the
  replacement character.
\<close>

lemma keys_collide:
  "clean_call (Call_Get (Inr \<lparr>gq_Key = [CHR 0xFF]\<rparr>)) = clean_call (Call_Get (Inr \<lparr>gq_Key = [CHR 0xFE]\<rparr>))"
proof -
  have "sanitize [c] = replacement" if "c = CHR 0xFF \<or> c = CHR 0xFE" for c
    using that by (subst sanitize.simps) (auto simp: rune_size_def)
  then show ?thesis by simp
qed

theorem wire_transparent_witness:
  "call_ok (Call_Set (Inr \<lparr>sq_Key = ''k'', sq_Value = [1, 255], sq_TtlMs = 5\<rparr>)) \<and>
   (\<exists>r. wire_invoke demo_env True True (Call_Set (Inr \<lparr>sq_Key = ''k'', sq_Value = [1, 255], sq_TtlMs = 5\<rparr>))
      (demo_node ''n1'' ''n2'') =
      apsnd (map_sum id clean_reply)
        (ServiceDesc demo_env (Call_Set (Inr \<lparr>sq_Key = ''k'', sq_Value = [1, 255], sq_TtlMs = 5\<rparr>)) (demo_node ''n1'' ''n2'')))"
proof -
  let ?call = "Call_Set (Inr \<lparr>sq_Key = ''k'', sq_Value = [1, 255], sq_TtlMs = 5\<rparr>)"
  have ok: "call_ok ?call" "call_utf8 ?call" by (simp_all add: in_int64_def utf8_ascii_Cons)
  have "reply_ok r" if "snd (ServiceDesc env ?call cs) = Inr r" for env cs r
    using ServiceDesc_reply_name [OF that] by (cases r) simp_all
  then show ?thesis
    using wire_transparent [OF ok(1), of demo_env "demo_node ''n1'' ''n2''" True True] ok clean_call_id [OF ok(2)] by simp
qed

section \<open>Packets of the membership protocol\<close>

fun type_int :: "MessageType \<Rightarrow> int" where
  "type_int MsgPing = 1" | "type_int MsgAck = 2" | "type_int MsgPingReq = 3" | "type_int MsgJoin = 4"
| "type_int (MsgOther n) = int n"

definition type_of :: "int \<Rightarrow> MessageType" where
  "type_of i = (if i = 1 then MsgPing else if i = 2 then MsgAck else if i = 3 then MsgPingReq else if i = 4 then MsgJoin
     else MsgOther (nat i))"

fun type_ok :: "MessageType \<Rightarrow> bool" where
  "type_ok (MsgOther n) \<longleftrightarrow> n < 256 \<and> n \<noteq> 1 \<and> n \<noteq> 2 \<and> n \<noteq> 3 \<and> n \<noteq> 4" | "type_ok _ \<longleftrightarrow> True"

fun status_int :: "NodeStatus \<Rightarrow> int" where
  "status_int StatusAlive = 0" | "status_int StatusSuspect = 1" | "status_int StatusDead = 2" | "status_int StatusLeft = 3"
| "status_int (StatusOther i) = i"

definition status_of :: "int \<Rightarrow> NodeStatus" where
  "status_of i = (if i = 0 then StatusAlive else if i = 1 then StatusSuspect else if i = 2 then StatusDead
     else if i = 3 then StatusLeft else StatusOther i)"

fun status_ok :: "NodeStatus \<Rightarrow> bool" where
  "status_ok (StatusOther i) \<longleftrightarrow> i \<noteq> 0 \<and> i \<noteq> 1 \<and> i \<noteq> 2 \<and> i \<noteq> 3 \<and> in_int64 i" | "status_ok _ \<longleftrightarrow> True"

definition MembershipUpdate_kind :: kind where
  "MembershipUpdate_kind =
     KStruct [(''node_id'', False, KString), (''grpc_addr'', False, KString), (''gossip_addr'', False, KString),
       (''http_addr'', False, KString), (''status'', False, KInt 64), (''incarnation'', False, KUint 64)]"

definition MembershipUpdate_val :: "MembershipUpdate \<Rightarrow> gval" where
  "MembershipUpdate_val u =
     VStruct [VString (u_NodeID u), VString (u_GRPCAddr u), VString (u_GossipAddr u), VString (u_HTTPAddr u),
       VInt (status_int (u_Status u)), VInt (uint (u_Incarnation u))]"

definition MembershipUpdate_of :: "gval \<Rightarrow> MembershipUpdate" where
  "MembershipUpdate_of v =
     \<lparr>u_NodeID = get_string (field 0 v), u_GRPCAddr = get_string (field 1 v), u_GossipAddr = get_string (field 2 v),
      u_HTTPAddr = get_string (field 3 v), u_Status = status_of (get_int (field 4 v)),
      u_Incarnation = word_of_int (get_int (field 5 v))\<rparr>"

text \<open>\<open>omitempty\<close> omits the updates when there are none, nil or not.\<close>

definition SwimMessage_kind :: kind where
  "SwimMessage_kind =
     KStruct [(''type'', False, KUint 8), (''sender_id'', False, KString), (''sender_addr'', False, KString),
       (''target_id'', False, KString), (''incarnation'', False, KUint 64),
       (''updates'', True, KSlice MembershipUpdate_kind)]"

definition SwimMessage_val :: "bool \<Rightarrow> SwimMessage \<Rightarrow> gval" where
  "SwimMessage_val nilp m =
     VStruct [VInt (type_int (s_Type m)), VString (s_SenderID m), VString (s_SenderAddr m), VString (s_TargetID m),
       VInt (uint (s_Incarnation m)),
       VSlice (if s_Updates m = [] then None else Some (map MembershipUpdate_val (s_Updates m)))]"

definition SwimMessage_of :: "gval \<Rightarrow> SwimMessage" where
  "SwimMessage_of v =
     \<lparr>s_Type = type_of (get_int (field 0 v)), s_SenderID = get_string (field 1 v), s_SenderAddr = get_string (field 2 v),
      s_TargetID = get_string (field 3 v), s_Incarnation = word_of_int (get_int (field 4 v)),
      s_Updates = (case field 5 v of VSlice (Some vs) \<Rightarrow> map MembershipUpdate_of vs | _ \<Rightarrow> [])\<rparr>"

text \<open>\<open>receiveLoop\<close> on the bytes of one packet: what does not decode is logged and dropped.\<close>

definition receive_packet :: "reg_order \<Rightarrow> (string \<Rightarrow> string option) \<Rightarrow> Membership \<Rightarrow> string \<Rightarrow> string \<Rightarrow>
    (nat \<Rightarrow> instant) \<Rightarrow> Membership \<times> recv_pc" where
  "receive_packet rng resolve m data from' clk =
     (case codec_Unmarshal SwimMessage_kind SwimMessage_of data of
        Inl _ \<Rightarrow> (m, RecvIdle)
      | Inr msg \<Rightarrow> receive rng resolve m msg from' clk)"

definition clean_update :: "MembershipUpdate \<Rightarrow> MembershipUpdate" where
  "clean_update u = u\<lparr>u_NodeID := sanitize (u_NodeID u), u_GRPCAddr := sanitize (u_GRPCAddr u),
     u_GossipAddr := sanitize (u_GossipAddr u), u_HTTPAddr := sanitize (u_HTTPAddr u)\<rparr>"

definition clean_swim :: "SwimMessage \<Rightarrow> SwimMessage" where
  "clean_swim m = m\<lparr>s_SenderID := sanitize (s_SenderID m), s_SenderAddr := sanitize (s_SenderAddr m),
     s_TargetID := sanitize (s_TargetID m), s_Updates := map clean_update (s_Updates m)\<rparr>"

definition swim_ok :: "SwimMessage \<Rightarrow> bool" where
  "swim_ok m \<longleftrightarrow> type_ok (s_Type m) \<and> list_all (\<lambda>u. status_ok (u_Status u)) (s_Updates m)"

definition swim_utf8 :: "SwimMessage \<Rightarrow> bool" where
  "swim_utf8 m \<longleftrightarrow> utf8_valid (s_SenderID m) \<and> utf8_valid (s_SenderAddr m) \<and> utf8_valid (s_TargetID m) \<and>
     list_all (\<lambda>u. utf8_valid (u_NodeID u) \<and> utf8_valid (u_GRPCAddr u) \<and> utf8_valid (u_GossipAddr u) \<and>
       utf8_valid (u_HTTPAddr u)) (s_Updates m)"

lemma type_int_range:
  assumes "type_ok t"
  shows "0 \<le> type_int t" "type_int t < 256" "type_of (type_int t) = t"
  using assms by (cases t; simp add: type_of_def)+

lemma status_int_range:
  assumes "status_ok t"
  shows "- 9223372036854775808 \<le> status_int t" "status_int t < 9223372036854775808" "status_of (status_int t) = t"
  using assms by (cases t; simp add: status_of_def in_int64_def)+

lemma update_wire:
  assumes "status_ok (u_Status u)"
  shows "has_kind MembershipUpdate_kind (MembershipUpdate_val u)"
    "MembershipUpdate_of (sane_val (MembershipUpdate_val u)) = clean_update u"
  using assms by (simp_all add: MembershipUpdate_kind_def MembershipUpdate_val_def MembershipUpdate_of_def
      clean_update_def status_int_range wire_simps)

lemma updates_wire:
  assumes "list_all (\<lambda>u. status_ok (u_Status u)) us"
  shows "have_kind MembershipUpdate_kind (map MembershipUpdate_val us)"
    "map MembershipUpdate_of (sane_vals (map MembershipUpdate_val us)) = map clean_update us"
  using assms by (induction us) (simp_all add: update_wire)

interpretation swim_wire: wire_type SwimMessage_kind SwimMessage_val SwimMessage_of swim_ok clean_swim
proof
  show "wf_kind SwimMessage_kind" "kind_depth SwimMessage_kind \<le> maxNestingDepth"
    by (simp_all add: SwimMessage_kind_def MembershipUpdate_kind_def wire_simps)
  fix m nilp
  assume "swim_ok m"
  then show "has_kind SwimMessage_kind (SwimMessage_val nilp m)" "SwimMessage_of (sane_val (SwimMessage_val nilp m)) = clean_swim m"
    by (simp_all add: swim_ok_def SwimMessage_kind_def SwimMessage_val_def SwimMessage_of_def clean_swim_def
        type_int_range updates_wire wire_simps)
qed

lemma clean_swim_id: "swim_utf8 m \<Longrightarrow> clean_swim m = m"
proof -
  assume utf8: "swim_utf8 m"
  then have "map clean_update (s_Updates m) = s_Updates m"
    by (intro map_idI) (auto simp: swim_utf8_def list_all_iff clean_update_def sanitize_valid)
  with utf8 show ?thesis by (simp add: swim_utf8_def clean_swim_def sanitize_valid)
qed

text \<open>
  C39. Packets survive the wire. A packet that a node writes for a message is handled by its receiver
  exactly as the message, when its ids and addresses are UTF-8; and bytes that are no message of
  the protocol leave the receiver as it is.
\<close>
theorem packets_survive:
  "(swim_ok msg \<and> swim_utf8 msg \<longrightarrow>
      receive_packet rng resolve m (codec_Marshal SwimMessage_kind (SwimMessage_val nilp msg)) from' clk =
        receive rng resolve m msg from' clk) \<and>
   (read_json data = None \<longrightarrow> receive_packet rng resolve m data from' clk = (m, RecvIdle))"
proof (intro conjI impI)
  assume "swim_ok msg \<and> swim_utf8 msg"
  then show "receive_packet rng resolve m (codec_Marshal SwimMessage_kind (SwimMessage_val nilp msg)) from' clk =
      receive rng resolve m msg from' clk"
    using swim_wire.wire_round_trip [of msg nilp] by (simp add: receive_packet_def clean_swim_id)
qed (simp add: receive_packet_def codec_Unmarshal_def Unmarshal_def)

definition demo_ping :: SwimMessage where
  "demo_ping = \<lparr>s_Type = MsgPing, s_SenderID = ''n2'', s_SenderAddr = ''b:1'', s_TargetID = ''n1'', s_Incarnation = 3, s_Updates = []\<rparr>"

definition demo_member :: Membership where
  "demo_member = NewMembership (NewNodeInfo ''n1'' ''a:1'' ''a:2'' ''a:3'' 0) (NewNodeRegistry ''n1'')"

theorem packets_survive_witness:
  "receive_packet (\<lambda>xs. xs) Some demo_member (codec_Marshal SwimMessage_kind (SwimMessage_val True demo_ping)) ''b:1'' (\<lambda>_. 0) =
     receive (\<lambda>xs. xs) Some demo_member demo_ping ''b:1'' (\<lambda>_. 0) \<and>
   receive_packet (\<lambda>xs. xs) Some demo_member ''x'' ''b:1'' (\<lambda>_. 0) = (demo_member, RecvIdle)"
proof -
  have "swim_ok demo_ping \<and> swim_utf8 demo_ping"
    by (simp add: swim_ok_def swim_utf8_def demo_ping_def utf8_ascii_Cons)
  moreover have "read_json ''x'' = None"
    by (simp add: read_json_def json_lex.simps is_space_def fixed_token_def scan_num_def scan_int_def is_digit_def)
  ultimately show ?thesis
    using packets_survive [of demo_ping "\<lambda>xs. xs" Some demo_member True "''b:1''" "\<lambda>_. 0" "''x''"] by blast
qed

end
