(* ===== verification/Loadtest.thy ===== *)
theory Loadtest
  imports Client
begin

text \<open>
  The load generator, \<open>cmd/loadtest/main.go\<close>: eight goroutines share one client, a countdown of
  the operations to run, five atomic counters and a map of error messages. A worker is where it
  stands in its loop; \<open>worker_step\<close> is its next access to something shared, and the step relation
  lets any worker that has not finished move, so that every interleaving is a run.

  What a step draws from outside is its \<open>draw\<close>: the random key and number, the replies of the
  cluster and the clock. \<open>err_text\<close> is the text of an error.
\<close>

section \<open>The workers\<close>

definition numWorkers :: nat where
  "numWorkers = 8"

definition totalOps :: int where
  "totalOps = 5000000"

definition writeRatio :: rat where
  "writeRatio = 1 / 5"

definition keyRange :: nat where
  "keyRange = 1000"

definition valSizeBytes :: nat where
  "valSizeBytes = 512"

definition payload :: bytes where
  "payload = replicate valSizeBytes 65"

text \<open>
  \<open>At_Remote\<close> is a \<open>Get\<close> that missed the local cache; \<open>At_Failed\<close> and \<open>At_Tally\<close> are before and
  between the two updates of the error path, \<open>At_Read\<close> and \<open>At_Found\<close> those of a read.
\<close>

datatype worker =
    At_Loop | At_Key | At_Set string | At_Get string | At_Remote string | At_Failed client_error
  | At_Tally client_error | At_Write | At_Read bool | At_Found bool | At_Done

record LoadTest =
  lt_client :: Client
  opsRemaining :: int
  writeOps :: u64
  readOps :: u64
  readHits :: u64
  readMisses :: u64
  errorsCount :: u64
  errMap :: "(string, int) gomap"
  lt_workers :: "worker list"

record draw =
  dr_key :: nat
  dr_float :: rat
  dr_set :: "string \<Rightarrow> SetRequest \<Rightarrow> rpc_error + SetResponse"
  dr_get :: "string \<Rightarrow> GetRequest \<Rightarrow> rpc_error + GetResponse"
  dr_now :: instant

text \<open>\<open>main\<close> up to the start of the workers; a client that does not connect is a panic.\<close>

definition loadtest_nodes :: "(string, string) gomap" where
  "loadtest_nodes = [(''node-1'', ''127.0.0.1:7001''), (''node-2'', ''127.0.0.1:7002''), (''node-3'', ''127.0.0.1:7003'')]"

definition loadtest_options :: "client_option list" where
  "loadtest_options =
     [WithDialTimeout (5000 * Millisecond), WithRequestTimeout (2000 * Millisecond), WithL1Cache 500 (10000 * Millisecond)]"

definition loadtest_init :: "Client \<Rightarrow> LoadTest" where
  "loadtest_init c =
     \<lparr>lt_client = c, opsRemaining = totalOps, writeOps = 0, readOps = 0, readHits = 0, readMisses = 0,
      errorsCount = 0, errMap = [], lt_workers = replicate numWorkers At_Loop\<rparr>"

definition loadtest_start :: "(VNode list \<Rightarrow> VNode list) \<Rightarrow> (string \<Rightarrow> bool) \<Rightarrow>
    ((string, string) gomap \<Rightarrow> (string, string) gomap) \<Rightarrow> LoadTest option" where
  "loadtest_start sortf dial rng =
     (case NewClient sortf dial rng loadtest_nodes loadtest_options of
        Inl err \<Rightarrow> None
      | Inr c \<Rightarrow> Some (loadtest_init c))"

text \<open>
  \<open>client_Get\<close> is taken in two steps, the lookup in the local cache and the rest, because other
  workers may run in between. The client's other accesses to shared state are one critical section
  per operation.
\<close>

definition local_lookup :: "instant \<Rightarrow> string \<Rightarrow> Client \<Rightarrow> Client \<times> bool" where
  "local_lookup now key c =
     (case cl_l1 c of
        None \<Rightarrow> (c, False)
      | Some l1 \<Rightarrow> (case l1_Get l1 key now of (l1', _, ok) \<Rightarrow> (c\<lparr>cl_l1 := Some l1'\<rparr>, ok)))"

lemma client_Get_in_two:
  "client_Get fl invoke now1 now2 key c =
     (case local_lookup now1 key c of
        (c', ok) \<Rightarrow> if ok then (c', snd (client_Get fl invoke now1 now2 key c)) else get_remote fl invoke now2 key c')"
  by (simp add: client_Get_def local_lookup_def Let_def split: option.split prod.split)

definition bump :: "string \<Rightarrow> (string, int) gomap \<Rightarrow> (string, int) gomap" where
  "bump k m = gm_put k (int64 ((case gm_get m k of None \<Rightarrow> 0 | Some n \<Rightarrow> n) + 1)) m"

fun worker_step :: "(client_error \<Rightarrow> string) \<Rightarrow> (rat \<Rightarrow> rat) \<Rightarrow> draw \<Rightarrow> worker \<Rightarrow> LoadTest \<Rightarrow> worker \<times> LoadTest" where
  "worker_step err_text fl d At_Loop s =
     (let ops = int64 (opsRemaining s - 1) in
      (if ops < 0 then At_Done else At_Key, s\<lparr>opsRemaining := ops\<rparr>))"
| "worker_step err_text fl d At_Key s =
     (let key = ''loadkey:'' @ fmt_d (dr_key d) in
      (if dr_float d < fl writeRatio then At_Set key else At_Get key, s))"
| "worker_step err_text fl d (At_Set key) s =
     (case client_Set fl (dr_set d) key payload (30000 * Millisecond) (lt_client s) of
        (c', Some err) \<Rightarrow> (At_Failed err, s\<lparr>lt_client := c'\<rparr>)
      | (c', None) \<Rightarrow> (At_Write, s\<lparr>lt_client := c'\<rparr>))"
| "worker_step err_text fl d (At_Get key) s =
     (case local_lookup (dr_now d) key (lt_client s) of
        (c', ok) \<Rightarrow> (if ok then At_Read True else At_Remote key, s\<lparr>lt_client := c'\<rparr>))"
| "worker_step err_text fl d (At_Remote key) s =
     (case get_remote fl (dr_get d) (dr_now d) key (lt_client s) of
        (c', Inl err) \<Rightarrow> (At_Failed err, s\<lparr>lt_client := c'\<rparr>)
      | (c', Inr (val, found)) \<Rightarrow> (At_Read found, s\<lparr>lt_client := c'\<rparr>))"
| "worker_step err_text fl d (At_Failed err) s = (At_Tally err, s\<lparr>errorsCount := errorsCount s + 1\<rparr>)"
| "worker_step err_text fl d (At_Tally err) s = (At_Loop, s\<lparr>errMap := bump (err_text err) (errMap s)\<rparr>)"
| "worker_step err_text fl d At_Write s = (At_Loop, s\<lparr>writeOps := writeOps s + 1\<rparr>)"
| "worker_step err_text fl d (At_Read found) s = (At_Found found, s\<lparr>readOps := readOps s + 1\<rparr>)"
| "worker_step err_text fl d (At_Found found) s =
     (At_Loop, if found then s\<lparr>readHits := readHits s + 1\<rparr> else s\<lparr>readMisses := readMisses s + 1\<rparr>)"
| "worker_step err_text fl d At_Done s = (At_Done, s)"

definition run_worker :: "(client_error \<Rightarrow> string) \<Rightarrow> (rat \<Rightarrow> rat) \<Rightarrow> draw \<Rightarrow> nat \<Rightarrow> LoadTest \<Rightarrow> LoadTest" where
  "run_worker err_text fl d i s =
     (case worker_step err_text fl d (lt_workers s ! i) s of
        (w', s') \<Rightarrow> s'\<lparr>lt_workers := (lt_workers s)[i := w']\<rparr>)"

inductive loadtest_run :: "(client_error \<Rightarrow> string) \<Rightarrow> (rat \<Rightarrow> rat) \<Rightarrow> nat \<Rightarrow> LoadTest \<Rightarrow> LoadTest \<Rightarrow> bool"
  for err_text fl where
  run_start: "loadtest_run err_text fl 0 s s"
| run_move: "loadtest_run err_text fl n s s' \<Longrightarrow> i < length (lt_workers s') \<Longrightarrow> lt_workers s' ! i \<noteq> At_Done \<Longrightarrow>
    dr_key d < keyRange \<Longrightarrow> loadtest_run err_text fl (Suc n) s (run_worker err_text fl d i s')"

text \<open>\<open>wg.Wait\<close> lets the report be written when every worker has returned.\<close>

definition all_done :: "LoadTest \<Rightarrow> bool" where
  "all_done s \<longleftrightarrow> list_all (\<lambda>w. w = At_Done) (lt_workers s)"

record Report =
  rp_total :: u64
  rp_duration :: duration
  rp_qps :: rat
  rp_writes :: u64
  rp_reads :: u64
  rp_hits :: u64
  rp_hitRate :: rat
  rp_misses :: u64
  rp_errors :: u64
  rp_breakdown :: "(int \<times> string) list"

text \<open>\<open>Duration.Seconds\<close>: whole seconds and the rest, each converted to a float.\<close>

definition Seconds :: "(rat \<Rightarrow> rat) \<Rightarrow> duration \<Rightarrow> rat" where
  "Seconds fl d =
     (let sec = go_quot d (1000 * Millisecond); nsec = d - sec * (1000 * Millisecond) in
      fl (fl (of_int sec) + fl (fl (of_int nsec) / fl (of_int (1000 * Millisecond)))))"

text \<open>A run takes time, so the throughput does not divide by zero.\<close>

definition report :: "(rat \<Rightarrow> rat) \<Rightarrow> ((string, int) gomap \<Rightarrow> (string, int) gomap) \<Rightarrow> duration \<Rightarrow> LoadTest \<Rightarrow> Report" where
  "report fl rng d s =
     (let total = writeOps s + readOps s + errorsCount s in
      \<lparr>rp_total = total, rp_duration = d, rp_qps = fl (fl (of_int (uint total)) / Seconds fl d),
       rp_writes = writeOps s, rp_reads = readOps s, rp_hits = readHits s,
       rp_hitRate = (if 0 < readOps s
                     then fl (fl (fl (of_int (uint (readHits s))) / fl (of_int (uint (readOps s)))) * 100) else 0),
       rp_misses = readMisses s, rp_errors = errorsCount s,
       rp_breakdown = map (\<lambda>(errMsg, n). (n, errMsg)) (rng (errMap s))\<rparr>)"

section \<open>Every operation is counted once\<close>

text \<open>Operations begun and not yet counted, reads counted and not yet split, errors not yet tallied.\<close>

fun w_open :: "worker \<Rightarrow> nat" where
  "w_open At_Loop = 0" | "w_open (At_Tally _) = 0" | "w_open (At_Found _) = 0" | "w_open At_Done = 0" | "w_open _ = 1"

fun w_found :: "worker \<Rightarrow> nat" where
  "w_found (At_Found _) = 1" | "w_found _ = 0"

fun w_tally :: "worker \<Rightarrow> nat" where
  "w_tally (At_Tally _) = 1" | "w_tally _ = 0"

fun w_done :: "worker \<Rightarrow> nat" where
  "w_done At_Done = 1" | "w_done _ = 0"

definition tot :: "(worker \<Rightarrow> nat) \<Rightarrow> LoadTest \<Rightarrow> nat" where
  "tot f s = sum_list (map f (lt_workers s))"

definition tallied :: "(string, int) gomap \<Rightarrow> nat" where
  "tallied m = sum_list (map (\<lambda>p. nat (snd p)) m)"

definition lt_inv :: "LoadTest \<Rightarrow> bool" where
  "lt_inv s \<longleftrightarrow> length (lt_workers s) = numWorkers \<and> opsRemaining s \<le> totalOps \<and>
     min 0 (opsRemaining s) = - int (tot w_done s) \<and>
     unat (writeOps s) + unat (readOps s) + unat (errorsCount s) + tot w_open s + nat (opsRemaining s) = nat totalOps \<and>
     unat (readHits s) + unat (readMisses s) + tot w_found s = unat (readOps s) \<and>
     gm_inv (errMap s) \<and> list_all (\<lambda>p. 0 \<le> snd p) (errMap s) \<and>
     tallied (errMap s) + tot w_tally s = unat (errorsCount s)"

lemma tot_move:
  "i < length (lt_workers s) \<Longrightarrow> lt_workers s' = (lt_workers s)[i := w'] \<Longrightarrow>
    tot f s' + f (lt_workers s ! i) = tot f s + f w'"
  using elem_le_sum_list [of i "map f (lt_workers s)"] by (simp add: tot_def map_update sum_list_update)

lemma run_worker_moves:
  assumes "i < length (lt_workers s)" "lt_workers s ! i = w"
  obtains w' s1 where "worker_step err_text fl d w s = (w', s1)"
    "run_worker err_text fl d i s = s1\<lparr>lt_workers := (lt_workers s)[i := w']\<rparr>"
    "\<forall>f. tot f (s1\<lparr>lt_workers := (lt_workers s)[i := w']\<rparr>) + f w = tot f s + f w'"
  using tot_move [OF assms(1)] assms(2) by (cases "worker_step err_text fl d w s") (simp add: run_worker_def)

lemma tot_bound: "(\<And>w. f w \<le> 1) \<Longrightarrow> tot f s \<le> length (lt_workers s)"
  unfolding tot_def using sum_list_mono [of "lt_workers s" f "\<lambda>_. 1"] by (simp add: sum_list_triv)

lemma tallied_put:
  "gm_inv m \<Longrightarrow> tallied (gm_put k v m) + (case gm_get m k of None \<Rightarrow> 0 | Some n \<Rightarrow> nat n) = tallied m + nat v"
proof (induction m)
  case (Cons p m)
  then show ?case by (cases p) (auto simp: tallied_def gm_inv_def map_of_eq_None_iff split: option.splits)
qed (simp add: tallied_def)

lemma tallied_ge: "gm_get m k = Some n \<Longrightarrow> nat n \<le> tallied m"
proof (induction m)
  case (Cons p m)
  then show ?case by (cases p) (auto simp: tallied_def split: if_splits)
qed simp

lemma unat_succ: "unat x < 2 ^ 63 \<Longrightarrow> unat (x + 1) = unat x + 1" for x :: u64
  using unat_add_lem [of x 1] by simp

lemma bump_effect:
  assumes "gm_inv m" "list_all (\<lambda>p. 0 \<le> snd p) m" "tallied m < 2 ^ 62"
  shows "gm_inv (bump k m) \<and> list_all (\<lambda>p. 0 \<le> snd p) (bump k m) \<and> tallied (bump k m) = Suc (tallied m)"
proof -
  obtain n where n: "n = (case gm_get m k of None \<Rightarrow> 0 | Some n \<Rightarrow> n)" by simp
  have "0 \<le> n" "nat n \<le> tallied m"
    using assms(2) tallied_ge [of m k] by (auto simp: n list_all_iff dest!: map_of_SomeD split: option.split)
  then have bump: "bump k m = gm_put k (n + 1) m"
    using assms(3) by (simp add: bump_def flip: n) (simp add: int64_id in_int64_def)
  have "tallied (bump k m) = Suc (tallied m)"
    using tallied_put [OF assms(1), of k "n + 1"] \<open>0 \<le> n\<close> by (simp add: bump n split: option.splits)
  moreover have gm: "gm_inv (bump k m)" using assms(1) by (simp add: bump gm_inv_def distinct_update)
  moreover have "0 \<le> v" if "(j, v) \<in> set (bump k m)" for j v
  proof -
    have "gm_get (bump k m) j = Some v" using gm that by (simp add: gm_inv_def)
    then have "v = n + 1 \<or> gm_get m j = Some v" by (auto simp: bump update_conv' split: if_splits)
    then show ?thesis using \<open>0 \<le> n\<close> assms(2) by (auto simp: list_all_iff dest!: map_of_SomeD)
  qed
  ultimately show ?thesis by (auto simp: list_all_iff)
qed

lemma lt_inv_bounds:
  assumes "lt_inv s"
  shows "unat (writeOps s) < 2 ^ 63" "unat (readOps s) < 2 ^ 63" "unat (errorsCount s) < 2 ^ 63"
    "unat (readHits s) < 2 ^ 63" "unat (readMisses s) < 2 ^ 63" "tallied (errMap s) < 2 ^ 62"
    "int64 (opsRemaining s - 1) = opsRemaining s - 1"
proof -
  have le: "unat (writeOps s) + unat (readOps s) + unat (errorsCount s) \<le> 5000000"
    using assms by (auto simp: lt_inv_def totalOps_def)
  then show "unat (writeOps s) < 2 ^ 63" "unat (readOps s) < 2 ^ 63" "unat (errorsCount s) < 2 ^ 63" by simp_all
  show "unat (readHits s) < 2 ^ 63" "unat (readMisses s) < 2 ^ 63" "tallied (errMap s) < 2 ^ 62"
    using assms le by (simp_all add: lt_inv_def)
  have "w_done w \<le> 1" for w by (cases w) simp_all
  then have "tot w_done s \<le> 8"
    using tot_bound [of w_done s] assms by (simp add: lt_inv_def numWorkers_def)
  then show "int64 (opsRemaining s - 1) = opsRemaining s - 1"
    using assms by (intro int64_id) (auto simp: lt_inv_def in_int64_def totalOps_def)
qed

lemma lt_inv_init: "lt_inv (loadtest_init c)"
  by (simp add: lt_inv_def loadtest_init_def tot_def totalOps_def numWorkers_def tallied_def gm_inv_def sum_list_replicate)

lemma lt_inv_step:
  assumes inv: "lt_inv s" and i: "i < length (lt_workers s)" "lt_workers s ! i \<noteq> At_Done"
  shows "lt_inv (run_worker err_text fl d i s)"
proof -
  obtain w where w: "lt_workers s ! i = w" by simp
  obtain w' s1 where step: "worker_step err_text fl d w s = (w', s1)"
    and s': "run_worker err_text fl d i s = s1\<lparr>lt_workers := (lt_workers s)[i := w']\<rparr>"
    and move: "\<forall>f. tot f (s1\<lparr>lt_workers := (lt_workers s)[i := w']\<rparr>) + f w = tot f s + f w'"
    by (rule run_worker_moves [OF i(1) w, of err_text fl d])
  note b = lt_inv_bounds [OF inv]
  note succ = b(1-5) [THEN unat_succ]
  note bump = bump_effect [of "errMap s", OF _ _ b(6)]
  show ?thesis
    using inv step i(2) spec [OF move, of w_open] spec [OF move, of w_found] spec [OF move, of w_tally] spec [OF move, of w_done] bump
    unfolding s'
    by (cases w) (auto simp: lt_inv_def w b(7) succ tot_def Let_def split: prod.splits sum.splits option.splits if_splits)
qed

section \<open>The run ends\<close>

fun w_weight :: "worker \<Rightarrow> nat" where
  "w_weight At_Done = 0" | "w_weight At_Loop = 1" | "w_weight (At_Tally _) = 2" | "w_weight (At_Found _) = 2"
| "w_weight At_Write = 2" | "w_weight (At_Failed _) = 3" | "w_weight (At_Read _) = 3" | "w_weight (At_Set _) = 4"
| "w_weight (At_Remote _) = 4" | "w_weight (At_Get _) = 5" | "w_weight At_Key = 6"

definition steps_left :: "LoadTest \<Rightarrow> nat" where
  "steps_left s = 6 * nat (opsRemaining s) + tot w_weight s"

lemma steps_left_step:
  assumes inv: "lt_inv s" and i: "i < length (lt_workers s)" "lt_workers s ! i \<noteq> At_Done"
  shows "steps_left (run_worker err_text fl d i s) < steps_left s"
proof -
  obtain w where w: "lt_workers s ! i = w" by simp
  obtain w' s1 where step: "worker_step err_text fl d w s = (w', s1)"
    and s': "run_worker err_text fl d i s = s1\<lparr>lt_workers := (lt_workers s)[i := w']\<rparr>"
    and move: "\<forall>f. tot f (s1\<lparr>lt_workers := (lt_workers s)[i := w']\<rparr>) + f w = tot f s + f w'"
    by (rule run_worker_moves [OF i(1) w, of err_text fl d])
  show ?thesis
    using step i(2) [unfolded w] spec [OF move, of w_weight] unfolding s'
    by (cases w) (auto simp: steps_left_def w lt_inv_bounds(7) [OF inv] tot_def Let_def
        split: prod.splits sum.splits option.splits if_splits)
qed

lemma run_bound:
  "loadtest_run err_text fl n s0 s \<Longrightarrow> lt_inv s0 \<Longrightarrow> lt_inv s \<and> n + steps_left s \<le> steps_left s0"
proof (induction rule: loadtest_run.induct)
  case (run_move n s s' i d)
  then show ?case using lt_inv_step [of s' i err_text fl d] steps_left_step [of s' i err_text fl d] by simp
qed simp

lemma run_can_finish:
  "lt_inv s \<Longrightarrow> loadtest_run err_text fl n s0 s \<Longrightarrow> \<exists>m s'. loadtest_run err_text fl m s0 s' \<and> all_done s'"
proof (induction "steps_left s" arbitrary: s n rule: less_induct)
  case less
  show ?case
  proof (cases "all_done s")
    case False
    then obtain i where i: "i < length (lt_workers s)" "lt_workers s ! i \<noteq> At_Done"
      by (auto simp: all_done_def list_all_length)
    obtain d :: draw where d: "dr_key d < keyRange" by (metis keyRange_def draw.select_convs(1) zero_less_numeral)
    show ?thesis
      using less.hyps [OF steps_left_step [OF less.prems(1) i] lt_inv_step [OF less.prems(1) i]]
        run_move [OF less.prems(2) i d] by blast
  qed (use less.prems in blast)
qed

lemma all_done_tot: "all_done s \<Longrightarrow> tot f s = length (lt_workers s) * f At_Done"
proof -
  assume "all_done s"
  then have "map f (lt_workers s) = replicate (length (lt_workers s)) (f At_Done)"
    by (auto simp: all_done_def list_all_iff intro: map_cong [OF refl, of _ _ "\<lambda>_. f At_Done", unfolded map_replicate_const])
  then show ?thesis by (simp add: tot_def sum_list_replicate)
qed

lemma sum_breakdown:
  assumes "range_order rng" "list_all (\<lambda>p. 0 \<le> snd p) m"
  shows "sum_list (map (fst \<circ> (\<lambda>(errMsg, n). (n, errMsg))) (rng m)) = int (tallied m)"
proof -
  have "sum_list (map snd (rng m)) = sum_list (map snd m)"
    using range_order.rng_perm [OF assms(1), of m] by (metis mset_map sum_mset_sum_list)
  moreover have "sum_list (map snd m) = int (tallied m)" using assms(2) by (induction m) (simp_all add: tallied_def)
  moreover have "fst \<circ> (\<lambda>(errMsg, n). (n, errMsg)) = (snd :: string \<times> int \<Rightarrow> int)" by auto
  ultimately show ?thesis by (simp only:)
qed

text \<open>
  C27. The load test accounts for every operation. However the eight workers interleave and whatever the
  cluster answers, a run takes at most 30000008 steps and can always be brought to its end; when
  every worker has returned, exactly 5000000 operations were counted, each as one write, one read
  or one error, each read as one hit or one miss and each error under one message, no counter has
  wrapped, and the countdown stands at -8.
\<close>
theorem loadtest_accounts:
  assumes "loadtest_start sortf dial rng = Some s0" "loadtest_run err_text fl n s0 s" "range_order rng'"
  shows "n \<le> 30000008 \<and> (\<exists>m s'. loadtest_run err_text fl m s0 s' \<and> all_done s') \<and>
    (all_done s \<longrightarrow> opsRemaining s = - 8 \<and>
      (let rp = report fl rng' d s in
        unat (rp_total rp) = 5000000 \<and>
        unat (rp_writes rp) + unat (rp_reads rp) + unat (rp_errors rp) = 5000000 \<and>
        unat (rp_hits rp) + unat (rp_misses rp) = unat (rp_reads rp) \<and>
        sum_list (map fst (rp_breakdown rp)) = int (unat (rp_errors rp))))"
proof -
  obtain c where s0: "s0 = loadtest_init c" using assms(1) by (auto simp: loadtest_start_def split: sum.splits)
  have inv0: "lt_inv s0" by (simp add: s0 lt_inv_init)
  have inv: "lt_inv s" "n + steps_left s \<le> steps_left s0" using run_bound [OF assms(2) inv0] by simp_all
  have "steps_left s0 = 30000008"
    by (simp add: s0 steps_left_def loadtest_init_def tot_def totalOps_def numWorkers_def sum_list_replicate)
  then have bound: "n \<le> 30000008" using inv(2) by simp
  have final: "opsRemaining s = - 8 \<and> unat (writeOps s) + unat (readOps s) + unat (errorsCount s) = 5000000 \<and>
      unat (readHits s) + unat (readMisses s) = unat (readOps s) \<and> tallied (errMap s) = unat (errorsCount s)" if "all_done s"
    using inv(1) all_done_tot [OF that] by (auto simp: lt_inv_def numWorkers_def totalOps_def min_def split: if_splits)
  have total: "unat (writeOps s + readOps s + errorsCount s) = unat (writeOps s) + unat (readOps s) + unat (errorsCount s)"
    if "unat (writeOps s) + unat (readOps s) + unat (errorsCount s) = 5000000"
  proof -
    have "unat (writeOps s + readOps s) = unat (writeOps s) + unat (readOps s)"
      using that unat_add_lem [of "writeOps s" "readOps s"] by simp
    then show ?thesis using that unat_add_lem [of "writeOps s + readOps s" "errorsCount s"] by simp
  qed
  have "list_all (\<lambda>p. 0 \<le> snd p) (errMap s)" using inv(1) by (simp add: lt_inv_def)
  note sum = sum_breakdown [OF assms(3) this]
  show ?thesis
    using bound run_can_finish [OF inv0 run_start] final total sum by (auto simp: report_def Let_def)
qed

lemma loadtest_starts: "\<exists>s0. loadtest_start sortf (\<lambda>_. True) rng = Some s0"
proof -
  have "\<exists>c'. add_nodes sortf (\<lambda>_. True) c ns = Inr c'" for c ns
    by (induction ns arbitrary: c) (auto simp: addNode_def)
  then show ?thesis unfolding loadtest_start_def NewClient_def by (metis (no_types, lifting) old.sum.simps(6))
qed

theorem loadtest_accounts_witness:
  "\<exists>s0 n s. loadtest_start (sort_key vHash) (\<lambda>_. True) (\<lambda>xs. xs) = Some s0 \<and>
     loadtest_run (\<lambda>_. ''error'') id n s0 s \<and> all_done s \<and> n \<le> 30000008 \<and>
     unat (rp_total (report id rev 60 s)) = 5000000"
proof -
  obtain s0 where s0: "loadtest_start (sort_key vHash) (\<lambda>_. True) (\<lambda>xs. xs) = Some s0" using loadtest_starts by blast
  note acc = loadtest_accounts [OF s0 _ rng_reverse.range_order_axioms, of "\<lambda>_. ''error''" id _ _ 60]
  from acc [OF run_start] obtain m s where run: "loadtest_run (\<lambda>_. ''error'') id m s0 s" "all_done s" by blast
  from acc [OF run(1)] run s0 show ?thesis by (auto simp: Let_def)
qed

end
