(* ===== verification/Tools.thy ===== *)
theory Tools
  imports Client Cluster
begin

text \<open>
  The small command line programs: \<open>cmd/client/main.go\<close>, \<open>cmd/pingtest/main.go\<close> and
  \<open>cmd/hotkeytest/main.go\<close>. They drive the client SDK against a running cluster, whose state \<open>'w\<close>
  the calls may change: a service maps the state, the connection and the request to the new state
  and the reply. Output is the list of lines printed, as data; a panic or \<open>log.Fatalf\<close> is a result of
  its own.
\<close>

section \<open>Client calls against a cluster with state\<close>

type_synonym ('w, 'q, 'r) service = "'w \<Rightarrow> string \<Rightarrow> 'q \<Rightarrow> 'w \<times> (rpc_error + 'r)"

text \<open>The connection on which a \<open>Get\<close> calls the cluster: none when the local cache answers or routing fails.\<close>

definition routed :: "(rat \<Rightarrow> rat) \<Rightarrow> Client \<Rightarrow> string \<Rightarrow> string option" where
  "routed fl c key = (case getConn fl c key of Inl _ \<Rightarrow> None | Inr (conn, _) \<Rightarrow> Some conn)"

definition get_target :: "(rat \<Rightarrow> rat) \<Rightarrow> instant \<Rightarrow> string \<Rightarrow> Client \<Rightarrow> string option" where
  "get_target fl now key c =
     (case cl_l1 c of
        None \<Rightarrow> routed fl c key
      | Some l1 \<Rightarrow> if snd (snd (l1_Get l1 key now)) then None else routed fl c key)"

definition world_Get :: "('w, GetRequest, GetResponse) service \<Rightarrow> (rat \<Rightarrow> rat) \<Rightarrow> instant \<Rightarrow> instant \<Rightarrow> string \<Rightarrow> Client \<Rightarrow> 'w \<Rightarrow>
    Client \<times> 'w \<times> (client_error + bytes \<times> bool)" where
  "world_Get srv fl now1 now2 key c w =
     (case client_Get fl (\<lambda>conn req. snd (srv w conn req)) now1 now2 key c of
        (c', r) \<Rightarrow>
          (c', case get_target fl now1 key c of None \<Rightarrow> w | Some conn \<Rightarrow> fst (srv w conn \<lparr>gq_Key = key\<rparr>), r))"

definition world_Set :: "('w, SetRequest, SetResponse) service \<Rightarrow> (rat \<Rightarrow> rat) \<Rightarrow> string \<Rightarrow> bytes \<Rightarrow> duration \<Rightarrow> Client \<Rightarrow> 'w \<Rightarrow>
    Client \<times> 'w \<times> client_error option" where
  "world_Set srv fl key value ttl c w =
     (case client_Set fl (\<lambda>conn req. snd (srv w conn req)) key value ttl c of
        (c', r) \<Rightarrow>
          (c', case routed fl c key of
                 None \<Rightarrow> w
               | Some conn \<Rightarrow> fst (srv w conn \<lparr>sq_Key = key, sq_Value = value, sq_TtlMs = Milliseconds ttl\<rparr>), r))"

definition tool_nodes :: "(string, string) gomap" where
  "tool_nodes = [(''node-1'', ''127.0.0.1:7001''), (''node-2'', ''127.0.0.1:7002''), (''node-3'', ''127.0.0.1:7003'')]"

section \<open>The example client\<close>

datatype client_line =
    Connecting_line | Setting_header | Set_line string string | Getting_header | Retrieved_line string bytes
  | Missing_line string | Completed_line

datatype client_exit = Exit_ok | Fatal_start client_error | Fatal_set string client_error | Fatal_get string client_error

definition testData :: "(string, string) gomap" where
  "testData =
     [(''user:profile:alice'', ''Alice Profile Data''), (''user:profile:bob'', ''Bob Profile Data''),
      (''user:profile:charlie'', ''Charlie Profile Data''), (''system:status'', ''All systems nominal'')]"

fun set_keys :: "('w, SetRequest, SetResponse) service \<Rightarrow> (rat \<Rightarrow> rat) \<Rightarrow> (string \<times> string) list \<Rightarrow> Client \<Rightarrow> 'w \<Rightarrow>
    Client \<times> 'w \<times> client_line list \<times> client_exit" where
  "set_keys srv fl [] c w = (c, w, [], Exit_ok)"
| "set_keys srv fl ((key, value) # kvs) c w =
     (case world_Set srv fl key (bytes_of value) (30000 * Millisecond) c w of
        (c', w', Some err) \<Rightarrow> (c', w', [], Fatal_set key err)
      | (c', w', None) \<Rightarrow>
          (case set_keys srv fl kvs c' w' of (c2, w2, out, ex) \<Rightarrow> (c2, w2, Set_line key value # out, ex)))"

fun get_keys :: "(nat \<Rightarrow> ('w, GetRequest, GetResponse) service) \<Rightarrow> (rat \<Rightarrow> rat) \<Rightarrow> (nat \<Rightarrow> instant \<times> instant) \<Rightarrow> nat \<Rightarrow>
    string list \<Rightarrow> Client \<Rightarrow> 'w \<Rightarrow> Client \<times> 'w \<times> client_line list \<times> client_exit" where
  "get_keys srv fl now i [] c w = (c, w, [], Exit_ok)"
| "get_keys srv fl now i (key # ks) c w =
     (case world_Get (srv i) fl (fst (now i)) (snd (now i)) key c w of
        (c', w', Inl err) \<Rightarrow> (c', w', [], Fatal_get key err)
      | (c', w', Inr (val, found)) \<Rightarrow>
          (case get_keys srv fl now (Suc i) ks c' w' of
             (c2, w2, out, ex) \<Rightarrow> (c2, w2, (if found then Retrieved_line key val else Missing_line key) # out, ex)))"

text \<open>
  \<open>rng1\<close> and \<open>rng2\<close> are the orders of the two loops over \<open>testData\<close>. \<open>log.Fatalf\<close> ends the program
  without running the deferred \<open>Close\<close>.
\<close>

definition client_main :: "(VNode list \<Rightarrow> VNode list) \<Rightarrow> (string \<Rightarrow> bool) \<Rightarrow>
    ((string, string) gomap \<Rightarrow> (string, string) gomap) \<Rightarrow> ((string, string) gomap \<Rightarrow> (string, string) gomap) \<Rightarrow>
    ((string, string) gomap \<Rightarrow> (string, string) gomap) \<Rightarrow> ('w, SetRequest, SetResponse) service \<Rightarrow>
    (nat \<Rightarrow> ('w, GetRequest, GetResponse) service) \<Rightarrow> (rat \<Rightarrow> rat) \<Rightarrow> (nat \<Rightarrow> instant \<times> instant) \<Rightarrow> 'w \<Rightarrow>
    'w \<times> client_line list \<times> client_exit" where
  "client_main sortf dial rng rng1 rng2 sset sget fl now w =
     (case NewClient sortf dial rng tool_nodes
             [WithDialTimeout (5000 * Millisecond), WithRequestTimeout (3000 * Millisecond), WithL1Cache 1000 (5000 * Millisecond)] of
        Inl err \<Rightarrow> (w, [Connecting_line], Fatal_start err)
      | Inr c \<Rightarrow>
          (case set_keys sset fl (rng1 testData) c w of
             (c1, w1, out1, ex1) \<Rightarrow>
               if ex1 \<noteq> Exit_ok then (w1, Connecting_line # Setting_header # out1, ex1)
               else (case get_keys sget fl now 0 (map fst (rng2 testData)) c1 w1 of
                       (c2, w2, out2, ex2) \<Rightarrow>
                         (w2, Connecting_line # Setting_header # out1 @ Getting_header # out2 @
                              (if ex2 = Exit_ok then [Completed_line] else []), ex2))))"

section \<open>The ping test\<close>

datatype ping_line =
    Dialing_line string string | Dial_failed string | Ping_failed string rpc_error | Ping_ok string int int

definition pingtest_main :: "(string \<Rightarrow> bool) \<Rightarrow> (string \<Rightarrow> unit \<Rightarrow> rpc_error + PingResponse) \<Rightarrow>
    ((string, string) gomap \<Rightarrow> (string, string) gomap) \<Rightarrow> ping_line list" where
  "pingtest_main dial invoke rng =
     concat (map (\<lambda>(name, addr).
       [Dialing_line name addr,
        if \<not> dial addr then Dial_failed name
        else case invoke addr () of
            Inl err \<Rightarrow> Ping_failed name err
          | Inr resp \<Rightarrow> Ping_ok (pr_NodeId resp) (pr_UptimeMs resp) (pr_KeysCount resp)]) (rng tool_nodes))"

section \<open>The hot key test\<close>

text \<open>The clock readings around and inside the \<open>i\<close>-th read.\<close>

record read_clock =
  rc_start :: instant
  rc_lookup :: instant
  rc_store :: instant
  rc_end :: instant

datatype hot_line = Reading_line | Latency_line nat duration | Average_line duration

definition latency_line :: "nat \<Rightarrow> duration \<Rightarrow> hot_line list" where
  "latency_line i elapsed =
     (if i = 1 then [Latency_line 1 elapsed] else []) @ (if i = 100 then [Latency_line 100 elapsed] else []) @
     (if i = 101 then [Latency_line 101 elapsed] else []) @ (if i = 150 then [Latency_line 150 elapsed] else [])"

text \<open>The loop from read \<open>i\<close> on, \<open>n\<close> reads to go; \<open>None\<close> is the panic on an error.\<close>

fun hot_loop :: "(nat \<Rightarrow> ('w, GetRequest, GetResponse) service) \<Rightarrow> (rat \<Rightarrow> rat) \<Rightarrow> (nat \<Rightarrow> read_clock) \<Rightarrow> string \<Rightarrow> nat \<Rightarrow> nat \<Rightarrow>
    Client \<times> 'w \<times> duration \<times> hot_line list \<Rightarrow> (Client \<times> 'w \<times> duration \<times> hot_line list) option" where
  "hot_loop srv fl rc key i 0 s = Some s"
| "hot_loop srv fl rc key i (Suc n) (c, w, totalDuration, out) =
     (case world_Get (srv i) fl (rc_lookup (rc i)) (rc_store (rc i)) key c w of
        (c', w', Inl err) \<Rightarrow> None
      | (c', w', Inr _) \<Rightarrow>
          (let elapsed = Sub (rc_end (rc i)) (rc_start (rc i)) in
           hot_loop srv fl rc key (Suc i) n (c', w', int64 (totalDuration + elapsed), out @ latency_line i elapsed)))"

definition hotkeytest_main :: "(VNode list \<Rightarrow> VNode list) \<Rightarrow> (string \<Rightarrow> bool) \<Rightarrow>
    ((string, string) gomap \<Rightarrow> (string, string) gomap) \<Rightarrow> ('w, SetRequest, SetResponse) service \<Rightarrow>
    (nat \<Rightarrow> ('w, GetRequest, GetResponse) service) \<Rightarrow> (rat \<Rightarrow> rat) \<Rightarrow> (nat \<Rightarrow> read_clock) \<Rightarrow> 'w \<Rightarrow>
    ('w \<times> hot_line list) option" where
  "hotkeytest_main sortf dial rng sset sget fl rc w =
     (case NewClient sortf dial rng tool_nodes [WithL1Cache 100 (10000 * Millisecond)] of
        Inl err \<Rightarrow> None
      | Inr c \<Rightarrow>
          (let key = ''hot-news-headline'' in
           case world_Set sset fl key (bytes_of ''Breaking News: Cache works!'') (60000 * Millisecond) c w of
             (c1, w1, _) \<Rightarrow>
               map_option (\<lambda>(c2, w2, totalDuration, out). (w2, out @ [Average_line (go_quot totalDuration 150)]))
                 (hot_loop sget fl rc key 1 150 (c1, w1, 0, [Reading_line]))))"

section \<open>A hot key moves into the local cache\<close>

text \<open>A server answering on each connection, the clock of the call running with \<open>clk\<close>.\<close>

definition node_get :: "(nat \<Rightarrow> instant) \<Rightarrow> (string \<Rightarrow> CacheServer, GetRequest, GetResponse) service" where
  "node_get clk w conn req = (case server_Get no_answer clk req (w conn) of (cs, r) \<Rightarrow> (w(conn := cs), r))"

definition l1_has :: "Client \<Rightarrow> string \<Rightarrow> bytes \<Rightarrow> instant \<Rightarrow> bool" where
  "l1_has c key v until \<longleftrightarrow> (\<exists>l1 e. cl_l1 c = Some l1 \<and> lru_find key (l1_abs l1) = Some e \<and> l1value e = v \<and> until \<le> l1expiresAt e)"

definition l1_lacks :: "Client \<Rightarrow> string \<Rightarrow> bool" where
  "l1_lacks c key \<longleftrightarrow> (\<exists>l1. cl_l1 c = Some l1 \<and> lru_find key (l1_abs l1) = None)"

definition l1_ready :: "Client \<Rightarrow> duration \<Rightarrow> bool" where
  "l1_ready c ttl \<longleftrightarrow> (\<exists>l1. cl_l1 c = Some l1 \<and> l1_inv l1 \<and> defaultTTL l1 = ttl)"

lemma l1_Get_hit:
  assumes "l1_inv l1" "lru_find key (l1_abs l1) = Some e" "now \<le> l1expiresAt e"
  obtains l1' where "l1_Get l1 key now = (l1', l1value e, True)" "l1_inv l1'" "defaultTTL l1' = defaultTTL l1"
    "lru_find key (l1_abs l1') = Some e"
proof -
  obtain l1' v ok where get: "l1_Get l1 key now = (l1', v, ok)" by (cases "l1_Get l1 key now") auto
  have "l1_wf l1" using assms(1) by (simp add: l1_inv_def)
  note ref = l1_Get_refines [OF this, of key now, unfolded get lru_get_def assms(2)]
  have "l1_inv l1'" using l1_exec_refines [OF assms(1), of "LGet key now"] get by simp
  moreover have "defaultTTL l1' = defaultTTL l1" using l1_frame(2) [of l1 "LGet key now"] get by simp
  moreover have "lru_find key (l1_abs l1') = Some e" "v = l1value e" ok
    using ref assms(3) lru_find_key [OF assms(2)] by (simp_all add: lru_find_Cons)
  ultimately show thesis using that get by simp
qed

lemma l1_Get_miss:
  assumes "l1_inv l1" "lru_find key (l1_abs l1) = None"
  obtains l1' where "l1_Get l1 key now = (l1', [], False)" "l1_inv l1'" "defaultTTL l1' = defaultTTL l1"
    "lru_find key (l1_abs l1') = None"
proof -
  obtain l1' v ok where get: "l1_Get l1 key now = (l1', v, ok)" by (cases "l1_Get l1 key now") auto
  have "l1_wf l1" using assms(1) by (simp add: l1_inv_def)
  note ref = l1_Get_refines [OF this, of key now, unfolded get lru_get_def assms(2)]
  have "l1_inv l1'" using l1_exec_refines [OF assms(1), of "LGet key now"] get by simp
  moreover have "defaultTTL l1' = defaultTTL l1" using l1_frame(2) [of l1 "LGet key now"] get by simp
  ultimately show thesis using that get ref assms(2) by simp
qed

lemma l1_Set_find:
  assumes "l1_inv l1"
  shows "lru_find key (l1_abs (l1_Set l1 key v ttl now)) = Some \<lparr>l1key = key, l1value = v, l1expiresAt = set_expiry l1 ttl now\<rparr>"
proof -
  have "0 < nat (capacity l1)" using assms by (simp add: l1_inv_def l1_wf_def)
  then show ?thesis using l1_Set_refines [OF assms, of key v ttl now] by (simp add: lru_set_def take_Cons lru_find_Cons split: nat.split)
qed

lemma store_Get_live:
  assumes "store_inv s" "lookup_entry s key = Some e" "\<not> IsExpired e t1" "t1 \<le> t2"
  obtains s' where "store_Get s key t1 t2 = (s', eValue e, True)" "store_inv s'" "lookup_entry s' key = Some e"
proof -
  obtain s' v ok where get: "store_Get s key t1 t2 = (s', v, ok)" by (cases "store_Get s key t1 t2") auto
  have "live_value (lookup_entry s) key t1 = Some (eValue e)" using assms(2,3) by (simp add: live_value_def)
  then have "v = eValue e" ok using st.get_reply [OF assms(1), of key t1 t2] get by simp_all
  moreover have "lookup_entry s' key = Some e"
    using st.get_view [OF assms(1,4), of key] get assms(2,3) by (simp add: drop_expired_def)
  moreover have "store_inv s'" using st.get_inv [OF assms(1), of key t1 t2] get by simp
  ultimately show thesis using that get by simp
qed

lemma CheckAndMitigate_keeps:
  assumes "store_inv s" "lookup_entry s key = Some e" "\<not> IsExpired e (clk 0)" "clk 0 \<le> clk 1"
  obtains m' s' where "CheckAndMitigate d m s key clk = (fst (RecordAccess d key), m', s', snd (RecordAccess d key))"
    "lookup_entry s' key = Some e"
proof -
  obtain s1 where get: "store_Get s key (clk 0) (clk 1) = (s1, eValue e, True)" "store_inv s1" "lookup_entry s1 key = Some e"
    by (rule store_Get_live [OF assms])
  have "key \<notin> ShardKeyName key ` {0..<n}" for n by (auto dest: sym)
  then have "lookup_entry (applySplitting m s key clk) key = Some e"
    using get by (simp add: applySplitting_def write_shards_other)
  then have "\<exists>m' s'. CheckAndMitigate d m s key clk = (fst (RecordAccess d key), m', s', snd (RecordAccess d key)) \<and>
      lookup_entry s' key = Some e"
    using assms(2) by (cases "RecordAccess d key") (simp add: CheckAndMitigate_def)
  then show thesis using that by blast
qed

lemma server_hot_get:
  assumes inv: "node_inv cs" and own: "proxy IsReplica cs key = None" and mit: "cs_mitigator cs = Some m"
    and e: "lookup_entry (cs_store cs) key = Some e" "\<And>i. \<not> IsExpired e (clk i)" and "mono clk"
  obtains cs' m' where "server_Get no_answer clk \<lparr>gq_Key = key\<rparr> cs =
      (cs', Inr \<lparr>gr_Key = key, gr_Value = eValue e, gr_Found = True, gr_TtlMs = 0, gr_IsHot = snd (RecordAccess (cs_detector cs) key)\<rparr>)"
    "node_inv cs'" "proxy IsReplica cs' key = None" "cs_mitigator cs' = Some m'"
    "lookup_entry (cs_store cs') key = Some e" "cs_detector cs' = fst (RecordAccess (cs_detector cs) key)"
proof -
  have le: "clk i \<le> clk j" if "i \<le> j" for i j using assms(6) that by (simp add: mono_def)
  obtain s1 where get: "store_Get (cs_store cs) key (clk 0) (clk 1) = (s1, eValue e, True)" "store_inv s1" "lookup_entry s1 key = Some e"
    using inv by (auto simp: node_inv_def intro: store_Get_live [OF _ e(1) e(2) le, of 0 1])
  obtain m' s' where chk: "CheckAndMitigate (cs_detector cs) m s1 key (\<lambda>i. clk (2 + i)) =
      (fst (RecordAccess (cs_detector cs) key), m', s', snd (RecordAccess (cs_detector cs) key))" "lookup_entry s' key = Some e"
    by (rule CheckAndMitigate_keeps [OF get(2,3), of "\<lambda>i. clk (2 + i)"]) (simp_all add: e(2) le)
  let ?req = "\<lparr>gq_Key = key\<rparr>"
  have eq: "server_Get no_answer clk ?req cs = get_local ?req clk cs"
    using own by (simp add: server_Get_eq [OF node_inv_loads [OF inv]])
  obtain cs' r where run: "get_local ?req clk cs = (cs', r)" by (cases "get_local ?req clk cs")
  have "proxy IsReplica cs' key = None"
    using own get_local_frame [of ?req clk cs] run by (simp add: proxy_def cong: option.case_cong if_cong)
  moreover have "node_inv cs'" using get_local_inv [OF inv, of ?req clk] run by simp
  moreover have "cs' = cs\<lparr>cs_store := s', cs_detector := fst (RecordAccess (cs_detector cs) key), cs_mitigator := Some m'\<rparr>"
    "r = Inr \<lparr>gr_Key = key, gr_Value = eValue e, gr_Found = True, gr_TtlMs = 0, gr_IsHot = snd (RecordAccess (cs_detector cs) key)\<rparr>"
    using run chk mit get(1) by (auto simp: get_local_def Let_def)
  ultimately show thesis using that [of cs' m'] run chk(2) eq by simp
qed

text \<open>
  The state between the reads: either the local cache holds the value until \<open>until\<close>, or it does not
  hold the key and the server has counted every one of the \<open>i\<close> reads, below the threshold.
\<close>

definition counting :: "Detector \<Rightarrow> string \<Rightarrow> u64 \<Rightarrow> nat \<Rightarrow> nat \<Rightarrow> bool" where
  "counting d key threshold len i \<longleftrightarrow> hotThreshold d = threshold \<and> (i = 0 \<or> i < unat threshold) \<and>
     (\<exists>h. tracks (sketch d) h \<and> length h \<le> len + i \<and> i \<le> weight (\<lambda>k. k = key) h)"

definition hot_state :: "(rat \<Rightarrow> rat) \<Rightarrow> string \<Rightarrow> string \<Rightarrow> Entry \<Rightarrow> duration \<Rightarrow> instant \<Rightarrow> u64 \<Rightarrow> nat \<Rightarrow> nat \<Rightarrow> Client \<Rightarrow>
    (string \<Rightarrow> CacheServer) \<Rightarrow> bool" where
  "hot_state fl key addr e ttl until threshold len i c w \<longleftrightarrow>
     l1_ready c ttl \<and> (\<exists>p. getConn fl c key = Inr (addr, p)) \<and> node_inv (w addr) \<and> proxy IsReplica (w addr) key = None \<and>
     (\<exists>m. cs_mitigator (w addr) = Some m) \<and> lookup_entry (cs_store (w addr)) key = Some e \<and>
     (l1_has c key (eValue e) until \<or> l1_lacks c key \<and> counting (cs_detector (w addr)) key threshold len i)"

lemma counting_step:
  assumes "counting d key threshold len i" "Suc (len + i) < 2 ^ 64 - 1" "\<not> snd (RecordAccess d key)"
  shows "counting (fst (RecordAccess d key)) key threshold len (Suc i)"
proof -
  obtain h where h: "tracks (sketch d) h" "length h \<le> len + i" "i \<le> weight (\<lambda>k. k = key) h" and t: "hotThreshold d = threshold"
    using assms(1) by (auto simp: counting_def)
  have "Suc (length h) < 2 ^ 64 - 1" using h(2) assms(2) by simp
  from cms.inc_weight [OF h(1) this, of key] have "Suc i \<le> unat (Estimate (cms_Increment (sketch d) key) key)" using h(3) by simp
  moreover have "\<not> threshold \<le> Estimate (cms_Increment (sketch d) key) key" using assms(3) t by (simp add: RecordAccess_def Let_def)
  ultimately have "Suc i < unat threshold" by (simp add: word_le_nat_alt)
  moreover have "tracks (cms_Increment (sketch d) key) (h @ [Inc key])" by (rule cms.inc_follows [OF h(1)])
  ultimately show ?thesis
    unfolding counting_def using h(2,3) t
    by (auto simp: RecordAccess_def Let_def intro!: exI [of _ "h @ [Inc key]"])
qed

lemma world_Get_local:
  assumes "l1_ready c ttl" "l1_has c key v until" "now \<le> until"
  obtains l1' where "world_Get srv fl now now2 key c w = (c\<lparr>cl_l1 := Some l1'\<rparr>, w, Inr (v, True))"
    "get_target fl now key c = None" "l1_ready (c\<lparr>cl_l1 := Some l1'\<rparr>) ttl" "l1_has (c\<lparr>cl_l1 := Some l1'\<rparr>) key v until"
proof -
  obtain l1 e where l1: "cl_l1 c = Some l1" "l1_inv l1" "defaultTTL l1 = ttl" "lru_find key (l1_abs l1) = Some e" "l1value e = v"
    "until \<le> l1expiresAt e" using assms(1,2) by (auto simp: l1_ready_def l1_has_def)
  have "now \<le> l1expiresAt e" using l1(6) assms(3) by simp
  from l1(2,4) this obtain l1' where l1': "l1_Get l1 key now = (l1', l1value e, True)" "l1_inv l1'"
    "defaultTTL l1' = defaultTTL l1" "lru_find key (l1_abs l1') = Some e" by (rule l1_Get_hit)
  have "get_target fl now key c = None" using l1(1) l1'(1) by (simp add: get_target_def)
  moreover have "client_Get fl invoke now now2 key c = (c\<lparr>cl_l1 := Some l1'\<rparr>, Inr (v, True))" for invoke
    using l1(1,5) l1'(1) by (simp add: client_Get_def)
  ultimately show thesis using that [of l1'] l1(3,5,6) l1'(2,3,4) by (simp add: world_Get_def l1_ready_def l1_has_def)
qed

lemma world_Get_remote:
  assumes "l1_ready c ttl" "l1_lacks c key" "getConn fl c key = Inr (addr, p)"
    and "srv w addr \<lparr>gq_Key = key\<rparr> = (w', Inr \<lparr>gr_Key = key, gr_Value = v, gr_Found = True, gr_TtlMs = 0, gr_IsHot = hot\<rparr>)"
    and "until \<le> now2 + ttl"
  obtains l1' where "world_Get srv fl now now2 key c w = (c\<lparr>cl_l1 := Some l1'\<rparr>, w', Inr (v, True))"
    "l1_ready (c\<lparr>cl_l1 := Some l1'\<rparr>) ttl"
    "if hot then l1_has (c\<lparr>cl_l1 := Some l1'\<rparr>) key v until else l1_lacks (c\<lparr>cl_l1 := Some l1'\<rparr>) key"
proof -
  obtain l1 where l1: "cl_l1 c = Some l1" "l1_inv l1" "defaultTTL l1 = ttl" "lru_find key (l1_abs l1) = None"
    using assms(1,2) by (auto simp: l1_ready_def l1_lacks_def)
  obtain l0 where l0: "l1_Get l1 key now = (l0, [], False)" "l1_inv l0" "defaultTTL l0 = defaultTTL l1" "lru_find key (l1_abs l0) = None"
    by (rule l1_Get_miss [OF l1(2,4)])
  let ?l = "l1_Set l0 key v 0 now2"
  have tgt: "get_target fl now key c = Some addr" using l1(1) l0(1) assms(3) by (simp add: get_target_def routed_def)
  have run: "client_Get fl (\<lambda>conn req. snd (srv w conn req)) now now2 key c =
      (c\<lparr>cl_l1 := Some (if hot then ?l else l0)\<rparr>, Inr (v, True))"
    using l1(1) l0(1) assms(3,4) by (simp add: client_Get_def get_remote_def getConn_frame dur_of_ms_def int64_def)
  have "l1_inv ?l" "defaultTTL ?l = ttl"
    using l1_Set_refines [OF l0(2)] l1_frame(2) [of l0 "LSet key v 0 now2"] l0(3) l1(3) by simp_all
  moreover have "lru_find key (l1_abs ?l) = Some \<lparr>l1key = key, l1value = v, l1expiresAt = now2 + ttl\<rparr>"
    using l1_Set_find [OF l0(2), of key v 0 now2] l0(3) l1(3) by (simp add: set_expiry_def)
  ultimately show thesis
    using that [of "if hot then ?l else l0"] run tgt assms(4,5) l0 l1(3)
    by (auto simp: world_Get_def l1_ready_def l1_has_def l1_lacks_def)
qed

lemma hot_state_step:
  assumes st: "hot_state fl key addr e ttl until threshold len i c w" and "Suc (len + i) < 2 ^ 64 - 1"
    and "now \<le> until" "until \<le> now2 + ttl" "mono clk" "\<And>j. \<not> IsExpired e (clk j)"
  obtains c' w' where "world_Get (node_get clk) fl now now2 key c w = (c', w', Inr (eValue e, True))"
    "hot_state fl key addr e ttl until threshold len (Suc i) c' w'"
proof (cases "l1_has c key (eValue e) until")
  case True
  have "l1_ready c ttl" using st by (simp add: hot_state_def)
  from this True assms(3) obtain l1' where "world_Get (node_get clk) fl now now2 key c w = (c\<lparr>cl_l1 := Some l1'\<rparr>, w, Inr (eValue e, True))"
    "l1_ready (c\<lparr>cl_l1 := Some l1'\<rparr>) ttl" "l1_has (c\<lparr>cl_l1 := Some l1'\<rparr>) key (eValue e) until" by (rule world_Get_local)
  then show thesis using that st by (simp add: hot_state_def getConn_frame)
next
  case False
  obtain p m where s: "l1_ready c ttl" "l1_lacks c key" "getConn fl c key = Inr (addr, p)" "node_inv (w addr)"
    "proxy IsReplica (w addr) key = None" "cs_mitigator (w addr) = Some m" "lookup_entry (cs_store (w addr)) key = Some e"
    and cnt: "counting (cs_detector (w addr)) key threshold len i" using st False by (auto simp: hot_state_def)
  let ?hot = "snd (RecordAccess (cs_detector (w addr)) key)"
  obtain cs' m' where srv: "server_Get no_answer clk \<lparr>gq_Key = key\<rparr> (w addr) =
      (cs', Inr \<lparr>gr_Key = key, gr_Value = eValue e, gr_Found = True, gr_TtlMs = 0, gr_IsHot = ?hot\<rparr>)"
    "node_inv cs'" "proxy IsReplica cs' key = None" "cs_mitigator cs' = Some m'"
    "lookup_entry (cs_store cs') key = Some e" "cs_detector cs' = fst (RecordAccess (cs_detector (w addr)) key)"
    by (rule server_hot_get [OF s(4-7) assms(6,5)])
  have "node_get clk w addr \<lparr>gq_Key = key\<rparr> =
      (w(addr := cs'), Inr \<lparr>gr_Key = key, gr_Value = eValue e, gr_Found = True, gr_TtlMs = 0, gr_IsHot = ?hot\<rparr>)"
    using srv(1) by (simp add: node_get_def)
  from this obtain l1' where
    get: "world_Get (node_get clk) fl now now2 key c w = (c\<lparr>cl_l1 := Some l1'\<rparr>, w(addr := cs'), Inr (eValue e, True))"
    "l1_ready (c\<lparr>cl_l1 := Some l1'\<rparr>) ttl"
    "if ?hot then l1_has (c\<lparr>cl_l1 := Some l1'\<rparr>) key (eValue e) until else l1_lacks (c\<lparr>cl_l1 := Some l1'\<rparr>) key"
    by (rule world_Get_remote [where srv = "node_get clk" and w = w, OF s(1-3) _ assms(4)])
  moreover have "?hot \<or> counting (cs_detector cs') key threshold len (Suc i)"
    unfolding srv(6) using counting_step [OF cnt assms(2)] by blast
  ultimately show thesis
    using that [OF get(1)] srv(2-5) s(3) by (auto simp: hot_state_def getConn_frame split: if_splits)
qed

lemma hot_loop_state:
  assumes "hot_state fl key addr e ttl until threshold len i c w" "len + i + n < 2 ^ 64 - 1"
    and "\<forall>j. rc_lookup (rc j) \<le> until \<and> until \<le> rc_store (rc j) + ttl" "\<forall>j. mono (clk j)" "\<forall>j k. \<not> IsExpired e (clk j k)"
  shows "\<exists>c' w' t out'. hot_loop (\<lambda>j. node_get (clk j)) fl rc key j n (c, w, total0, out) = Some (c', w', t, out') \<and>
    hot_state fl key addr e ttl until threshold len (i + n) c' w'"
  using assms(1,2)
proof (induction n arbitrary: i j c w total0 out)
  case (Suc n)
  have "Suc (len + i) < 2 ^ 64 - 1" using Suc.prems(2) by simp
  from Suc.prems(1) this obtain c' w' where step:
    "world_Get (node_get (clk j)) fl (rc_lookup (rc j)) (rc_store (rc j)) key c w = (c', w', Inr (eValue e, True))"
    "hot_state fl key addr e ttl until threshold len (Suc i) c' w'"
    by (rule hot_state_step [where clk = "clk j" and now = "rc_lookup (rc j)" and ?now2.0 = "rc_store (rc j)"]) (use assms(3-5) in blast)+
  show ?case
    using Suc.IH [OF step(2), of "Suc j"] Suc.prems(2) step(1) by (simp add: Let_def)
qed simp


text \<open>A server at \<open>''a:1''\<close> with threshold 2, the demonstration client, and a key without expiry.\<close>

definition demo_hot_node :: "string \<Rightarrow> CacheServer" where
  "demo_hot_node addr = NewCacheServer ''n'' (store_Set empty_store ''k'' [7] 0 0 0) demo_client_ring True None None
     (Some (NewMitigator 4)) (NewDetector 2 60) 0"

lemma demo_hot_node_inv: "node_inv (demo_hot_node addr)"
  using demo_client_ring_inv st.set_inv [OF empty_store_inv] cms_New_inv
  by (simp add: node_inv_def demo_hot_node_def NewCacheServer_def NewDetector_def loads_ok_def)
    (simp add: demo_client_ring_def AddNode_def NewRing_def int64_def)

lemma demo_hot_conn: "getConn id demo_client ''k'' = Inr (''a:1'', ''n'')"
proof -
  have "client_inv demo_client"
    by (rule NewClient_effect(1) [OF stable_sort.vnode_sort_axioms rng_insertion.range_order_axioms _ NewClient_demo])
      (simp add: gm_inv_def)
  from client_GetNode [OF this] show ?thesis using demo_pref by (simp add: getConn_def demo_client_def)
qed


section \<open>A stale value in the local cache\<close>

text \<open>
  \<open>Set\<close> drops the key from the local cache before it calls the server, and \<open>Get\<close> stores a hot reply
  after its own call. When another goroutine's \<open>Set\<close> runs between the two halves of a \<open>Get\<close>, the
  value read before the \<open>Set\<close> is stored after it, and the client keeps returning it.
\<close>

lemma l1_Delete_ready:
  "l1_inv l1 \<Longrightarrow> l1_inv (l1_Delete l1 key) \<and> defaultTTL (l1_Delete l1 key) = defaultTTL l1"
  using l1_exec_refines [of l1 "LDelete key"] l1_frame(2) [of l1 "LDelete key"] by simp

lemma stale_after_set:
  assumes "l1_ready c ttl" "getConn fl c key = Inr (addr, p)" "now \<le> now2 + ttl"
    and "client_Set fl invoke key new d c = (c1, None)"
    and "get_remote fl (\<lambda>_ _. Inr \<lparr>gr_Key = key, gr_Value = old, gr_Found = True, gr_TtlMs = 0, gr_IsHot = True\<rparr>) now2 key c1 = (c2, r)"
  shows "snd (client_Get fl invoke' now now3 key c2) = Inr (old, True)"
proof -
  obtain l1 where l1: "cl_l1 c = Some l1" "l1_inv l1" "defaultTTL l1 = ttl" using assms(1) by (auto simp: l1_ready_def)
  let ?l = "l1_Delete l1 key" and ?l' = "l1_Set (l1_Delete l1 key) key old 0 now2"
  have c1: "c1 = c\<lparr>cl_l1 := Some ?l\<rparr>"
    using assms(4) l1(1) by (auto simp: client_Set_def forget_def Let_def split: sum.splits prod.splits)
  then have c2: "c2 = c\<lparr>cl_l1 := Some ?l'\<rparr>"
    using assms(2,5) by (auto simp: get_remote_def getConn_frame dur_of_ms_def int64_def)
  note del = l1_Delete_ready [OF l1(2), of key]
  have "l1_inv ?l'" using l1_Set_refines del by blast
  moreover have "lru_find key (l1_abs ?l') = Some \<lparr>l1key = key, l1value = old, l1expiresAt = now2 + ttl\<rparr>"
    using l1_Set_find [of ?l key old 0 now2] del l1(3) by (simp add: set_expiry_def)
  ultimately obtain l2 where "l1_Get ?l' key now = (l2, old, True)"
    by (rule l1_Get_hit [where now = now]) (use assms(3) in auto)
  then show ?thesis by (simp add: c2 client_Get_def)
qed

section \<open>The example client reads back what it wrote\<close>

text \<open>
  A cluster that keeps what it is told: \<open>view\<close> is what it would answer. Replies may be marked hot, so
  the local cache takes part.
\<close>

definition keeps_writes :: "('w \<Rightarrow> string \<rightharpoonup> bytes) \<Rightarrow> ('w, SetRequest, SetResponse) service \<Rightarrow>
    (nat \<Rightarrow> ('w, GetRequest, GetResponse) service) \<Rightarrow> bool" where
  "keeps_writes view sset sget \<longleftrightarrow>
     (\<forall>w conn q. (\<exists>r. snd (sset w conn q) = Inr r) \<and> view (fst (sset w conn q)) = (view w)(sq_Key q \<mapsto> sq_Value q)) \<and>
     (\<forall>i w conn q. view (fst (sget i w conn q)) = view w \<and>
        (\<exists>r. snd (sget i w conn q) = Inr r \<and> gr_Found r = (view w (gq_Key q) \<noteq> None) \<and>
           (\<forall>v. view w (gq_Key q) = Some v \<longrightarrow> gr_Value r = v)))"

definition connected :: "(rat \<Rightarrow> rat) \<Rightarrow> Client \<Rightarrow> bool" where
  "connected fl c \<longleftrightarrow> (\<forall>key. \<exists>addr p. getConn fl c key = Inr (addr, p))"

definition l1_free :: "string set \<Rightarrow> Client \<Rightarrow> bool" where
  "l1_free K c \<longleftrightarrow> (\<exists>l1. cl_l1 c = Some l1 \<and> l1_inv l1 \<and> dom (l1_shown l1) \<inter> K = {})"

lemma connected_l1 [simp]: "connected fl (c\<lparr>cl_l1 := x\<rparr>) = connected fl c"
  by (simp add: connected_def getConn_frame)

lemma NewClient_connected:
  assumes "vnode_sort sortf" "range_order rng" "gm_inv ns" "ns \<noteq> []" "NewClient sortf dial rng ns opts = Inr c"
  shows "connected fl c"
  unfolding connected_def
proof
  fix key
  note new = NewClient_effect [OF assms(1-3,5)]
  have inv: "ring_inv (cl_ring c)" using new(1) by (simp add: client_inv_def)
  have "set (pref (cl_ring c) key) = fst ` set ns" using set_pref [OF inv, of key] new(2) by simp
  moreover from this have ne: "pref (cl_ring c) key \<noteq> []" using assms(4) by force
  ultimately have "hd (pref (cl_ring c) key) \<in> fst ` set ns" using hd_in_set by blast
  then obtain addr where "gm_get ns (hd (pref (cl_ring c) key)) = Some addr"
    by (metis map_of_eq_None_iff not_None_eq)
  then show "\<exists>addr p. getConn fl c key = Inr (addr, p)"
    using client_GetNode [OF new(1), of fl key] ne new(3) by (simp add: getConn_def)
qed

lemma NewClient_dials:
  obtains c where "NewClient sortf (\<lambda>_. True) rng ns opts = Inr c"
proof -
  have "\<exists>c'. add_nodes sortf (\<lambda>_. True) c ns = Inr c'" for c ns
    by (induction ns arbitrary: c) (auto simp: addNode_def)
  then show thesis using that unfolding NewClient_def by metis
qed

lemma world_Set_keeps:
  assumes "keeps_writes view sset sget" "connected fl c" "l1_free K c"
  obtains c' w' where "world_Set sset fl key v ttl c w = (c', w', None)" "connected fl c'" "l1_free K c'"
    "view w' = (view w)(key \<mapsto> v)"
proof -
  obtain addr p where conn: "getConn fl c key = Inr (addr, p)" using assms(2) unfolding connected_def by blast
  obtain l1 where l1: "cl_l1 c = Some l1" "l1_inv l1" "dom (l1_shown l1) \<inter> K = {}" using assms(3) by (auto simp: l1_free_def)
  let ?q = "\<lparr>sq_Key = key, sq_Value = v, sq_TtlMs = Milliseconds ttl\<rparr>"
  obtain r where "snd (sset w addr ?q) = Inr r" "view (fst (sset w addr ?q)) = (view w)(key \<mapsto> v)"
    using assms(1) by (fastforce simp: keeps_writes_def)
  moreover have "l1_free K (forget key c)"
    using lc.del_shown [OF l1(2), of key] l1 by (auto simp: l1_free_def forget_def map_le_def) (metis IntI domI emptyE fun_upd_apply option.distinct(1))
  moreover have "connected fl (forget key c)" using assms(2) by (simp add: forget_def)
  ultimately show thesis
    using conn by (intro that [of "forget key c" "fst (sset w addr ?q)"])
      (simp_all add: world_Set_def client_Set_def Let_def routed_def, simp_all add: forget_def getConn_frame)
qed

lemma world_Get_keeps:
  assumes "keeps_writes view sset sget" "connected fl c" "l1_free (insert key K) c" "key \<notin> K" "view w key = Some v"
  obtains c' w' where "world_Get (sget i) fl now1 now2 key c w = (c', w', Inr (v, True))" "connected fl c'" "l1_free K c'"
    "view w' = view w"
proof -
  obtain addr p where conn: "getConn fl c key = Inr (addr, p)" using assms(2) unfolding connected_def by blast
  obtain l1 where l1: "cl_l1 c = Some l1" "l1_inv l1" "dom (l1_shown l1) \<inter> insert key K = {}" using assms(3) by (auto simp: l1_free_def)
  obtain l0 x ok where get: "l1_Get l1 key now1 = (l0, x, ok)" by (cases "l1_Get l1 key now1") auto
  have miss: "\<not> ok" using lc.get_hit [OF l1(2), of key now1 l0 x] get l1(3) by (cases ok) auto
  have l0: "l1_inv l0" "l1_shown l0 \<subseteq>\<^sub>m l1_shown l1" using lc.get_shown [OF l1(2) get] by simp_all
  then have dom0: "dom (l1_shown l0) \<inter> K = {}" using l1(3) map_le_implies_dom_le by blast
  let ?w = "fst (sget i w addr \<lparr>gq_Key = key\<rparr>)"
  obtain r where r: "snd (sget i w addr \<lparr>gq_Key = key\<rparr>) = Inr r" "gr_Found r" "gr_Value r = v" "view ?w = view w"
    using assms(1,5) unfolding keeps_writes_def by (metis GetRequest.select_convs(1) option.distinct(1))
  let ?l = "if gr_IsHot r then l1_Set l0 key v (dur_of_ms (gr_TtlMs r)) now2 else l0"
  note put = lc.put_shown [OF l0(1), of key v "dur_of_ms (gr_TtlMs r)" now2]
  have "dom (l1_shown (l1_Set l0 key v (dur_of_ms (gr_TtlMs r)) now2)) \<subseteq> insert key (dom (l1_shown l0))"
    using put map_le_implies_dom_le by fastforce
  then have "l1_inv ?l \<and> dom (l1_shown ?l) \<inter> K = {}" using put l0(1) dom0 assms(4) by (cases "gr_IsHot r") (simp, blast, simp)
  then have "l1_free K (c\<lparr>cl_l1 := Some ?l\<rparr>)" unfolding l1_free_def by auto
  moreover have "world_Get (sget i) fl now1 now2 key c w = (c\<lparr>cl_l1 := Some ?l\<rparr>, ?w, Inr (v, True))"
    using conn l1(1) get miss r
    by (simp add: world_Get_def client_Get_def get_target_def routed_def get_remote_def getConn_frame)
  ultimately show thesis using that r(4) assms(2) by (simp del: if_split)
qed

lemma set_keys_keep:
  assumes "keeps_writes view sset sget" "connected fl c" "l1_free K c"
  obtains c' w' where "set_keys sset fl kvs c w = (c', w', map (\<lambda>(k, v). Set_line k v) kvs, Exit_ok)" "connected fl c'" "l1_free K c'"
    "view w' = view w ++ map_of (rev (map (\<lambda>(k, v). (k, bytes_of v)) kvs))"
  using assms(2,3)
proof (induction kvs arbitrary: c w thesis)
  case (Cons kv kvs)
  obtain k v where kv: "kv = (k, v)" by (cases kv)
  obtain c1 w1 where step: "world_Set sset fl k (bytes_of v) (30000 * Millisecond) c w = (c1, w1, None)" "connected fl c1"
    "l1_free K c1" "view w1 = (view w)(k \<mapsto> bytes_of v)"
    by (rule world_Set_keeps [OF assms(1) Cons.prems(2,3)])
  obtain c2 w2 where rest: "set_keys sset fl kvs c1 w1 = (c2, w2, map (\<lambda>(k, v). Set_line k v) kvs, Exit_ok)" "connected fl c2" "l1_free K c2"
    "view w2 = view w1 ++ map_of (rev (map (\<lambda>(k, v). (k, bytes_of v)) kvs))"
    by (rule Cons.IH [OF _ step(2,3)])
  show ?case by (rule Cons.prems(1) [of c2 w2]) (use step rest in \<open>simp_all add: kv map_add_def fun_eq_iff split: option.split\<close>)
qed simp

lemma get_keys_keep:
  assumes "keeps_writes view sset sget" "connected fl c" "l1_free (set ks) c" "distinct ks" "\<forall>k \<in> set ks. view w k = Some (f k)"
  shows "\<exists>c' w'. get_keys sget fl now i ks c w = (c', w', map (\<lambda>k. Retrieved_line k (f k)) ks, Exit_ok)"
  using assms(2-5)
proof (induction ks arbitrary: i c w)
  case (Cons k ks)
  obtain c1 w1 where step: "world_Get (sget i) fl (fst (now i)) (snd (now i)) k c w = (c1, w1, Inr (f k, True))" "connected fl c1"
    "l1_free (set ks) c1" "view w1 = view w"
    by (rule world_Get_keeps [OF assms(1) Cons.prems(1), of k "set ks" w "f k" i "fst (now i)" "snd (now i)"]) (use Cons.prems in auto)
  obtain c2 w2 where "get_keys sget fl now (Suc i) ks c1 w1 = (c2, w2, map (\<lambda>k. Retrieved_line k (f k)) ks, Exit_ok)"
    using Cons.IH [OF step(2,3), of w1 "Suc i"] Cons.prems(3,4) step(4) by auto
  then show ?case using step(1) by simp
qed simp

lemma client_main_reads_back:
  assumes "keeps_writes view sset sget" "vnode_sort sortf" "range_order rng" "range_order rng1" "range_order rng2"
  shows "\<exists>w'. client_main sortf (\<lambda>_. True) rng rng1 rng2 sset sget fl now w =
    (w', Connecting_line # Setting_header # map (\<lambda>(k, v). Set_line k v) (rng1 testData) @
         Getting_header # map (\<lambda>(k, v). Retrieved_line k (bytes_of v)) (rng2 testData) @ [Completed_line], Exit_ok)"
proof -
  let ?opts = "[WithDialTimeout (5000 * Millisecond), WithRequestTimeout (3000 * Millisecond), WithL1Cache 1000 (5000 * Millisecond)]"
  obtain c where c: "NewClient sortf (\<lambda>_. True) rng tool_nodes ?opts = Inr c" by (rule NewClient_dials)
  have "gm_inv tool_nodes" by (simp add: tool_nodes_def gm_inv_def)
  then have conn: "connected fl c" using NewClient_connected [OF assms(2,3) _ _ c] by (simp add: tool_nodes_def)
  have "cl_l1 c = Some (NewL1Cache 1000 (5000 * Millisecond))" using add_nodes_l1 [OF c [unfolded NewClient_def Let_def]] by simp
  moreover have "l1_shown (NewL1Cache n t) = Map.empty" for n t
    by (simp add: fun_eq_iff l1_shown_def lru_find_def l1_abs_def NewL1Cache_def)
  ultimately have free: "l1_free (fst ` set testData) c" using NewL1Cache_inv by (simp add: l1_free_def)
  let ?kvs = "map (\<lambda>(k, v). (k, bytes_of v)) (rng1 testData)"
  obtain c1 w1 where set: "set_keys sset fl (rng1 testData) c w = (c1, w1, map (\<lambda>(k, v). Set_line k v) (rng1 testData), Exit_ok)"
    "connected fl c1" "l1_free (fst ` set testData) c1" "view w1 = view w ++ map_of (rev ?kvs)"
    by (rule set_keys_keep [OF assms(1) conn free])
  have dist: "distinct (map fst testData)" by (simp add: testData_def)
  then have d1: "distinct (map fst (rev ?kvs))" "distinct (map fst (rng2 testData))"
    using range_order.rng_distinct [OF assms(4), of fst testData] range_order.rng_distinct [OF assms(5), of fst testData]
    by (simp_all add: o_def case_prod_beta flip: rev_map)
  have view: "view w1 k = Some (bytes_of v)" if "(k, v) \<in> set testData" for k v
  proof -
    have "(k, bytes_of v) \<in> set (rev ?kvs)" using that range_order.rng_set [OF assms(4), of testData] by force
    then have "map_of (rev ?kvs) k = Some (bytes_of v)" using d1(1) by (metis map_of_eq_Some_iff)
    then show ?thesis by (simp add: set(4))
  qed
  let ?f = "\<lambda>k. bytes_of (the (map_of testData k))"
  have of: "map_of testData k = Some v" if "(k, v) \<in> set testData" for k v using dist that by simp
  have set2: "set (rng2 testData) = set testData" by (rule range_order.rng_set [OF assms(5)])
  have "\<forall>k \<in> set (map fst (rng2 testData)). view w1 k = Some (?f k)" using view of by (auto simp: set2)
  with get_keys_keep [OF assms(1) set(2) _ d1(2), of w1 ?f now 0] set(3) obtain c2 w2 where
    "get_keys sget fl now 0 (map fst (rng2 testData)) c1 w1 = (c2, w2, map (\<lambda>k. Retrieved_line k (?f k)) (map fst (rng2 testData)), Exit_ok)"
    by (auto simp: set2)
  moreover have "map (\<lambda>k. Retrieved_line k (?f k)) (map fst (rng2 testData)) = map (\<lambda>(k, v). Retrieved_line k (bytes_of v)) (rng2 testData)"
    using of by (auto simp: set2)
  ultimately show ?thesis using c set(1) by (simp add: client_main_def)
qed

end
