(* ===== verification/Lifecycle.thy ===== *)
theory Lifecycle
  imports Node
begin

text \<open>
  The life of a node's process: the goroutines that \<open>cmd/cachenode/main.go\<close> starts, the statement
  the main goroutine has reached after the signal, and the \<open>Start\<close> and \<open>Stop\<close> methods it calls.
  Between two statements of \<open>main\<close> the goroutines still alive may do anything they do.

  A panic in any goroutine ends the process (\<open>Crashed\<close>), as does \<open>log.Fatalf\<close> (\<open>Fatal\<close>).
\<close>

section \<open>Listeners and background loops\<close>

text \<open>
  \<open>grpcSrv.Start\<close> and \<open>httpSrv.Start\<close> run in goroutines of their own, so \<open>Stop\<close> may find that the
  server does not exist yet (\<open>L_off\<close>) and do nothing, or that it exists and does not serve yet
  (\<open>L_created\<close>). A gRPC server stopped before \<open>Serve\<close> makes \<open>Serve\<close> return an error (\<open>L_refused\<close>).
  The \<open>Start\<close> functions are one step each: \<open>listen_ok\<close> is whether the address could be bound, and
  \<open>None\<close> an error returned to \<open>main\<close>.
\<close>

datatype listener = L_off | L_created | L_serving | L_refused | L_stopped

fun grpc_Start :: "bool \<Rightarrow> listener \<Rightarrow> listener option" where
  "grpc_Start listen_ok L_off = (if listen_ok then Some L_created else None)"
| "grpc_Start listen_ok L_created = Some L_serving"
| "grpc_Start listen_ok L_refused = None"
| "grpc_Start listen_ok L_serving = Some L_serving"
| "grpc_Start listen_ok L_stopped = Some L_stopped"

fun grpc_Stop :: "listener \<Rightarrow> listener" where
  "grpc_Stop L_off = L_off"
| "grpc_Stop L_created = L_refused"
| "grpc_Stop L_refused = L_refused"
| "grpc_Stop L_serving = L_stopped"
| "grpc_Stop L_stopped = L_stopped"

text \<open>An HTTP server binds its address inside \<open>ListenAndServe\<close>, and \<open>main\<close> only logs its error.\<close>

fun http_Start :: "bool \<Rightarrow> listener \<Rightarrow> listener" where
  "http_Start listen_ok L_off = L_created"
| "http_Start listen_ok L_created = (if listen_ok then L_serving else L_stopped)"
| "http_Start listen_ok l = l"

fun http_Stop :: "listener \<Rightarrow> listener" where
  "http_Stop L_off = L_off"
| "http_Stop l = L_stopped"

text \<open>
  The loops of the detector and of the sweeper wait for their ticker and for \<open>stopCh\<close>. \<open>Stop\<close> closes
  the channel, which panics when it is closed already, and waits for the loop to return.
\<close>

record Loop =
  lp_stopCh :: bool
  lp_running :: bool

definition loop_Start :: Loop where
  "loop_Start = \<lparr>lp_stopCh = False, lp_running = True\<rparr>"

definition loop_Stop :: "Loop \<Rightarrow> Loop option" where
  "loop_Stop l = (if lp_stopCh l then None else Some (l\<lparr>lp_stopCh := True\<rparr>))"

definition loop_return :: "Loop \<Rightarrow> Loop" where
  "loop_return l = (if lp_stopCh l then l\<lparr>lp_running := False\<rparr> else l)"

section \<open>The process\<close>

datatype phase =
    Serving | Stop_http | Stop_swim | Wait_swim | Close_rm | Stop_detector | Wait_detector
  | Stop_sweeper | Wait_sweeper | Exited | Fatal | Crashed

text \<open>\<open>pr_quiet\<close> is not in the program: it records whether anything was under way when \<open>Close\<close> ran.\<close>

record Process =
  pr_node :: Node
  pr_phase :: phase
  pr_grpc :: listener
  pr_http :: listener
  pr_detector :: Loop
  pr_sweeper :: Loop
  pr_quiet :: bool

definition main_process :: "Config \<Rightarrow> (VNode list \<Rightarrow> VNode list) \<Rightarrow> instant \<Rightarrow> Process option" where
  "main_process cfg sortf now =
     map_option (\<lambda>n. \<lparr>pr_node = n, pr_phase = Serving, pr_grpc = L_off, pr_http = L_off,
                       pr_detector = loop_Start, pr_sweeper = loop_Start, pr_quiet = True\<rparr>) (main_node cfg sortf now)"

definition live :: "phase \<Rightarrow> bool" where
  "live ph \<longleftrightarrow> ph \<noteq> Exited \<and> ph \<noteq> Fatal \<and> ph \<noteq> Crashed"

definition set_cs :: "CacheServer \<Rightarrow> Process \<Rightarrow> Process" where
  "set_cs cs p = p\<lparr>pr_node := (pr_node p)\<lparr>nd_cs := cs\<rparr>\<rparr>"

definition set_sw :: "Swim \<Rightarrow> Process \<Rightarrow> Process" where
  "set_sw sw p = p\<lparr>pr_node := (pr_node p)\<lparr>nd_sw := sw\<rparr>\<rparr>"

abbreviation p_cs :: "Process \<Rightarrow> CacheServer" where
  "p_cs p \<equiv> nd_cs (pr_node p)"

abbreviation p_sw :: "Process \<Rightarrow> Swim" where
  "p_sw p \<equiv> nd_sw (pr_node p)"

text \<open>Nothing is under way: no timer, no alarm, no event and no replication goroutine.\<close>

definition still :: "Swim \<Rightarrow> bool" where
  "still s \<longleftrightarrow> sw_stopped s \<and> sw_done s \<and> sw_ping s = PingIdle \<and> sw_recv s = RecvIdle \<and> m_armed (sw_m s) = [] \<and> m_fired (sw_m s) = []"

definition quiet :: "Process \<Rightarrow> bool" where
  "quiet p \<longleftrightarrow> pr_grpc p = L_stopped \<and> cs_sends (p_cs p) = [] \<and> nd_done (pr_node p) = length (m_events (sw_m (p_sw p))) \<and>
     still (p_sw p)"

inductive proc_step :: "Process \<Rightarrow> Process \<Rightarrow> bool" where
  run_protocol: "live (pr_phase p) \<Longrightarrow> swim_step (p_sw p) sw \<Longrightarrow> sw_stopped sw = sw_stopped (p_sw p) \<Longrightarrow>
    sw_done sw = sw_done (p_sw p) \<Longrightarrow> proc_step p (set_sw sw p)"
| run_event: "live (pr_phase p) \<Longrightarrow> nd_done (pr_node p) < length (m_events (sw_m (p_sw p))) \<Longrightarrow> node_env_ok env \<Longrightarrow>
    proc_step p (p\<lparr>pr_node := (pr_node p)\<lparr>nd_cs := on_event env (m_registry (sw_m (p_sw p))) (p_cs p)
      (m_events (sw_m (p_sw p)) ! nd_done (pr_node p)), nd_done := Suc (nd_done (pr_node p))\<rparr>\<rparr>)"
| run_call: "live (pr_phase p) \<Longrightarrow> pr_grpc p = L_serving \<Longrightarrow> proc_step p (set_cs (fst (ServiceDesc cenv call (p_cs p))) p)"
| run_chaos: "live (pr_phase p) \<Longrightarrow> pr_http p = L_serving \<Longrightarrow> cs_fi (p_cs p) = Some fi \<Longrightarrow>
    chaos_route rng fi meth req = (fi', resp) \<Longrightarrow>
    proc_step p (set_sw ((p_sw p)\<lparr>sw_m := SetFaultInjector (sw_m (p_sw p)) (Some fi')\<rparr>) (set_cs ((p_cs p)\<lparr>cs_fi := Some fi'\<rparr>) p))"
| run_sweep: "live (pr_phase p) \<Longrightarrow> lp_running (pr_sweeper p) \<Longrightarrow> env_ok senv \<Longrightarrow> \<forall>j. env_now senv j \<le> t \<Longrightarrow>
    i < length (shards (cs_store (p_cs p))) \<Longrightarrow> sweepShard senv i 0 (cs_store (p_cs p)) = Some s \<Longrightarrow>
    proc_step p (set_cs ((p_cs p)\<lparr>cs_store := s\<rparr>) p)"
| run_decay: "live (pr_phase p) \<Longrightarrow> lp_running (pr_detector p) \<Longrightarrow>
    proc_step p (set_cs ((p_cs p)\<lparr>cs_detector := decay_tick (cs_detector (p_cs p))\<rparr>) p)"
| run_send: "live (pr_phase p) \<Longrightarrow> cs_rm (p_cs p) = Some rm \<Longrightarrow> q \<in> set (cs_sends (p_cs p)) \<Longrightarrow>
    sendReplicate rm q now ok = Some rm' \<Longrightarrow>
    proc_step p (set_cs ((p_cs p)\<lparr>cs_rm := Some rm', cs_sends := remove1 q (cs_sends (p_cs p))\<rparr>) p)"
| send_panic: "live (pr_phase p) \<Longrightarrow> cs_rm (p_cs p) = Some rm \<Longrightarrow> q \<in> set (cs_sends (p_cs p)) \<Longrightarrow>
    sendReplicate rm q now ok = None \<Longrightarrow> proc_step p (p\<lparr>pr_phase := Crashed\<rparr>)"
| handler_panic: "live (pr_phase p) \<Longrightarrow> cs_panicked (p_cs p) \<Longrightarrow> proc_step p (p\<lparr>pr_phase := Crashed\<rparr>)"
| run_grpc: "live (pr_phase p) \<Longrightarrow> grpc_Start listen_ok (pr_grpc p) = Some l \<Longrightarrow> proc_step p (p\<lparr>pr_grpc := l\<rparr>)"
| grpc_fatal: "live (pr_phase p) \<Longrightarrow> grpc_Start listen_ok (pr_grpc p) = None \<Longrightarrow> proc_step p (p\<lparr>pr_phase := Fatal\<rparr>)"
| run_http: "live (pr_phase p) \<Longrightarrow> proc_step p (p\<lparr>pr_http := http_Start listen_ok (pr_http p)\<rparr>)"
| detector_return: "live (pr_phase p) \<Longrightarrow> proc_step p (p\<lparr>pr_detector := loop_return (pr_detector p)\<rparr>)"
| sweeper_return: "live (pr_phase p) \<Longrightarrow> proc_step p (p\<lparr>pr_sweeper := loop_return (pr_sweeper p)\<rparr>)"
| grpc_stop: "pr_phase p = Serving \<Longrightarrow> proc_step p (p\<lparr>pr_phase := Stop_http, pr_grpc := grpc_Stop (pr_grpc p)\<rparr>)"
| http_stop: "pr_phase p = Stop_http \<Longrightarrow> proc_step p (p\<lparr>pr_phase := Stop_swim, pr_http := http_Stop (pr_http p)\<rparr>)"
| swim_stop: "pr_phase p = Stop_swim \<Longrightarrow> \<not> sw_stopped (p_sw p) \<Longrightarrow>
    proc_step p ((set_sw ((p_sw p)\<lparr>sw_m := swim_Stop (sw_m (p_sw p)), sw_stopped := True\<rparr>) p)\<lparr>pr_phase := Wait_swim\<rparr>)"
| swim_stop_panic: "pr_phase p = Stop_swim \<Longrightarrow> sw_stopped (p_sw p) \<Longrightarrow> proc_step p (p\<lparr>pr_phase := Crashed\<rparr>)"
| swim_wait: "pr_phase p = Wait_swim \<Longrightarrow> sw_ping (p_sw p) = PingIdle \<Longrightarrow> sw_recv (p_sw p) = RecvIdle \<Longrightarrow>
    proc_step p ((set_sw ((p_sw p)\<lparr>sw_m := stop_timers (sw_m (p_sw p)), sw_done := True\<rparr>) p)\<lparr>pr_phase := Close_rm\<rparr>)"
| rm_close: "pr_phase p = Close_rm \<Longrightarrow> cs_rm (p_cs p) = Some rm \<Longrightarrow> rm_Close rm = Some rm' \<Longrightarrow>
    proc_step p ((set_cs ((p_cs p)\<lparr>cs_rm := Some rm'\<rparr>) p)\<lparr>pr_phase := Stop_detector, pr_quiet := quiet p\<rparr>)"
| rm_close_panic: "pr_phase p = Close_rm \<Longrightarrow> cs_rm (p_cs p) = Some rm \<Longrightarrow> rm_Close rm = None \<Longrightarrow>
    proc_step p (p\<lparr>pr_phase := Crashed\<rparr>)"
| detector_stop: "pr_phase p = Stop_detector \<Longrightarrow> loop_Stop (pr_detector p) = Some l \<Longrightarrow>
    proc_step p (p\<lparr>pr_phase := Wait_detector, pr_detector := l\<rparr>)"
| detector_stop_panic: "pr_phase p = Stop_detector \<Longrightarrow> loop_Stop (pr_detector p) = None \<Longrightarrow> proc_step p (p\<lparr>pr_phase := Crashed\<rparr>)"
| detector_wait: "pr_phase p = Wait_detector \<Longrightarrow> \<not> lp_running (pr_detector p) \<Longrightarrow> proc_step p (p\<lparr>pr_phase := Stop_sweeper\<rparr>)"
| sweeper_stop: "pr_phase p = Stop_sweeper \<Longrightarrow> loop_Stop (pr_sweeper p) = Some l \<Longrightarrow>
    proc_step p (p\<lparr>pr_phase := Wait_sweeper, pr_sweeper := l\<rparr>)"
| sweeper_stop_panic: "pr_phase p = Stop_sweeper \<Longrightarrow> loop_Stop (pr_sweeper p) = None \<Longrightarrow> proc_step p (p\<lparr>pr_phase := Crashed\<rparr>)"
| sweeper_wait: "pr_phase p = Wait_sweeper \<Longrightarrow> \<not> lp_running (pr_sweeper p) \<Longrightarrow> proc_step p (p\<lparr>pr_phase := Exited\<rparr>)"

inductive proc_reach :: "Config \<Rightarrow> Process \<Rightarrow> bool" for cfg where
  proc_start: "vnode_sort sortf \<Longrightarrow> main_process cfg sortf now = Some p \<Longrightarrow> proc_reach cfg p"
| proc_next: "proc_reach cfg p \<Longrightarrow> proc_step p p' \<Longrightarrow> proc_reach cfg p'"

section \<open>What stays closed and what stays quiet\<close>

definition rm_state :: "CacheServer \<Rightarrow> bool option" where
  "rm_state cs = map_option rm_closed (cs_rm cs)"

lemma replicate_to_closed: "replicate_to r rm key mk = Some (rm', sends) \<Longrightarrow> rm_closed rm' = rm_closed rm"
  by (auto simp: replicate_to_def Let_def split: option.splits if_splits)

lemma replicate_closed:
  "rm_state (replicate_if_primary (\<lambda>r rm. ReplicateWrite r rm k v t) key cs) = rm_state cs"
  "rm_state (replicate_if_primary (\<lambda>r rm. ReplicateDelete r rm k) key cs) = rm_state cs"
  by (auto simp: rm_state_def replicate_if_primary_def ReplicateWrite_def ReplicateDelete_def dest: replicate_to_closed
      split: option.split)

lemma server_closed:
  assumes "loads_ok (cs_ring cs)"
  shows "rm_state (fst (server_Get gpc clk gq cs)) = rm_state cs" "rm_state (fst (server_Set spc clk sq cs)) = rm_state cs"
    "rm_state (fst (server_Delete dpc dq cs)) = rm_state cs" "rm_state (fst (server_Expire epc clk eq cs)) = rm_state cs"
  by (simp_all add: server_Get_eq server_Set_eq server_Delete_eq server_Expire_eq assms replicate_closed Let_def
      split: option.split prod.split) (simp_all add: rm_state_def get_local_frame)

lemma ServiceDesc_closed:
  assumes "node_inv cs"
  shows "rm_state (fst (ServiceDesc env call cs)) = rm_state cs"
proof -
  note closed = server_closed [OF node_inv_loads [OF assms]]
  note cases = handle_unary_cases [where P = "\<lambda>h. rm_state (fst h) = rm_state cs"]
  have rest: "rm_state (fst (server_Keys rng now kq cs)) = rm_state cs" "rm_state (fst (server_Ping clk u cs)) = rm_state cs"
    "rm_state (fst (server_Replicate clk rq cs)) = rm_state cs" for rng now kq clk u rq
    by (simp_all add: server_Keys_def server_Ping_def server_Replicate_def Let_def rm_state_def)
  show ?thesis
    unfolding ServiceDesc_def Let_def handle_defs
    by (cases call) (simp_all only: rpc_call.case fst_tag, (rule cases; simp add: closed rest)+)
qed

lemma rerep_step_closed:
  assumes "fst (rerep_step r st k v t) = Some (rm', sends, n)"
  obtains rm sends0 n0 where "st = Some (rm, sends0, n0)" "rm_closed rm' = rm_closed rm"
  using assms by (fastforce simp: rerep_step_def ReplicateWrite_def dest!: replicate_to_closed split: option.splits if_splits)

lemma HandleNodeFailure_closed:
  assumes "HandleNodeFailure rng s r rm dead now = Some (rm', sends, n)"
  shows "rm_closed rm' = rm_closed rm"
proof -
  let ?P = "\<lambda>st :: rerep. \<forall>rm' sends n. st = Some (rm', sends, n) \<longrightarrow> rm_closed rm' = rm_closed rm"
  have "?P (foldl (\<lambda>st (k, e). fst (rerep_step r st k (eValue e) (remaining_ttl now e))) (Some (DisconnectPeer rm dead, [], 0)) xs)" for xs
    by (rule foldl_invariant [where P = ?P]) (simp add: DisconnectPeer_def, auto elim!: rerep_step_closed)
  then show ?thesis
    using assms unfolding HandleNodeFailure_def reReplicateForDeadNode_def ForEach_foldl [OF rerep_snd] by blast
qed

lemma ring_callback_closed: "rm_state (ring_callback env reg cs c) = rm_state cs"
proof (cases c)
  case (CallRemoved k)
  then show ?thesis by (auto simp: rm_state_def dest: HandleNodeFailure_closed split: option.split)
next
  case (CallAdded k)
  then show ?thesis by (auto simp: rm_state_def connect_peer_def ConnectToPeer_def option.map_comp o_def split: option.split intro!: option.map_cong)
qed

lemma connect_peer_closed: "rm_state (connect_peer env k a cs) = rm_state cs"
  by (cases "cs_rm cs") (simp_all add: rm_state_def connect_peer_def ConnectToPeer_def)

lemma ring_callbacks_closed: "rm_state (foldl (ring_callback env reg) cs calls) = rm_state cs"
  by (induction calls arbitrary: cs) (simp_all add: ring_callback_closed)

lemma rm_state_ring [simp]: "rm_state (cs\<lparr>cs_ring := r\<rparr>) = rm_state cs"
  by (simp add: rm_state_def)

lemma on_event_closed: "rm_state (on_event env reg cs ev) = rm_state cs"
  by (cases ev)
    (auto simp: node_up_def node_down_def ring_callbacks_closed connect_peer_closed Let_def split: option.split prod.split,
      simp_all add: rm_state_def)

lemma sendReplicate_closed:
  "sendReplicate rm q now ok = Some rm' \<Longrightarrow> rm_closed rm' = rm_closed rm"
  "sendReplicate rm q now ok = None \<longleftrightarrow> rm_closed rm"
  by (cases q; auto simp: sendReplicate_def emitEvent_def Let_def split: option.splits if_splits)+

lemma JoinCluster_frame:
  "m_events (fst (JoinCluster resolve written m seeds)) = m_events m \<and> m_armed (fst (JoinCluster resolve written m seeds)) = m_armed m \<and>
    m_fired (fst (JoinCluster resolve written m seeds)) = m_fired m"
  unfolding JoinCluster_def
  by (simp, rule impI, rule foldl_invariant [where P = "\<lambda>p. m_events (fst p) = m_events m \<and> m_armed (fst p) = m_armed m \<and> m_fired (fst p) = m_fired m"])
    (auto simp: WriteToUDP_def split: option.splits)

lemma still_step:
  assumes "still s" "swim_step s s'"
  shows "still s' \<and> m_events (sw_m s') = m_events (sw_m s)"
  using assms(2)
proof cases
  case (join resolve written seeds m ok)
  with JoinCluster_frame [of resolve written "sw_m s" seeds] assms(1) show ?thesis by (simp add: still_def)
next
  case shutdown
  with assms(1) show ?thesis by (simp add: still_def stop_timers_fields)
qed (use assms(1) in \<open>auto simp: still_def SetFaultInjector_def SetOnEvent_def\<close>)

section \<open>The invariant of the process\<close>

fun rank :: "phase \<Rightarrow> nat" where
  "rank Serving = 0" | "rank Stop_http = 1" | "rank Stop_swim = 2" | "rank Wait_swim = 3" | "rank Close_rm = 4"
| "rank Stop_detector = 5" | "rank Wait_detector = 6" | "rank Stop_sweeper = 7" | "rank Wait_sweeper = 8"
| "rank Exited = 9" | "rank Fatal = 10" | "rank Crashed = 10"

definition control_ok :: "Process \<Rightarrow> bool" where
  "control_ok p \<longleftrightarrow>
     rm_state (p_cs p) = Some (5 \<le> rank (pr_phase p)) \<and> sw_stopped (p_sw p) = (3 \<le> rank (pr_phase p)) \<and>
     (4 \<le> rank (pr_phase p) \<longrightarrow> sw_done (p_sw p)) \<and>
     lp_stopCh (pr_detector p) = (6 \<le> rank (pr_phase p)) \<and> (7 \<le> rank (pr_phase p) \<longrightarrow> \<not> lp_running (pr_detector p)) \<and>
     lp_stopCh (pr_sweeper p) = (8 \<le> rank (pr_phase p)) \<and> (9 \<le> rank (pr_phase p) \<longrightarrow> \<not> lp_running (pr_sweeper p)) \<and>
     (5 \<le> rank (pr_phase p) \<longrightarrow> pr_quiet p \<longrightarrow> quiet p)"

definition proc_inv :: "Config \<Rightarrow> Process \<Rightarrow> bool" where
  "proc_inv cfg p \<longleftrightarrow>
     (if pr_phase p = Fatal then True else if pr_phase p = Crashed then \<not> pr_quiet p
      else node_ok cfg (pr_node p) \<and> control_ok p)"

lemma set_simps [simp]:
  "pr_phase (set_cs cs p) = pr_phase p" "pr_phase (set_sw sw p) = pr_phase p" "pr_grpc (set_cs cs p) = pr_grpc p"
  "pr_grpc (set_sw sw p) = pr_grpc p" "pr_detector (set_cs cs p) = pr_detector p" "pr_detector (set_sw sw p) = pr_detector p"
  "pr_sweeper (set_cs cs p) = pr_sweeper p" "pr_sweeper (set_sw sw p) = pr_sweeper p" "pr_quiet (set_cs cs p) = pr_quiet p"
  "pr_quiet (set_sw sw p) = pr_quiet p" "pr_node (set_cs cs p) = (pr_node p)\<lparr>nd_cs := cs\<rparr>"
  "pr_node (set_sw sw p) = (pr_node p)\<lparr>nd_sw := sw\<rparr>"
  by (simp_all add: set_cs_def set_sw_def)

lemma live_rank: "live ph \<longleftrightarrow> rank ph < 9"
  by (cases ph) (simp_all add: live_def)

lemma live_inv:
  assumes "proc_inv cfg p" "live (pr_phase p)"
  shows "node_ok cfg (pr_node p)" "control_ok p"
  using assms by (simp_all add: proc_inv_def live_def)

lemma proc_invI:
  "node_ok cfg (pr_node p) \<Longrightarrow> control_ok p \<Longrightarrow> live (pr_phase p) \<or> pr_phase p = Exited \<Longrightarrow> proc_inv cfg p"
  by (auto simp: proc_inv_def live_def)

lemma rm_state_frame [simp]:
  "rm_state (cs\<lparr>cs_fi := fi\<rparr>) = rm_state cs" "rm_state (cs\<lparr>cs_store := s\<rparr>) = rm_state cs"
  "rm_state (cs\<lparr>cs_detector := d\<rparr>) = rm_state cs" "rm_state (cs\<lparr>cs_rm := Some rm, cs_sends := qs\<rparr>) = Some (rm_closed rm)"
  "rm_state (cs\<lparr>cs_rm := Some rm\<rparr>) = Some (rm_closed rm)"
  by (simp_all add: rm_state_def)

text \<open>Steps of the goroutines: the control part does not change, and what is quiet stays quiet.\<close>

lemma control_cs:
  assumes "control_ok p" "rm_state cs = rm_state (p_cs p)"
    and "pr_grpc p = L_serving \<or> cs_sends cs = cs_sends (p_cs p) \<or> cs_sends (p_cs p) \<noteq> []"
  shows "control_ok (set_cs cs p)"
  using assms by (auto simp: control_ok_def quiet_def)

lemma control_sw:
  assumes "control_ok p" "swim_step (p_sw p) sw" "sw_stopped sw = sw_stopped (p_sw p)" "sw_done sw = sw_done (p_sw p)"
  shows "control_ok (set_sw sw p)"
proof -
  have "quiet (set_sw sw p)" if "quiet p"
    using still_step [OF _ assms(2)] that by (simp add: quiet_def)
  then show ?thesis using assms(1,3,4) by (auto simp: control_ok_def)
qed

lemma loop_return_simps [simp]:
  "lp_stopCh (loop_return l) = lp_stopCh l" "lp_running (loop_return l) = (lp_running l \<and> \<not> lp_stopCh l)"
  by (simp_all add: loop_return_def)

lemma control_fields:
  assumes "control_ok p"
  shows "grpc_Start listen_ok (pr_grpc p) = Some l \<Longrightarrow> control_ok (p\<lparr>pr_grpc := l\<rparr>)" "control_ok (p\<lparr>pr_http := h\<rparr>)"
    "control_ok (p\<lparr>pr_detector := loop_return (pr_detector p)\<rparr>)" "control_ok (p\<lparr>pr_sweeper := loop_return (pr_sweeper p)\<rparr>)"
  using assms by (auto simp: control_ok_def quiet_def)

lemma run_step_inv:
  assumes step: "proc_step p p'" and inv: "proc_inv cfg p" and live: "live (pr_phase p)" "pr_phase p' = pr_phase p"
  shows "proc_inv cfg p'"
proof -
  note ok = live_inv [OF inv live(1)]
  note nd = node_ok_inv [OF ok(1)]
  have "node_ok cfg (pr_node p') \<and> control_ok p'"
    using step
  proof cases
    case (run_protocol sw)
    then show ?thesis using node_ok_swim [OF ok(1)] control_sw [OF ok(2)] by simp
  next
    case (run_event env)
    have "control_ok p'"
      using ok(2) run_event(3) unfolding run_event(1) by (auto simp: control_ok_def quiet_def on_event_closed)
    then show ?thesis using node_ok_event [OF ok(1) run_event(3,4)] run_event(1) by simp
  next
    case (run_call cenv call)
    then show ?thesis
      using node_ok_call [OF ok(1), of cenv call] control_cs [OF ok(2) ServiceDesc_closed [OF nd]] by simp
  next
    case (run_chaos fi rng meth req fi' resp)
    have "control_ok (set_cs ((p_cs p)\<lparr>cs_fi := Some fi'\<rparr>) p)" by (rule control_cs [OF ok(2)]) simp_all
    from control_sw [OF this, of "(p_sw p)\<lparr>sw_m := SetFaultInjector (sw_m (p_sw p)) (Some fi')\<rparr>"]
    show ?thesis using node_ok_chaos [OF ok(1)] faults [of "\<lambda>_. True" "p_sw p" "Some fi'"] run_chaos(1) by simp
  next
    case (run_sweep senv t i s)
    then show ?thesis using node_ok_sweep [OF ok(1) run_sweep(4-7)] control_cs [OF ok(2)] by simp
  next
    case run_decay
    then show ?thesis using node_ok_decay [OF ok(1)] control_cs [OF ok(2)] by simp
  next
    case (run_send rm q now b rm')
    have "control_ok (set_cs ((p_cs p)\<lparr>cs_rm := Some rm', cs_sends := remove1 q (cs_sends (p_cs p))\<rparr>) p)"
      by (rule control_cs [OF ok(2)]) (use run_send sendReplicate_closed(1) [OF run_send(5)] in \<open>auto simp: rm_state_def\<close>)
    then show ?thesis using node_ok_send [OF ok(1) run_send(3,5)] run_send(1) by simp
  qed (use live ok control_fields [OF ok(2)] in \<open>auto simp: live_def\<close>)
  then show ?thesis using live by (auto intro: proc_invI)
qed

lemma main_step_inv:
  assumes step: "proc_step p p'" and inv: "proc_inv cfg p" and live: "live (pr_phase p)" "pr_phase p' \<noteq> pr_phase p"
  shows "proc_inv cfg p'"
proof -
  note ok = live_inv [OF inv live(1)]
  note ctl = ok(2) [unfolded control_ok_def]
  show ?thesis
    using step
  proof cases
    case (send_panic rm q now b)
    then have "rm_state (p_cs p) = Some True" using sendReplicate_closed(2) [of rm q now b] by (simp add: rm_state_def)
    with ctl send_panic show ?thesis by (auto simp: proc_inv_def quiet_def)
  next
    case handler_panic
    then show ?thesis using node_ok_inv [OF ok(1)] by (simp add: node_inv_def)
  next
    case swim_stop
    then show ?thesis
      using ctl node_ok_swim [OF ok(1) swim_move.stop [OF swim_stop(3)]] by (auto intro!: proc_invI simp: control_ok_def live_def)
  next
    case swim_wait
    then have "sw_stopped (p_sw p)" using ctl by simp
    from swim_move.shutdown [OF this swim_wait(3,4)] show ?thesis
      using swim_wait(1,2) ctl node_ok_swim [OF ok(1)] by (auto intro!: proc_invI simp: control_ok_def live_def)
  next
    case (rm_close rm rm')
    have rm': "rm' = rm\<lparr>rm_peerConns := [], rm_closed := True\<rparr>" using rm_close(4) by (auto simp: rm_Close_def split: if_splits)
    have "node_inv ((p_cs p)\<lparr>cs_rm := Some rm'\<rparr>)" using node_ok_inv [OF ok(1)] rm_close(3) by (simp add: node_inv_def rm')
    from node_ok_cs [OF ok(1) this] have "node_ok cfg (pr_node p')" by (simp add: rm_close(1))
    moreover have "sw_done (p_sw p)" using ctl rm_close(2) by simp
    ultimately show ?thesis
      using ctl rm_close(1,2) by (auto intro!: proc_invI simp: control_ok_def live_def rm' quiet_def)
  next
    case (rm_close_panic rm)
    then show ?thesis using ctl by (auto simp: rm_Close_def rm_state_def)
  qed (use live ok(1) ctl in \<open>auto intro!: proc_invI simp: proc_inv_def control_ok_def live_def loop_Stop_def quiet_def split: if_splits\<close>)
qed

lemma proc_step_live: "proc_step p p' \<Longrightarrow> live (pr_phase p)"
  by (cases rule: proc_step.cases) (auto simp: live_def)

lemma main_process_inv:
  assumes "vnode_sort sortf" "main_process cfg sortf now = Some p" "Validate cfg = None"
  shows "proc_inv cfg p"
proof -
  obtain n where n: "main_node cfg sortf now = Some n" and p: "p = \<lparr>pr_node = n, pr_phase = Serving, pr_grpc = L_off,
      pr_http = L_off, pr_detector = loop_Start, pr_sweeper = loop_Start, pr_quiet = True\<rparr>"
    using assms(2) by (auto simp: main_process_def)
  have "rm_state (nd_cs n) = Some False" "\<not> sw_stopped (nd_sw n)"
    using n by (auto simp: main_node_def main_server_def NewCacheServer_def NewReplicationManager_def rm_state_def swim_init_def Let_def
        split: option.splits)
  then show ?thesis
    using main_node_ok [OF assms(1) n assms(3)] by (intro proc_invI) (simp_all add: p control_ok_def live_def loop_Start_def)
qed

lemma proc_reach_inv: "proc_reach cfg p \<Longrightarrow> Validate cfg = None \<Longrightarrow> proc_inv cfg p"
proof (induction rule: proc_reach.induct)
  case (proc_next p p')
  then show ?case using run_step_inv main_step_inv proc_step_live by blast
qed (rule main_process_inv)

section \<open>The shutdown can always complete\<close>

definition can_exit :: "Process \<Rightarrow> bool" where
  "can_exit p \<longleftrightarrow> (\<exists>p'. proc_step\<^sup>*\<^sup>* p p' \<and> pr_phase p' = Exited)"

lemma can_exit_step: "proc_step p p' \<Longrightarrow> can_exit p' \<Longrightarrow> can_exit p"
  unfolding can_exit_def by (blast intro: converse_rtranclp_into_rtranclp)

lemma exit_sweeper:
  assumes "control_ok p" "pr_phase p = Wait_sweeper"
  shows "can_exit p"
proof -
  let ?p = "p\<lparr>pr_sweeper := loop_return (pr_sweeper p)\<rparr>"
  have "proc_step p ?p" using assms(2) by (intro sweeper_return) (simp add: live_def)
  moreover have "proc_step ?p (?p\<lparr>pr_phase := Exited\<rparr>)"
    by (rule sweeper_wait) (use assms in \<open>simp_all add: control_ok_def\<close>)
  ultimately show ?thesis unfolding can_exit_def
    by (metis (no_types, lifting) converse_rtranclp_into_rtranclp rtranclp.rtrancl_refl Process.select_convs(2) Process.surjective Process.update_convs(2))
qed

lemma exit_stop_sweeper:
  assumes "control_ok p" "pr_phase p = Stop_sweeper"
  shows "can_exit p"
proof (rule can_exit_step)
  let ?l = "(pr_sweeper p)\<lparr>lp_stopCh := True\<rparr>"
  show "proc_step p (p\<lparr>pr_phase := Wait_sweeper, pr_sweeper := ?l\<rparr>)"
    by (rule sweeper_stop) (use assms in \<open>simp_all add: control_ok_def loop_Stop_def\<close>)
  show "can_exit (p\<lparr>pr_phase := Wait_sweeper, pr_sweeper := ?l\<rparr>)"
    by (rule exit_sweeper) (use assms in \<open>auto simp: control_ok_def quiet_def\<close>)
qed

lemma exit_detector:
  assumes "control_ok p" "pr_phase p = Wait_detector"
  shows "can_exit p"
proof (rule can_exit_step)
  let ?p = "p\<lparr>pr_detector := loop_return (pr_detector p)\<rparr>"
  show "proc_step p ?p" using assms(2) by (intro detector_return) (simp add: live_def)
  show "can_exit ?p"
  proof (rule can_exit_step)
    show "proc_step ?p (?p\<lparr>pr_phase := Stop_sweeper\<rparr>)"
      by (rule detector_wait) (use assms in \<open>simp_all add: control_ok_def\<close>)
    show "can_exit (?p\<lparr>pr_phase := Stop_sweeper\<rparr>)"
      by (rule exit_stop_sweeper) (use assms in \<open>auto simp: control_ok_def quiet_def\<close>)
  qed
qed

lemma exit_stop_detector:
  assumes "control_ok p" "pr_phase p = Stop_detector"
  shows "can_exit p"
proof (rule can_exit_step)
  let ?p = "p\<lparr>pr_phase := Wait_detector, pr_detector := (pr_detector p)\<lparr>lp_stopCh := True\<rparr>\<rparr>"
  show "proc_step p ?p" by (rule detector_stop) (use assms in \<open>simp_all add: control_ok_def loop_Stop_def\<close>)
  show "can_exit ?p" by (rule exit_detector) (use assms in \<open>auto simp: control_ok_def quiet_def\<close>)
qed

lemma exit_close:
  assumes "control_ok p" "pr_phase p = Close_rm"
  shows "can_exit p"
proof -
  obtain rm where rm: "cs_rm (p_cs p) = Some rm" "\<not> rm_closed rm" using assms by (auto simp: control_ok_def rm_state_def)
  show ?thesis
  proof (rule can_exit_step [OF rm_close [OF assms(2) rm(1)]])
    show "rm_Close rm = Some (rm\<lparr>rm_peerConns := [], rm_closed := True\<rparr>)" by (simp add: rm_Close_def rm(2))
  qed (rule exit_stop_detector, use assms in \<open>auto simp: control_ok_def quiet_def\<close>)
qed

text \<open>The two loops of the protocol leave their waits when \<open>stopCh\<close> is closed.\<close>

definition first_env :: ping_env where
  "first_env = \<lparr>pe_rng = \<lambda>m. m, pe_rng2 = \<lambda>m. m, pe_Intn = \<lambda>_. 0, pe_shuffle = \<lambda>m. m, pe_resolve = \<lambda>_. None\<rparr>"

lemma first_env_inv: "env_inv first_env"
  by (simp add: env_inv_def first_env_def rng_insertion.range_order_axioms)

lemma exit_idle:
  assumes "control_ok p" "pr_phase p = Wait_swim" "sw_ping (p_sw p) = PingIdle" "sw_recv (p_sw p) = RecvIdle"
  shows "can_exit p"
  by (rule can_exit_step [OF swim_wait [OF assms(2-4)]], rule exit_close)
    (use assms(1,2) in \<open>auto simp: control_ok_def\<close>)

lemma exit_after:
  assumes "control_ok p" "pr_phase p = Wait_swim" "swim_step (p_sw p) sw" "sw_stopped sw = sw_stopped (p_sw p)"
    "sw_done sw = sw_done (p_sw p)" "control_ok (set_sw sw p) \<Longrightarrow> can_exit (set_sw sw p)"
  shows "can_exit p"
  by (rule can_exit_step [OF run_protocol [OF _ assms(3-5)]]) (use assms control_sw in \<open>simp_all add: live_def\<close>)

lemma exit_ping_idle:
  assumes "control_ok p" "pr_phase p = Wait_swim" "sw_ping (p_sw p) = PingIdle"
  shows "can_exit p"
proof (cases "sw_recv (p_sw p)")
  case RecvIdle
  then show ?thesis by (rule exit_idle [OF assms])
next
  case (RecvReq target info ch from')
  have "sw_stopped (p_sw p)" using assms(1,2) by (simp add: control_ok_def)
  from req_stop [OF RecvReq this] show ?thesis
    by (rule exit_after [OF assms(1,2)]) (use assms(2,3) in \<open>auto intro: exit_idle\<close>)
qed

lemma exit_wait_swim:
  assumes "control_ok p" "pr_phase p = Wait_swim"
  shows "can_exit p"
proof -
  have indirect: "can_exit p" if "control_ok p" "pr_phase p = Wait_swim" "sw_ping (p_sw p) = PingIndirect target ch" for p target ch
  proof -
    have "sw_stopped (p_sw p)" using that(1,2) by (simp add: control_ok_def)
    from indirect_stop [OF that(3) this] show ?thesis
      by (rule exit_after [OF that(1,2)]) (use that(2) in \<open>auto intro: exit_ping_idle\<close>)
  qed
  show ?thesis
  proof (cases "sw_ping (p_sw p)")
    case PingIdle
    then show ?thesis by (rule exit_ping_idle [OF assms])
  next
    case (PingIndirect target ch)
    then show ?thesis by (rule indirect [OF assms])
  next
    case (PingDirect target ch)
    have stopped: "sw_stopped (p_sw p)" using assms by (simp add: control_ok_def)
    obtain m pc where run: "ping_indirect first_env (sw_m (p_sw p)) target = (m, pc)"
      by (cases "ping_indirect first_env (sw_m (p_sw p)) target")
    then have pc: "pc = PingIdle \<or> (\<exists>ch. pc = PingIndirect target ch)"
      by (auto simp: ping_indirect_def split: prod.splits option.splits)
    show ?thesis
      by (rule exit_after [OF assms direct_stop [OF PingDirect stopped first_env_inv run]])
        (use assms(2) pc in \<open>auto intro: exit_ping_idle indirect\<close>)
  qed
qed

lemma exit_stop_swim:
  assumes "control_ok p" "pr_phase p = Stop_swim"
  shows "can_exit p"
proof (rule can_exit_step [OF swim_stop [OF assms(2)]])
  show "\<not> sw_stopped (p_sw p)" using assms by (simp add: control_ok_def)
qed (rule exit_wait_swim, use assms in \<open>auto simp: control_ok_def\<close>)

lemma exit_any:
  assumes "control_ok p" "live (pr_phase p) \<or> pr_phase p = Exited"
  shows "can_exit p"
proof -
  have http: "can_exit p" if "control_ok p" "pr_phase p = Stop_http" for p
    by (rule can_exit_step [OF http_stop [OF that(2)]], rule exit_stop_swim) (use that in \<open>auto simp: control_ok_def\<close>)
  have serving: "can_exit p" if "control_ok p" "pr_phase p = Serving" for p
    by (rule can_exit_step [OF grpc_stop [OF that(2)]], rule http) (use that in \<open>auto simp: control_ok_def\<close>)
  show ?thesis
    using assms serving http exit_stop_swim exit_wait_swim exit_close exit_stop_detector exit_detector exit_stop_sweeper exit_sweeper
    by (cases "pr_phase p") (auto simp: live_def can_exit_def)
qed

section \<open>How a process ends\<close>

text \<open>
  C7. Shutdown. In every state that the process of a node with an accepted configuration reaches,
  unless it has ended already, the shutdown can be brought to its end; an exited process has
  closed its replication manager, stopped the protocol and both background loops. The process
  does not panic before \<open>Close\<close>, and not after it either if at that moment the gRPC server was
  stopped and no event, alarm or replication goroutine was under way.
\<close>
theorem shutdown_outcome:
  assumes "Validate cfg = None" "proc_reach cfg p"
  shows "(pr_phase p \<noteq> Fatal \<and> pr_phase p \<noteq> Crashed \<longrightarrow>
      node_inv (p_cs p) \<and> (\<exists>p'. proc_step\<^sup>*\<^sup>* p p' \<and> pr_phase p' = Exited)) \<and>
    (pr_phase p = Exited \<longrightarrow> (\<exists>rm. cs_rm (p_cs p) = Some rm \<and> rm_closed rm) \<and> sw_done (p_sw p) \<and>
      \<not> lp_running (pr_detector p) \<and> \<not> lp_running (pr_sweeper p)) \<and>
    (pr_phase p = Crashed \<longrightarrow> \<not> pr_quiet p)"
proof -
  note inv = proc_reach_inv [OF assms(2,1)]
  have "node_inv (p_cs p)" "control_ok p" if "pr_phase p \<noteq> Fatal" "pr_phase p \<noteq> Crashed"
    using inv that by (auto simp: proc_inv_def dest: node_ok_inv)
  then show ?thesis
    using inv exit_any [of p] by (auto simp: live_def can_exit_def control_ok_def rm_state_def proc_inv_def)
qed

theorem shutdown_outcome_witness:
  "\<exists>p p'. main_process w_cfg (sort_key vHash) 0 = Some p \<and> proc_step\<^sup>*\<^sup>* p p' \<and> pr_phase p' = Exited"
proof -
  have "main_node w_cfg (sort_key vHash) 0 = Some (w_node (swim_init w_self))"
    by (simp add: main_node_def store_New_empty w_node_def w_cfg_def DefaultConfig_def)
  then obtain p where p: "main_process w_cfg (sort_key vHash) 0 = Some p" "pr_phase p = Serving"
    by (auto simp: main_process_def)
  have "Validate w_cfg = None" by (simp add: Validate_None w_cfg_def DefaultConfig_def Millisecond_def)
  from shutdown_outcome [OF this proc_start [OF stable_sort.vnode_sort_axioms p(1)]] p show ?thesis by auto
qed

text \<open>
  The condition is needed: \<open>main\<close> does not wait for the replication goroutines before it closes the
  channel their last statement sends on.
\<close>

lemma pending_send_crashes:
  assumes "Validate cfg = None" "proc_reach cfg p" "pr_phase p = Stop_detector" "q \<in> set (cs_sends (p_cs p))"
  shows "proc_step p (p\<lparr>pr_phase := Crashed\<rparr>)"
proof -
  have live: "live (pr_phase p)" by (simp add: assms(3) live_def)
  from live_inv(2) [OF proc_reach_inv [OF assms(2,1)] this] obtain rm where "cs_rm (p_cs p) = Some rm" "rm_closed rm"
    by (auto simp: control_ok_def rm_state_def assms(3))
  then show ?thesis using send_panic [OF live _ assms(4)] sendReplicate_closed(2) by blast
qed

end
