(* ===== verification/Network.thy ===== *)
theory Network
  imports Swim
begin

text \<open>
  The SWIM nodes of a cluster together. \<open>network\<close> gives each node its state; a step is a step
  of one node, and what a node can read from its socket is what some node has written. The
  packets are UDP: a written packet can reach any node, any number of times, at any later
  moment, or never. Every member runs the code of \<open>membership.go\<close> and is not restarted.
\<close>

section \<open>Nodes and packets\<close>

type_synonym network = "string \<Rightarrow> Swim"

definition in_flight :: "string set \<Rightarrow> network \<Rightarrow> SwimMessage \<Rightarrow> bool" where
  "in_flight M N msg \<longleftrightarrow> (\<exists>a \<in> M. msg \<in> snd ` set (m_out (sw_m (N a))))"

text \<open>\<open>net_run M self n N\<close>: the members \<open>M\<close>, started from \<open>self\<close>, are in state \<open>N\<close> after \<open>n\<close> steps.\<close>

inductive net_run :: "string set \<Rightarrow> (string \<Rightarrow> NodeInfo) \<Rightarrow> nat \<Rightarrow> network \<Rightarrow> bool" for M self where
  net_init: "(\<And>k. k \<in> M \<Longrightarrow> \<exists>g u h t. self k = NewNodeInfo k g u h t) \<Longrightarrow> net_run M self 0 (\<lambda>k. swim_init (self k))"
| net_step: "net_run M self n N \<Longrightarrow> a \<in> M \<Longrightarrow> swim_move (in_flight M N) (N a) s \<Longrightarrow> net_run M self (Suc n) (N(a := s))"

definition own_incarnation :: "network \<Rightarrow> string \<Rightarrow> u64" where
  "own_incarnation N k = m_incarnation (sw_m (N k))"

section \<open>Reports and their bounds\<close>

text \<open>A report is within bounds \<open>I\<close> if it is about a member and not ahead of it.\<close>

definition in_bounds :: "string set \<Rightarrow> (string \<Rightarrow> u64) \<Rightarrow> MembershipUpdate \<Rightarrow> bool" where
  "in_bounds M I u \<longleftrightarrow> u_NodeID u \<in> M \<and> u_Incarnation u \<le> I (u_NodeID u)"

definition honest_msg :: "string set \<Rightarrow> (string \<Rightarrow> u64) \<Rightarrow> SwimMessage \<Rightarrow> bool" where
  "honest_msg M I msg \<longleftrightarrow> distinct (map u_NodeID (s_Updates msg)) \<and> (\<forall>u \<in> set (s_Updates msg). in_bounds M I u)"

definition honest :: "string set \<Rightarrow> (string \<Rightarrow> u64) \<Rightarrow> Membership \<Rightarrow> bool" where
  "honest M I m \<longleftrightarrow>
     (\<forall>k info. reg_Get (m_registry m) k = Some info \<longrightarrow> k \<in> M \<and> n_Incarnation info \<le> I k) \<and>
     (\<forall>q \<in> set (m_updateQueue m). in_bounds M I (q_update q)) \<and>
     (\<forall>msg \<in> snd ` set (m_out m). honest_msg M I msg)"

lemma in_bounds_mono: "in_bounds M I u \<Longrightarrow> I (u_NodeID u) \<le> J (u_NodeID u) \<Longrightarrow> in_bounds M J u"
  by (auto simp: in_bounds_def)

lemma honest_msg_mono: "honest_msg M I msg \<Longrightarrow> (\<And>k. I k \<le> J k) \<Longrightarrow> honest_msg M J msg"
  by (auto simp: honest_msg_def intro: in_bounds_mono)

lemma honest_mono: "honest M I m \<Longrightarrow> (\<And>k. I k \<le> J k) \<Longrightarrow> honest M J m"
  unfolding honest_def by (meson in_bounds_mono honest_msg_mono order_trans)

lemma honestI:
  assumes "\<And>k info. reg_Get (m_registry m) k = Some info \<Longrightarrow> k \<in> M \<and> n_Incarnation info \<le> I k"
    and "\<And>q. q \<in> set (m_updateQueue m) \<Longrightarrow> in_bounds M I (q_update q)"
    and "\<And>a msg. (a, msg) \<in> set (m_out m) \<Longrightarrow> honest_msg M I msg"
  shows "honest M I m"
  using assms by (force simp: honest_def)

lemma honest_frame:
  assumes "honest M I m" "m_registry m' = m_registry m" "m_updateQueue m' = m_updateQueue m" "m_out m' = m_out m"
  shows "honest M I m'"
  using assms by (simp add: honest_def)

section \<open>Operations that write reports\<close>

lemma honest_queue:
  assumes "honest M I m" "in_bounds M I u"
  shows "honest M I (queueUpdate m u)" "honest M I (queueUpdateLocked m u)"
  using assms set_queue_add [of u "m_updateQueue m"]
  by (auto simp: honest_def queueUpdate_def queueUpdateLocked_def)

lemma honest_write: "honest M I m \<Longrightarrow> honest_msg M I msg \<Longrightarrow> honest M I (WriteToUDP m msg a)"
  by (auto simp: honest_def WriteToUDP_def)

lemma honest_quiet:
  assumes "honest M I m"
  shows "honest M I (swim_emit m ev)" "honest M I (cancel_timer m k)" "honest M I (start_timer m k)"
    "honest M I (ping_timeout m k)" "honest M I (SetOnEvent m)" "honest M I (SetFaultInjector m fi)"
    "honest M I (fire_timer t k m)" "honest M I (m\<lparr>m_fired := fs\<rparr>)"
    "honest M I (m\<lparr>m_nextChan := c, m_pendingAcks := p\<rparr>)" "honest M I (m\<lparr>m_selfInfo := si\<rparr>)"
  using assms
  by (auto intro!: honest_frame [OF assms] simp: swim_emit_def cancel_timer_def start_timer_def timer_Stop_def ping_timeout_def
      SetOnEvent_def SetFaultInjector_def fire_timer_def Let_def split: option.splits)

lemma honest_registry:
  assumes "honest M I m" "\<And>k info. reg_Get r k = Some info \<Longrightarrow> k \<in> M \<and> n_Incarnation info \<le> I k"
  shows "honest M I (m\<lparr>m_registry := r\<rparr>)"
  using assms by (simp add: honest_def)

lemma honest_status: "honest M I m \<Longrightarrow> honest M I (set_status m k st)"
  unfolding set_status_def by (rule honest_registry) (auto simp: SetStatus_def honest_def split: if_splits)

lemma in_bounds_status:
  "honest M I m \<Longrightarrow> reg_Get (m_registry m) k = Some info \<Longrightarrow> in_bounds M I (status_update k st (n_Incarnation info))"
  by (simp add: honest_def in_bounds_def status_update_def)

lemma drain_honest:
  assumes "honest M I m" "queue_ok (m_updateQueue m)" "drainUpdates m = (m', us)"
  shows "honest M I m'" "honest_msg M I (swim_msg m'' ty t us)"
proof -
  have "set (drained 10 (m_updateQueue m)) \<subseteq> set (m_updateQueue m) \<union> bump ` set (m_updateQueue m)"
    by (auto simp: drained_def unspent_def dest: in_set_takeD in_set_dropD)
  with assms show "honest M I m'" by (fastforce simp: drainUpdates_eq honest_def)
  have "distinct (map (\<lambda>q. u_NodeID (q_update q)) (take 10 (m_updateQueue m)))"
    using assms(2) by (simp add: queue_ok_def qid_def [abs_def] flip: take_map)
  with assms show "honest_msg M I (swim_msg m'' ty t us)"
    by (auto simp: drainUpdates_eq honest_msg_def swim_msg_def honest_def o_def dest!: in_set_takeD)
qed

lemmas honest_ops = honest_queue honest_quiet honest_status honest_write

lemma honest_markSuspect: "honest M I m \<Longrightarrow> honest M I (markSuspect m k)"
  by (auto simp: markSuspect_def Let_def in_bounds_status intro!: honest_ops split: option.splits)

lemma honest_markDead: "honest M I m \<Longrightarrow> honest M I (markDead m k)"
  by (auto simp: markDead_def Let_def in_bounds_status intro!: honest_ops split: option.splits)

lemma honest_apply_new:
  assumes "honest M I m" "in_bounds M I u"
  shows "honest M I (apply_new m u now)"
proof -
  let ?n = "(NewNodeInfo (u_NodeID u) (u_GRPCAddr u) (u_GossipAddr u) (u_HTTPAddr u) now)\<lparr>n_Incarnation := u_Incarnation u\<rparr>"
  have "honest M I (m\<lparr>m_registry := reg_Register (m_registry m) ?n\<rparr>)"
    by (rule honest_registry [OF assms(1)]) (use assms in \<open>auto simp: in_bounds_def honest_def NewNodeInfo_def split: if_splits\<close>)
  with assms show ?thesis by (simp add: apply_new_def Let_def honest_ops)
qed

lemma honest_apply_known:
  assumes "honest M I m" "in_bounds M I u"
  shows "honest M I (apply_known m u e now)"
proof -
  let ?f = "\<lambda>n. Touch now ((SetStatus StatusAlive n)\<lparr>n_Incarnation := u_Incarnation u\<rparr>)"
  have "honest M I (m\<lparr>m_registry := reg_mutate (u_NodeID u) ?f (m_registry m)\<rparr>)"
    by (rule honest_registry [OF assms(1)])
      (use assms in \<open>auto simp: in_bounds_def honest_def Touch_def SetStatus_def split: if_splits\<close>)
  with assms show ?thesis
    by (simp add: apply_known_def Let_def markSuspectLocked_def honest_ops split: NodeStatus.splits)
qed

section \<open>Reading a packet\<close>

text \<open>
  While node \<open>a\<close> applies the updates of one packet, its own incarnation is the one it began
  with or the next: what the packet says of \<open>a\<close> is not ahead of \<open>a\<close>.
\<close>

definition at_home :: "string set \<Rightarrow> (string \<Rightarrow> u64) \<Rightarrow> string \<Rightarrow> Membership \<Rightarrow> bool" where
  "at_home M I a m \<longleftrightarrow> m_selfID m = a \<and> honest M (I(a := m_incarnation m)) m \<and>
     (m_incarnation m = I a \<or> m_incarnation m = I a + 1)"

lemma apply_incarnation [simp]:
  "m_incarnation (apply_new m u now) = m_incarnation m" "m_incarnation (apply_known m u e now) = m_incarnation m"
  "m_selfID (apply_new m u now) = m_selfID m" "m_selfID (apply_known m u e now) = m_selfID m"
  by (simp_all add: apply_new_def apply_known_def markSuspectLocked_def set_status_def queueUpdate_def swim_emit_def
      cancel_timer_def start_timer_def timer_Stop_def Let_def split: NodeStatus.splits option.splits)

lemma in_bounds_at:
  "at_home M I a m \<Longrightarrow> I a < I a + 1 \<Longrightarrow> in_bounds M I u \<Longrightarrow> in_bounds M (I(a := m_incarnation m)) u"
  by (auto simp: at_home_def in_bounds_def intro: order.trans order.strict_implies_order)

lemma at_home_refute:
  assumes "at_home M I a m" "in_bounds M I u" "u_NodeID u = a" "I a < I a + 1"
  shows "at_home M I a (refute m u)"
proof (cases "m_incarnation m \<le> u_Incarnation u")
  case True
  then have i: "m_incarnation m = I a" "u_Incarnation u = I a"
    using assms by (auto simp: at_home_def in_bounds_def)
  let ?m = "m\<lparr>m_incarnation := I a + 1\<rparr>"
  have "honest M (I(a := m_incarnation m)) m" using assms(1) by (simp add: at_home_def)
  then have "honest M (I(a := I a + 1)) m"
    by (rule honest_mono) (use i assms(4) in auto)
  then have "honest M (I(a := I a + 1)) ?m" by (rule honest_frame) simp_all
  moreover have "in_bounds M (I(a := I a + 1)) (self_update ?m)"
    using assms by (auto simp: in_bounds_def self_update_def at_home_def)
  ultimately have "honest M (I(a := I a + 1)) (queueUpdateLocked ?m (self_update ?m))" by (rule honest_queue)
  then show ?thesis
    using True i assms(1) by (simp add: refute_def Let_def at_home_def queueUpdateLocked_def)
next
  case False
  have "in_bounds M (I(a := m_incarnation m)) (self_update m)"
    using assms by (auto simp: in_bounds_def self_update_def at_home_def)
  then show ?thesis
    using False assms(1) honest_queue(2) [of M "I(a := m_incarnation m)" m "self_update m"]
    by (simp add: refute_def at_home_def queueUpdateLocked_def)
qed

lemma at_home_applyUpdate:
  assumes "at_home M I a m" "in_bounds M I u" "I a < I a + 1"
  shows "at_home M I a (applyUpdate m u now)"
proof (cases "u_NodeID u = a")
  case True
  moreover have "m_selfID m = a" using assms(1) by (simp add: at_home_def)
  ultimately show ?thesis
    using assms(1) at_home_refute [OF assms(1,2) True assms(3)] by (simp add: applyUpdate_def)
next
  case False
  then have "honest M (I(a := m_incarnation m)) (apply_new m u now)"
    "honest M (I(a := m_incarnation m)) (apply_known m u e now)" for e
    using honest_apply_new [OF _ in_bounds_at [OF assms(1,3,2)]] honest_apply_known [OF _ in_bounds_at [OF assms(1,3,2)]]
      assms(1) by (simp_all add: at_home_def)
  with False assms(1) show ?thesis by (simp add: applyUpdate_def at_home_def split: option.splits)
qed

lemma at_home_apply_updates:
  "at_home M I a m \<Longrightarrow> \<forall>u \<in> set us. in_bounds M I u \<Longrightarrow> I a < I a + 1 \<Longrightarrow> at_home M I a (apply_updates m us clk)"
  by (induction m us clk rule: apply_updates.induct) (simp_all add: at_home_applyUpdate)

section \<open>The other operations\<close>

definition settled :: "string set \<Rightarrow> (string \<Rightarrow> u64) \<Rightarrow> string \<Rightarrow> Membership \<Rightarrow> bool" where
  "settled M J a m \<longleftrightarrow> honest M J m \<and> m_selfID m = a \<and> m_incarnation m = J a"

lemma kept_fields [simp]:
  "m_incarnation (queueUpdate m u) = m_incarnation m" "m_selfID (queueUpdate m u) = m_selfID m"
  "m_incarnation (queueUpdateLocked m u) = m_incarnation m" "m_selfID (queueUpdateLocked m u) = m_selfID m"
  "m_incarnation (WriteToUDP m msg c) = m_incarnation m" "m_selfID (WriteToUDP m msg c) = m_selfID m"
  "m_incarnation (swim_emit m ev) = m_incarnation m" "m_selfID (swim_emit m ev) = m_selfID m"
  "m_incarnation (cancel_timer m k) = m_incarnation m" "m_selfID (cancel_timer m k) = m_selfID m"
  "m_incarnation (start_timer m k) = m_incarnation m"
  "m_incarnation (set_status m k st) = m_incarnation m" "m_selfID (set_status m k st) = m_selfID m"
  "m_incarnation (ping_timeout m k) = m_incarnation m" "m_selfID (ping_timeout m k) = m_selfID m"
  by (simp_all add: queueUpdate_def queueUpdateLocked_def WriteToUDP_def swim_emit_def cancel_timer_def start_timer_def
      timer_Stop_def set_status_def ping_timeout_def Let_def split: option.splits)

lemma settled_quiet:
  assumes "settled M J a m"
  shows "settled M J a (ping_timeout m k)" "settled M J a (SetOnEvent m)" "settled M J a (SetFaultInjector m fi)"
    "settled M J a (fire_timer t k m)" "settled M J a (m\<lparr>m_fired := fs\<rparr>)"
    "settled M J a (m\<lparr>m_nextChan := c, m_pendingAcks := p\<rparr>)"
  using assms honest_quiet [of M J m]
  by (simp_all add: settled_def SetOnEvent_def SetFaultInjector_def fire_timer_def)

lemma settled_write: "settled M J a m \<Longrightarrow> honest_msg M J msg \<Longrightarrow> settled M J a (WriteToUDP m msg c)"
  by (simp add: settled_def honest_write)

lemma settled_mark:
  assumes "settled M J a m"
  shows "settled M J a (markSuspect m k)" "settled M J a (run_markDead k m)"
proof -
  show "settled M J a (markSuspect m k)"
    using assms honest_markSuspect [of M J m k] unfolding settled_def
    by (simp add: markSuspect_def Let_def split: option.splits if_splits)
  show "settled M J a (run_markDead k m)"
    using settled_quiet(5) [OF assms, of "remove1 k (m_fired m)"]
      honest_markDead [of M J "m\<lparr>m_fired := remove1 k (m_fired m)\<rparr>" k]
    unfolding settled_def run_markDead_def by (simp add: markDead_def Let_def split: option.splits if_splits)
qed

lemma settled_drain:
  assumes "settled M J a m" "queue_ok (m_updateQueue m)"
  shows "settled M J a (WriteToUDP (fst (drainUpdates m)) (swim_msg m'' ty t (snd (drainUpdates m))) c)"
proof -
  have "honest M J m" "drainUpdates m = (fst (drainUpdates m), snd (drainUpdates m))"
    using assms(1) by (simp_all add: settled_def)
  from drain_honest [OF this(1) assms(2) this(2)] have "settled M J a (fst (drainUpdates m))"
    "honest_msg M J (swim_msg m'' ty t (snd (drainUpdates m)))"
    using assms(1) by (simp_all add: settled_def drainUpdates_eq)
  then show ?thesis by (rule settled_write)
qed

lemma settled_handlePing: "settled M J a m \<Longrightarrow> queue_ok (m_updateQueue m) \<Longrightarrow> settled M J a (swim_handlePing m c)"
  using settled_drain [of M J a m m] by (simp add: swim_handlePing_def split_beta)

lemma settled_handleAck: "settled M J a m \<Longrightarrow> settled M J a (handleAck m msg now)"
  by (auto simp: settled_def handleAck_def Let_def honest_def Touch_def split: option.splits if_splits)

lemma settled_handleJoin:
  assumes "settled M J a m" "range_order rng" "reg_inv (m_registry m)"
  shows "settled M J a (handleJoin rng m c)"
proof -
  have "in_bounds M J (node_update n)" if "n \<in> set (GetAll rng (m_registry m))" for n
    using that assms(1) set_GetAll [OF assms(2,3)] by (simp add: settled_def honest_def in_bounds_def node_update_def)
  moreover have "u_NodeID \<circ> node_update = n_ID" by (simp add: fun_eq_iff)
  ultimately have "honest_msg M J (swim_msg m MsgAck [] (map node_update (GetAll rng (m_registry m))))"
    using distinct_GetAll [OF assms(2,3)] by (auto simp: honest_msg_def swim_msg_def)
  with assms(1) show ?thesis unfolding handleJoin_def by (rule settled_write)
qed

lemma honest_msg_empty [simp]: "s_Updates msg = [] \<Longrightarrow> honest_msg M J msg"
  by (simp add: honest_msg_def)

lemma settled_send_ping:
  assumes "settled M J a m" "queue_ok (m_updateQueue m)"
  shows "settled M J a (fst (send_ping resolve m addr k))"
proof -
  let ?m = "m\<lparr>m_nextChan := Suc (m_nextChan m), m_pendingAcks := gm_put k (m_nextChan m) (m_pendingAcks m)\<rparr>"
  have "settled M J a ?m" by (rule settled_quiet [OF assms(1)])
  from settled_drain [OF this] assms show ?thesis
    by (simp add: send_ping_def Let_def split_beta split: option.splits)
qed

lemma settled_handlePingReq:
  "settled M J a m \<Longrightarrow> queue_ok (m_updateQueue m) \<Longrightarrow> settled M J a (fst (handlePingReq resolve m msg))"
  using settled_send_ping [of M J a m resolve]
  by (auto simp: handlePingReq_def split: option.splits prod.splits) (metis fst_conv)+

lemma settled_relay: "settled M J a m \<Longrightarrow> settled M J a (relay_ack m t info c)"
  unfolding relay_ack_def by (rule settled_write) simp_all

lemma settled_send_reqs:
  assumes "settled M J a m"
  shows "settled M J a (fst (send_reqs rng shuffle resolve m target))"
proof -
  have "settled M J a (send_req resolve k x proxy)" if "settled M J a x" for k x proxy
    using that settled_write [OF that] by (simp add: send_req_def swim_msg_def split: option.splits)
  then have "settled M J a (foldl (send_req resolve k) x xs)" if "settled M J a x" for k x xs
    using that by (intro foldl_invariant [where P = "settled M J a"])
  with settled_quiet(6) [OF assms] assms show ?thesis by (simp add: send_reqs_def Let_def)
qed

lemma settled_ping_indirect:
  "settled M J a m \<Longrightarrow> settled M J a (fst (ping_indirect env m target))"
  using settled_send_reqs [of M J a m "pe_rng2 env" "pe_shuffle env" "pe_resolve env" target]
  by (auto simp: ping_indirect_def settled_mark split: prod.splits option.splits)

lemma settled_ping:
  assumes "settled M J a m" "queue_ok (m_updateQueue m)"
  shows "settled M J a (fst (pingRandomMember env m))"
proof -
  have "settled M J a (fst (ping_direct env m target))" for target
    using settled_send_ping [OF assms, of "pe_resolve env" "n_GossipAddr target" "n_ID target"]
    by (auto simp: ping_direct_def settled_ping_indirect split: prod.splits option.splits)
  with assms(1) show ?thesis by (simp add: pingRandomMember_def Let_def)
qed

lemma settled_join:
  assumes "settled M J a m" "a \<in> M"
  shows "settled M J a (fst (JoinCluster resolve written m seeds))"
proof -
  have "settled M J a (WriteToUDP x (swim_msg x MsgJoin [] [self_update x]) c)" if "settled M J a x" for x c
    by (rule settled_write [OF that])
      (use that assms(2) in \<open>simp add: honest_msg_def swim_msg_def in_bounds_def self_update_def settled_def\<close>)
  then show ?thesis unfolding JoinCluster_def using assms(1)
    by (simp, intro impI, intro foldl_invariant [where P = "\<lambda>p. settled M J a (fst p)"])
       (auto split: option.splits)
qed

lemma settled_stop:
  assumes "settled M J a m" "a \<in> M"
  shows "settled M J a (swim_Stop m)"
proof -
  let ?m = "(set_status m (m_selfID m) StatusLeft)\<lparr>m_selfInfo := SetStatus StatusLeft (m_selfInfo m)\<rparr>"
  have "honest M J ?m" using assms(1) by (intro honest_quiet honest_status) (simp add: settled_def)
  moreover have "in_bounds M J (status_update (m_selfID m) StatusLeft (m_incarnation m))"
    using assms by (simp add: settled_def in_bounds_def status_update_def)
  ultimately have "honest M J (queueUpdate ?m (status_update (m_selfID m) StatusLeft (m_incarnation m)))" by (rule honest_queue)
  with assms(1) show ?thesis by (simp add: swim_Stop_def settled_def Let_def)
qed

section \<open>Steps of one node\<close>

lemma settled_at_home: "settled M I a m \<Longrightarrow> at_home M I a m"
  by (auto simp: settled_def at_home_def fun_upd_idem)

lemma at_home_settled: "at_home M I a m \<longleftrightarrow> settled M (I(a := m_incarnation m)) a m \<and> (m_incarnation m = I a \<or> m_incarnation m = I a + 1)"
  by (auto simp: settled_def at_home_def)

lemma at_home_keep:
  assumes "at_home M I a m" "\<And>J. settled M J a m \<Longrightarrow> settled M J a m'"
  shows "at_home M I a m'"
proof -
  have "settled M (I(a := m_incarnation m)) a m'" "m_incarnation m = I a \<or> m_incarnation m = I a + 1"
    using assms by (auto simp: at_home_settled)
  then show ?thesis by (auto simp: at_home_settled settled_def)
qed

lemma receive_at_home:
  assumes "settled M I a m" "honest_msg M I msg" "I a < I a + 1" "range_order rng"
    "reg_inv (m_registry (apply_updates m (s_Updates msg) clk))" "queue_ok (m_updateQueue (apply_updates m (s_Updates msg) clk))"
  shows "at_home M I a (fst (receive rng resolve m msg from' clk))"
proof -
  have at: "at_home M I a (apply_updates m (s_Updates msg) clk)"
    using assms(1,2,3) by (intro at_home_apply_updates settled_at_home) (simp_all add: honest_msg_def)
  have "at_home M I a (fst (handleMessage rng resolve m msg from' clk))"
    using at_home_keep [OF at settled_handlePing [OF _ assms(6)]] at_home_keep [OF at settled_handleAck]
      at_home_keep [OF at settled_handlePingReq [OF _ assms(6)]] at_home_keep [OF at settled_handleJoin [OF _ assms(4,5)]] at
    by (simp add: handleMessage_def Let_def split: MessageType.splits)
  then show ?thesis
    using settled_at_home [OF assms(1)] by (auto simp: receive_def split: prod.splits option.splits)
qed

lemma swim_move_step: "swim_move sent s s' \<Longrightarrow> swim_step s s'"
  by (induction rule: swim_move.induct) (blast intro: swim_move.intros)+

lemma move_at_home:
  assumes "swim_move sent s s'" "\<And>msg. sent msg \<Longrightarrow> honest_msg M I msg" "settled M I a (sw_m s)" "a \<in> M"
    "sw_inv s" "I a < I a + 1"
  shows "at_home M I a (sw_m s')"
proof -
  have q: "queue_ok (m_updateQueue (sw_m s))" and inv: "m_inv_on (if sw_done s then UNIV else {}) (sw_m s)"
    using assms(5) by (simp_all add: sw_inv_def m_inv_on_def)
  from assms(1) show ?thesis
  proof cases
    case (recv_msg rng resolve msg from' clk m pc)
    have "m_inv_on (if sw_done s then UNIV else {}) (apply_updates (sw_m s) (s_Updates msg) clk)"
      using inv by (rule apply_updates_inv)
    then have ok: "reg_inv (m_registry (apply_updates (sw_m s) (s_Updates msg) clk))"
      "queue_ok (m_updateQueue (apply_updates (sw_m s) (s_Updates msg) clk))" by (simp_all add: m_inv_on_def)
    have "at_home M I a (fst (receive rng resolve (sw_m s) msg from' clk))"
      by (rule receive_at_home [OF assms(3) assms(2) assms(6) _ ok]) (use recv_msg in simp_all)
    with recv_msg show ?thesis by simp
  next
    case (ping_tick env m pc)
    with settled_ping [OF assms(3) q, of env] show ?thesis by (simp add: settled_at_home)
  next
    case (direct_timeout target ch env m pc)
    with settled_ping_indirect [OF settled_quiet(1) [OF assms(3)], of env "n_ID target" target] show ?thesis
      by (simp add: settled_at_home)
  next
    case (direct_stop target ch env m pc)
    with settled_ping_indirect [OF assms(3), of env target] show ?thesis by (simp add: settled_at_home)
  next
    case (join resolve written seeds m ok)
    with settled_join [OF assms(3,4), of resolve written seeds] show ?thesis by (simp add: settled_at_home)
  next
    case shutdown
    have "settled M I a (stop_timers (sw_m s))"
      using assms(3) honest_frame [of M I "sw_m s" "stop_timers (sw_m s)"]
      by (simp add: settled_def stop_timers_fields)
    with shutdown show ?thesis by (simp add: settled_at_home)
  qed (use assms(3,4) in \<open>auto intro!: settled_at_home settled_quiet settled_mark settled_relay settled_stop\<close>)
qed

section \<open>The network\<close>

definition net_inv :: "string set \<Rightarrow> nat \<Rightarrow> network \<Rightarrow> bool" where
  "net_inv M n N \<longleftrightarrow> (\<forall>a \<in> M. settled M (own_incarnation N) a (sw_m (N a)) \<and> sw_inv (N a) \<and> unat (own_incarnation N a) \<le> n)"

lemma net_init_inv:
  assumes "\<And>k. k \<in> M \<Longrightarrow> \<exists>g u h t. self k = NewNodeInfo k g u h t"
  shows "net_inv M 0 (\<lambda>k. swim_init (self k))"
  unfolding net_inv_def
proof (intro ballI)
  fix a assume "a \<in> M"
  with assms obtain g u h t where s: "self a = NewNodeInfo a g u h t" by blast
  have "settled M (own_incarnation (\<lambda>k. swim_init (self k))) a (sw_m (swim_init (self a)))"
    using \<open>a \<in> M\<close> by (auto simp: settled_def honest_def own_incarnation_def in_bounds_def s swim_init_def swim_Start_def SetOnEvent_def
        SetFaultInjector_def NewMembership_def NewNodeInfo_def queueUpdate_def self_update_def NewNodeRegistry_def reg_Register_def reg_Get_def
        split: if_splits)
  moreover have "own_incarnation (\<lambda>k. swim_init (self k)) a = 0"
    by (simp add: own_incarnation_def swim_init_def swim_Start_def SetOnEvent_def SetFaultInjector_def NewMembership_def queueUpdate_def)
  moreover have "sw_inv (swim_init (self a))"
    by (rule swim_init_inv) (simp add: s NewNodeInfo_def)
  ultimately show "settled M (own_incarnation (\<lambda>k. swim_init (self k))) a (sw_m (swim_init (self a))) \<and>
      sw_inv (swim_init (self a)) \<and> unat (own_incarnation (\<lambda>k. swim_init (self k)) a) \<le> 0" by simp
qed

lemma net_step_inv:
  assumes inv: "net_inv M n N" and "n < 2 ^ 64 - 1" "a \<in> M" "swim_move (in_flight M N) (N a) s"
  shows "net_inv M (Suc n) (N(a := s))"
proof -
  let ?I = "own_incarnation N" and ?N = "N(a := s)"
  have le: "unat (?I a) \<le> n" using inv assms(3) by (simp add: net_inv_def)
  with assms(2) have "?I a \<noteq> - 1" by (auto simp: unsigned_minus_1_eq_mask mask_eq_exp_minus_1)
  then have less: "?I a < ?I a + 1" by (rule word_less_Suc)
  have "honest_msg M ?I msg" if "in_flight M N msg" for msg
    using that inv by (auto simp: in_flight_def net_inv_def settled_def honest_def)
  with assms(3,4) inv less have home: "at_home M ?I a (sw_m s)"
    by (intro move_at_home [where sent = "in_flight M N" and s = "N a"]) (auto simp: net_inv_def)
  have I': "own_incarnation ?N = ?I(a := m_incarnation (sw_m s))"
    by (simp add: own_incarnation_def fun_eq_iff)
  have up: "?I k \<le> own_incarnation ?N k" for k
    using home less by (auto simp: I' at_home_def intro: order.strict_implies_order)
  have "settled M (own_incarnation ?N) b (sw_m (?N b))" if "b \<in> M" for b
  proof (cases "b = a")
    case True
    with home show ?thesis by (simp add: at_home_settled I')
  next
    case False
    with inv that have "settled M ?I b (sw_m (N b))" by (simp add: net_inv_def)
    moreover from this have "honest M (own_incarnation ?N) (sw_m (N b))"
      using honest_mono [of M ?I "sw_m (N b)", OF _ up] by (simp add: settled_def)
    ultimately show ?thesis using False by (simp add: settled_def I')
  qed
  moreover have "sw_inv (?N b)" if "b \<in> M" for b
    using that inv swim_step_inv [OF swim_move_step [OF assms(4)]] assms(3) by (auto simp: net_inv_def)
  moreover have "unat (own_incarnation ?N b) \<le> Suc n" if "b \<in> M" for b
  proof -
    have "unat (?I a + 1) \<le> Suc n" using le by (simp add: unat_word_ariths order.trans [OF mod_less_eq_dividend])
    then show ?thesis
      using that inv le home by (auto simp: I' at_home_def net_inv_def le_SucI)
  qed
  ultimately show ?thesis by (simp add: net_inv_def)
qed

lemma net_run_inv: "net_run M self n N \<Longrightarrow> n < 2 ^ 64 \<Longrightarrow> net_inv M n N"
  by (induction rule: net_run.induct) (simp_all add: net_init_inv net_step_inv)

lemma status_receive:
  assumes "\<not> isBlocked m (s_SenderID msg)"
  shows "map_option n_Status (reg_Get (m_registry (fst (receive rng resolve m msg from' clk))) k) =
    map_option n_Status (reg_Get (m_registry (apply_updates m (s_Updates msg) clk)) k)"
  using assms
  by (auto simp: receive_def handleMessage_def swim_handlePing_def handleAck_def handlePingReq_def handleJoin_def send_ping_def
      drainUpdates_eq WriteToUDP_def Touch_def option.map_comp comp_def Let_def split: MessageType.splits option.splits prod.splits)

lemma word_of_self:
  assumes "m_selfID m \<noteq> u_NodeID u" "u_Status u = StatusAlive"
    "\<forall>info. reg_Get (m_registry m) (u_NodeID u) = Some info \<longrightarrow> n_Incarnation info \<le> u_Incarnation u"
  shows "map_option n_Status (reg_Get (m_registry (applyUpdate m u now)) (u_NodeID u)) = Some StatusAlive"
  using assms
  by (auto simp: applyUpdate_def apply_new_def apply_known_def NewNodeInfo_def queueUpdate_def GetStatus_def Touch_def SetStatus_def Let_def
      split: option.splits)

lemma word_of_self_list:
  assumes "distinct (map u_NodeID us)" "u \<in> set us" "m_selfID m \<noteq> u_NodeID u" "u_Status u = StatusAlive"
    "\<forall>info. reg_Get (m_registry m) (u_NodeID u) = Some info \<longrightarrow> n_Incarnation info \<le> u_Incarnation u"
  shows "map_option n_Status (reg_Get (m_registry (apply_updates m us clk)) (u_NodeID u)) = Some StatusAlive"
  using assms
proof (induction us arbitrary: m clk)
  case (Cons v us)
  show ?case
  proof (cases "u = v")
    case True
    then have "u_NodeID u \<notin> u_NodeID ` set us" using Cons(2) by auto
    with True Cons(4-) show ?thesis by (simp add: apply_updates_other word_of_self)
  next
    case False
    then have us: "u \<in> set us" using Cons(3) by simp
    with Cons(2) have "u_NodeID u \<noteq> u_NodeID v" by (force simp: image_iff)
    moreover have "m_selfID (applyUpdate m v (clk 0)) = m_selfID m" using evolves_applyUpdate by (simp add: evolves_def)
    ultimately show ?thesis
      using Cons.IH [of "applyUpdate m v (clk 0)" "clk \<circ> Suc"] Cons.prems us by (simp add: applyUpdate_other comp_def)
  qed
qed simp

lemma queue_add_keeps: "q \<in> set qs \<Longrightarrow> qid q \<noteq> u_NodeID u \<Longrightarrow> q \<in> set (queue_add u qs)"
  by (induction qs) (auto simp: qid_def)

lemma applyUpdate_rest:
  assumes "u_NodeID u \<noteq> m_selfID m"
  shows "self_update (applyUpdate m u now) = self_update m"
    and "q \<in> set (m_updateQueue m) \<Longrightarrow> qid q = m_selfID m \<Longrightarrow> q \<in> set (m_updateQueue (applyUpdate m u now))"
    and "q \<in> set (m_updateQueue (applyUpdate m u now)) \<Longrightarrow> qid q = m_selfID m \<Longrightarrow> q \<in> set (m_updateQueue m)"
    and "m_incarnation (applyUpdate m u now) = m_incarnation m"
  using assms queue_add_keeps [of q "m_updateQueue m" u] set_queue_add [of u "m_updateQueue m"]
  by (auto simp: qid_def applyUpdate_def apply_new_def apply_known_def markSuspectLocked_def set_status_def self_update_def swim_emit_def
      queueUpdate_def cancel_timer_def timer_Stop_def start_timer_def Let_def split: option.splits NodeStatus.splits if_splits)

definition announces :: "Membership \<Rightarrow> bool" where
  "announces m \<longleftrightarrow> (\<exists>q \<in> set (m_updateQueue m). q_update q = self_update m)"

lemma announces_apply_updates:
  "announces m \<Longrightarrow> m_selfID m \<notin> u_NodeID ` set us \<Longrightarrow>
     announces (apply_updates m us clk) \<and> self_update (apply_updates m us clk) = self_update m"
proof (induction us arbitrary: m clk)
  case (Cons u us)
  then obtain q where q: "q \<in> set (m_updateQueue m)" "q_update q = self_update m" by (auto simp: announces_def)
  let ?m = "applyUpdate m u (clk 0)"
  have ne: "u_NodeID u \<noteq> m_selfID m" using Cons(3) by auto
  have "q \<in> set (m_updateQueue ?m)" "self_update ?m = self_update m"
    using applyUpdate_rest [OF ne] q by (simp_all add: qid_def self_update_def)
  with q(2) have "announces ?m" "m_selfID ?m = m_selfID m"
    by (auto simp: announces_def) (simp add: self_update_def)
  with Cons.IH [of ?m "clk \<circ> Suc"] Cons(3) \<open>self_update ?m = self_update m\<close> show ?case by (simp add: comp_def)
qed simp

lemma refute_announces:
  assumes "u_NodeID u = m_selfID m" "u_Status u = StatusSuspect \<or> u_Status u = StatusDead" "u_Incarnation u = m_incarnation m"
    "m_incarnation m < m_incarnation m + 1"
    "\<forall>q \<in> set (m_updateQueue m). qid q = m_selfID m \<longrightarrow> u_Incarnation (q_update q) \<le> m_incarnation m"
  shows "announces (applyUpdate m u now) \<and> m_incarnation (applyUpdate m u now) = m_incarnation m + 1"
proof -
  let ?m = "m\<lparr>m_incarnation := m_incarnation m + 1\<rparr>"
  have eq: "applyUpdate m u now = queueUpdateLocked ?m (self_update ?m)"
    using assms by (simp add: applyUpdate_def refute_def Let_def)
  have "self_update ?m \<in> q_update ` set (queue_add (self_update ?m) (m_updateQueue ?m))"
    by (rule queue_add_mem) (use assms(4,5) in \<open>auto simp: self_update_def intro: order.trans order.strict_implies_order\<close>)
  then show ?thesis by (auto simp: eq announces_def queueUpdateLocked_def self_update_def)
qed

lemma rumour_list:
  assumes "distinct (map u_NodeID us)" "u \<in> set us" "u_NodeID u = m_selfID m" "u_Status u = StatusSuspect \<or> u_Status u = StatusDead"
    "u_Incarnation u = m_incarnation m" "m_incarnation m < m_incarnation m + 1"
    "\<forall>q \<in> set (m_updateQueue m). qid q = m_selfID m \<longrightarrow> u_Incarnation (q_update q) \<le> m_incarnation m"
  shows "announces (apply_updates m us clk) \<and> m_incarnation (apply_updates m us clk) = m_incarnation m + 1"
  using assms
proof (induction us arbitrary: m clk)
  case (Cons v us)
  show ?case
  proof (cases "u = v")
    case True
    let ?m = "applyUpdate m v (clk 0)"
    have "announces ?m \<and> m_incarnation ?m = m_incarnation m + 1"
      using refute_announces [OF Cons.prems(3-7)] True by simp
    moreover have "m_selfID ?m \<notin> u_NodeID ` set us"
      using Cons.prems(1,3) True evolves_applyUpdate [of m v "clk 0"] by (simp add: evolves_def)
    ultimately show ?thesis
      using announces_apply_updates [of ?m us "clk \<circ> Suc"] by (auto simp: self_update_def)
  next
    case False
    then have us: "u \<in> set us" using Cons.prems(2) by simp
    let ?m = "applyUpdate m v (clk 0)"
    have ne: "u_NodeID v \<noteq> m_selfID m" using us Cons.prems(1,3) by (force simp: image_iff)
    have "m_selfID ?m = m_selfID m" using evolves_applyUpdate [of m v "clk 0"] by (simp add: evolves_def)
    with us Cons.prems applyUpdate_rest(3,4) [OF ne] show ?thesis
      using Cons.IH [of ?m "clk \<circ> Suc"] by (simp add: comp_def)
  qed
qed simp

section \<open>Properties\<close>

text \<open>
  C3. Nobody is ahead of a node about itself. In every state that a cluster of SWIM nodes
  reaches in fewer than \<open>2 ^ 64\<close> steps, with packets lost, repeated, delayed and delivered in any
  order, what any registry, any gossip queue and any packet says about a node is about a
  member, and its incarnation is at most the incarnation that the member itself has; and a
  packet says at most one thing about each node.
\<close>
theorem incarnations_never_ahead:
  assumes "net_run M self n N" "n < 2 ^ 64" "a \<in> M"
  shows "(\<forall>k info. reg_Get (m_registry (sw_m (N a))) k = Some info \<longrightarrow>
      k \<in> M \<and> n_Incarnation info \<le> m_incarnation (sw_m (N k))) \<and>
    (\<forall>q \<in> set (m_updateQueue (sw_m (N a))). u_NodeID (q_update q) \<in> M \<and>
      u_Incarnation (q_update q) \<le> m_incarnation (sw_m (N (u_NodeID (q_update q))))) \<and>
    (\<forall>(addr, msg) \<in> set (m_out (sw_m (N a))). distinct (map u_NodeID (s_Updates msg)) \<and>
      (\<forall>u \<in> set (s_Updates msg). u_NodeID u \<in> M \<and> u_Incarnation u \<le> m_incarnation (sw_m (N (u_NodeID u)))))"
  using net_run_inv [OF assms(1,2)] assms(3)
  by (fastforce simp: net_inv_def settled_def honest_def honest_msg_def in_bounds_def own_incarnation_def)

definition w_self_of :: "string \<Rightarrow> NodeInfo" where
  "w_self_of k = NewNodeInfo k (k @ '':g'') (k @ '':u'') (k @ '':h'') 0"

definition w_net :: network where
  "w_net = (\<lambda>k. swim_init (w_self_of k))(''a'' := (swim_init (w_self_of ''a''))
     \<lparr>sw_m := fst (JoinCluster Some (\<lambda>_. True) (sw_m (swim_init (w_self_of ''a''))) [''b:u''])\<rparr>)"

lemma w_net_run: "net_run {''a'', ''b''} w_self_of 1 w_net"
proof -
  have "net_run {''a'', ''b''} w_self_of 0 (\<lambda>k. swim_init (w_self_of k))"
    by (rule net_init) (auto simp: w_self_of_def)
  moreover let ?s = "swim_init (w_self_of ''a'')"
  have "swim_move sent ?s (?s\<lparr>sw_m := fst (JoinCluster Some (\<lambda>_. True) (sw_m ?s) [''b:u''])\<rparr>)" for sent
    by (rule join) (rule prod.collapse [symmetric])
  ultimately show ?thesis
    unfolding w_net_def by (auto intro: net_step)
qed

abbreviation w_join :: SwimMessage where
  "w_join \<equiv> swim_msg (sw_m (swim_init (w_self_of ''a''))) MsgJoin [] [self_update (sw_m (swim_init (w_self_of ''a'')))]"

theorem incarnations_never_ahead_witness:
  "u_Incarnation (self_update (sw_m (swim_init (w_self_of ''a'')))) \<le> m_incarnation (sw_m (w_net ''a''))"
proof -
  have "(''b:u'', w_join) \<in> set (m_out (sw_m (w_net ''a'')))" by code_simp
  with incarnations_never_ahead [OF w_net_run, of "''a''"]
  have "\<forall>u \<in> set (s_Updates w_join). u_Incarnation u \<le> m_incarnation (sw_m (w_net (u_NodeID u)))" by fastforce
  then show ?thesis by (simp add: swim_msg_def) code_simp
qed



text \<open>
  C12. A rumour is answered. When a member reads a packet that reports the member itself SUSPECT
  or DEAD under its present incarnation, its gossip queue holds its own ALIVE announcement
  afterwards, under an incarnation above everything that any registry and any packet of the
  cluster says about it, so that no report in circulation can override the announcement.
\<close>
theorem rumour_answered:
  assumes "net_run M self n N" "n < 2 ^ 64 - 1" "k \<in> M" "in_flight M N msg" "u \<in> set (s_Updates msg)" "u_NodeID u = k"
    and "u_Status u = StatusSuspect \<or> u_Status u = StatusDead" "u_Incarnation u = m_incarnation (sw_m (N k))"
    and "m' = apply_updates (sw_m (N k)) (s_Updates msg) clk"
  shows "self_update m' \<in> q_update ` set (m_updateQueue m') \<and>
    (\<forall>a \<in> M. \<forall>info. reg_Get (m_registry (sw_m (N a))) k = Some info \<longrightarrow> n_Incarnation info < m_incarnation m') \<and>
    (\<forall>msg' v. in_flight M N msg' \<longrightarrow> v \<in> set (s_Updates msg') \<longrightarrow> u_NodeID v = k \<longrightarrow> u_Incarnation v < m_incarnation m')"
proof -
  have net: "net_inv M n N" using net_run_inv [OF assms(1)] assms(2) by simp
  then have inv: "honest M (own_incarnation N) (sw_m (N b))" if "b \<in> M" for b
    using that by (simp add: net_inv_def settled_def)
  have self: "m_selfID (sw_m (N k)) = k" and "unat (own_incarnation N k) \<le> n" using net assms(3) by (simp_all add: net_inv_def settled_def)
  then have less: "m_incarnation (sw_m (N k)) < m_incarnation (sw_m (N k)) + 1"
    using assms(2) by (intro word_less_Suc) (auto simp: own_incarnation_def unsigned_minus_1_eq_mask mask_eq_exp_minus_1)
  have msgs: "honest_msg M (own_incarnation N) x" if "in_flight M N x" for x
    using that inv by (auto simp: in_flight_def honest_def)
  have m': "announces m' \<and> m_incarnation m' = own_incarnation N k + 1"
    unfolding assms(9) own_incarnation_def
    by (rule rumour_list [OF _ assms(5)])
      (use msgs [OF assms(4)] inv [OF assms(3)] assms self less in
        \<open>auto simp: honest_msg_def honest_def in_bounds_def qid_def own_incarnation_def\<close>)
  have up: "i < m_incarnation m'" if "i \<le> own_incarnation N k" for i
    using that m' less by (simp add: own_incarnation_def)
  have "n_Incarnation info < m_incarnation m'" if "a \<in> M" "reg_Get (m_registry (sw_m (N a))) k = Some info" for a info
    using inv [OF that(1)] that(2) by (intro up) (simp add: honest_def)
  moreover have "u_Incarnation v < m_incarnation m'" if "in_flight M N x" "v \<in> set (s_Updates x)" "u_NodeID v = k" for x v
    using msgs [OF that(1)] that(2,3) by (intro up) (auto simp: honest_msg_def in_bounds_def)
  ultimately show ?thesis using m' by (force simp: announces_def image_iff)
qed

text \<open>Node \<open>b\<close> hears of \<open>a\<close>, fails to reach it, suspects it, and says so in its next ping.\<close>

definition w_b1 :: Swim where
  "w_b1 = (w_net ''b'')\<lparr>sw_m := fst (receive (\<lambda>m. m) Some (sw_m (w_net ''b'')) w_join ''a:u'' (\<lambda>_. 5)), sw_recv := RecvIdle\<rparr>"

definition w_b2 :: Swim where
  "w_b2 = w_b1\<lparr>sw_m := fst (pingRandomMember w_env (sw_m w_b1)), sw_ping := PingIdle\<rparr>"

definition w_b3 :: Swim where
  "w_b3 = (let p = pingRandomMember (w_env\<lparr>pe_resolve := Some\<rparr>) (sw_m w_b2) in w_b2\<lparr>sw_m := fst p, sw_ping := snd p\<rparr>)"

lemma w_net4: "net_run {''a'', ''b''} w_self_of 4 (w_net(''b'' := w_b3))"
proof -
  have "swim_move (in_flight {''a'', ''b''} w_net) (w_net ''b'') w_b1"
    unfolding w_b1_def
    by (rule recv_msg [where rng = "\<lambda>m. m" and resolve = Some and msg = w_join and from' = "''a:u''" and clk = "\<lambda>_. 5"])
      ((rule rng_insertion.range_order_axioms | code_simp)+)
  with w_net_run have 1: "net_run {''a'', ''b''} w_self_of 2 (w_net(''b'' := w_b1))"
    by (auto dest: net_step simp: numeral_2_eq_2)
  have env: "env_inv w_env" "env_inv (w_env\<lparr>pe_resolve := Some\<rparr>)"
    by (simp_all add: env_inv_def rng_insertion.range_order_axioms)
  have "swim_move sent w_b1 w_b2" for sent
    unfolding w_b2_def by (rule ping_tick [OF _ _ env(1)]) code_simp+
  with 1 have 2: "net_run {''a'', ''b''} w_self_of 3 (w_net(''b'' := w_b2))"
    using net_step [OF 1, of "''b''" w_b2] by (simp add: numeral_3_eq_3 numeral_2_eq_2)
  have "swim_move sent w_b2 w_b3" for sent
    unfolding w_b3_def Let_def by (rule ping_tick [OF _ _ env(2)]) code_simp+
  then show ?thesis
    using net_step [OF 2, of "''b''" w_b3] by simp
qed

abbreviation w_rumour :: SwimMessage where
  "w_rumour \<equiv> snd (last (m_out (sw_m w_b3)))"

theorem rumour_answered_witness:
  "self_update (apply_updates (sw_m (w_net ''a'')) (s_Updates w_rumour) (\<lambda>_. 9)) \<in>
     q_update ` set (m_updateQueue (apply_updates (sw_m (w_net ''a'')) (s_Updates w_rumour) (\<lambda>_. 9)))"
proof -
  let ?N = "w_net(''b'' := w_b3)" and ?u = "status_update ''a'' StatusSuspect 0"
  have "w_rumour \<in> snd ` set (m_out (sw_m w_b3))" by code_simp
  then have "in_flight {''a'', ''b''} ?N w_rumour" by (simp add: in_flight_def)
  moreover have "?u \<in> set (s_Updates w_rumour)" by code_simp
  moreover have "m_incarnation (sw_m (w_net ''a'')) = 0" by code_simp
  ultimately show ?thesis
    using rumour_answered [OF w_net4, of "''a''" w_rumour ?u] by (simp add: status_update_def)
qed

end
