(* ===== verification/Admin.thy ===== *)
theory Admin
  imports Http Message_Codec
begin

text \<open>
  The admin server down to the text of requests and replies: \<open>writeJSON\<close> and \<open>http.Error\<close>, the JSON
  of every response, and \<open>json.Decoder.Decode\<close> on the body of a chaos request. The decoder reads one
  value and leaves what follows it unread. \<open>errtext\<close> is the text of its error for a body. A path is
  in clean form: the mux redirects any other.
\<close>

section \<open>Decoding from a stream\<close>

definition next_token :: "string \<Rightarrow> (token \<times> string) option" where
  "next_token s =
     (let s' = dropWhile is_space s in
      if s' = [] then None
      else if hd s' = CHR 0x22 then map_option (apfst TStr) (scan_str (tl s'))
      else case fixed_token s' of
          Some tok \<Rightarrow> Some (tok, drop (length (token_text tok)) s')
        | None \<Rightarrow> map_option (apfst TNum) (scan_num s'))"

lemma next_token_shorter: "next_token s = Some (t, u) \<Longrightarrow> length u < length s"
proof -
  assume a: "next_token s = Some (t, u)"
  let ?s = "dropWhile is_space s"
  have "length u < length ?s"
    using a scan_str_shorter [of "tl ?s"] scan_num_shorter [of ?s] fixed_token_text [of ?s, folded length_greater_0_conv]
    by (cases ?s) (fastforce simp: next_token_def Let_def split: if_splits option.splits)+
  also have "\<dots> \<le> length s" by (rule length_dropWhile_le)
  finally show ?thesis .
qed

function first_value :: "string \<Rightarrow> frame list \<times> scan_state \<Rightarrow> (json \<times> string) option" where
  "first_value s q =
     (case next_token s of
        None \<Rightarrow> None
      | Some (t, u) \<Rightarrow>
          (case scan_step t q of
             None \<Rightarrow> None
           | Some (st, EndTop v) \<Rightarrow> Some (v, u)
           | Some q' \<Rightarrow> first_value u q'))"
  by pat_completeness auto
termination by (relation "measure (length \<circ> fst)") (auto dest: next_token_shorter)

declare first_value.simps [simp del]

definition Decode :: "kind \<Rightarrow> string \<Rightarrow> (json_error + gval) \<times> string" where
  "Decode k s =
     (case first_value s ([], BeginValue) of
        None \<Rightarrow> (Inl SyntaxError, s)
      | Some (j, u) \<Rightarrow> (case dec k (zero_val k) j of None \<Rightarrow> (Inl TypeError, u) | Some v \<Rightarrow> (Inr v, u)))"

subsection \<open>Reading the first of what was written\<close>

fun lexable :: "token list \<Rightarrow> string \<Rightarrow> bool" where
  "lexable [] u \<longleftrightarrow> True"
| "lexable (t # ts) u \<longleftrightarrow> next_token (token_text t @ text_of ts @ u) = Some (t, text_of ts @ u) \<and> lexable ts u"

lemma lexable_append: "lexable (ts @ ts') u \<longleftrightarrow> lexable ts (text_of ts' @ u) \<and> lexable ts' u"
  by (induction ts) auto

lemma next_string: "next_token (CHR 0x22 # json_quote s @ CHR 0x22 # u) = Some (TStr (json_quote s), u)"
  by (simp add: next_token_def is_space_def scan_str_quote)

lemma next_punct:
  "next_token (CHR ''{'' # u) = Some (TLBrace, u)" "next_token (CHR ''}'' # u) = Some (TRBrace, u)"
  "next_token (CHR ''['' # u) = Some (TLBrack, u)" "next_token (CHR '']'' # u) = Some (TRBrack, u)"
  "next_token (CHR '':'' # u) = Some (TColon, u)" "next_token (CHR '','' # u) = Some (TComma, u)"
  "next_token (CHR ''t'' # CHR ''r'' # CHR ''u'' # CHR ''e'' # u) = Some (TTrue, u)"
  "next_token (CHR ''f'' # CHR ''a'' # CHR ''l'' # CHR ''s'' # CHR ''e'' # u) = Some (TFalse, u)"
  "next_token (CHR ''n'' # CHR ''u'' # CHR ''l'' # CHR ''l'' # u) = Some (TNull, u)"
  by (simp_all add: next_token_def is_space_def fixed_token_def)

lemma next_num:
  assumes "num_end u"
  shows "next_token (fmt_int i @ u) = Some (TNum (fmt_int i), u)"
proof -
  obtain c cs where c: "fmt_int i = c # cs" "c = CHR ''-'' \<or> is_digit c"
    using fmt_d_hd [of "nat i"] by (cases "i < 0"; cases "fmt_d (nat i)") (auto simp: fmt_int_def)
  have "\<not> is_space c" "c \<noteq> CHR 0x22" "fixed_token (c # cs @ u) = None"
    using num_start [OF c(2)] fixed_token_hd [of c "cs @ u"] by (force simp: is_space_def)+
  then show ?thesis using scan_num_fmt_int [OF assms, of i] by (simp add: next_token_def c(1))
qed

lemma lexable_tokens:
  "plain j \<Longrightarrow> num_end u \<Longrightarrow> lexable (tokens j) u"
  "plain_elems js \<Longrightarrow> num_end u \<Longrightarrow> lexable (elem_tokens js) u"
  "plain_members ms \<Longrightarrow> num_end u \<Longrightarrow> lexable (member_tokens ms) u"
proof (induction j and js and ms arbitrary: u and u and u rule: tokens_elem_tokens_member_tokens.induct)
  case (3 n)
  then obtain i where "n = fmt_int i" by (auto split: option.splits)
  with 3 show ?case using next_num [of u i] by simp
qed (simp_all add: lexable_append next_punct next_string)

lemma lexable_object: "plain_members ms \<Longrightarrow> lexable (tokens (JObj ms)) u"
  using lexable_tokens(3) [of ms "CHR ''}'' # u"] by (simp add: lexable_append next_punct)

lemma first_value_tokens:
  "scan_all ts q = Some (st, EndTop v) \<Longrightarrow> ts \<noteq> [] \<Longrightarrow> lexable ts u \<Longrightarrow> first_value (text_of ts @ u) q = Some (v, u)"
proof (induction ts arbitrary: q)
  case (Cons t ts)
  from Cons.prems(1) obtain st' q' where q: "scan_step t q = Some (st', q')" "scan_all ts (st', q') = Some (st, EndTop v)"
    by (auto split: option.splits)
  have next_t: "next_token (token_text t @ text_of ts @ u) = Some (t, text_of ts @ u)" using Cons.prems(3) by simp
  show ?case
  proof (cases "ts = []")
    case True
    with q next_t show ?thesis by (subst first_value.simps) simp
  next
    case False
    then obtain t' ts' where "ts = t' # ts'" by (cases ts) auto
    with q(2) have "\<forall>w. q' \<noteq> EndTop w" by auto
    moreover have "first_value (text_of ts @ u) (st', q') = Some (v, u)"
      using Cons.IH [OF q(2) False] Cons.prems(3) by simp
    ultimately show ?thesis using q(1) next_t by (subst first_value.simps) (cases q'; simp)
  qed
qed simp

text \<open>\<open>Decode\<close> reads a struct that \<open>Marshal\<close> wrote, whatever follows it.\<close>

theorem Decode_Marshal:
  assumes "wf_kind (KStruct fs)" "kind_depth (KStruct fs) \<le> maxNestingDepth" "has_kind (KStruct fs) v"
  shows "Decode (KStruct fs) (Marshal (KStruct fs) v @ rest) = (Inr (sane_val v), rest)"
proof -
  obtain vs where v: "v = VStruct vs" using assms(3) by (cases v) auto
  let ?j = "enc (KStruct fs) v"
  have "depth ?j \<le> maxNestingDepth" using depth_enc(1) [of "KStruct fs" v] assms(2) by simp
  then have "scan_all (tokens ?j) ([], BeginValue) = Some ([], EndTop (sane ?j))"
    using scan_tokens(1) [of ?j "[]" BeginValue "[]"] by simp
  moreover have "lexable (tokens ?j) rest"
    using lexable_object [of "enc_fields fs vs" rest] plain_enc(3) by (simp add: v)
  ultimately have "first_value (text_of (tokens ?j) @ rest) ([], BeginValue) = Some (sane ?j, rest)"
    by (intro first_value_tokens) (auto simp: v)
  then show ?thesis
    using dec_enc(1) [OF assms(1,3)] by (simp add: Decode_def Marshal_def write_json_def)
qed

section \<open>Replies\<close>

record http_reply =
  rp_status :: nat
  rp_type :: string
  rp_body :: string

definition http_Error :: "string \<Rightarrow> nat \<Rightarrow> http_reply" where
  "http_Error msg status = \<lparr>rp_status = status, rp_type = ''text/plain; charset=utf-8'', rp_body = msg @ [CHR 0x0A]\<rparr>"

definition writeJSON :: "nat \<Rightarrow> kind \<times> gval \<Rightarrow> http_reply" where
  "writeJSON status v =
     \<lparr>rp_status = status, rp_type = ''application/json'', rp_body = Marshal (fst v) (snd v) @ [CHR 0x0A]\<rparr>"

definition healthResponse_kind :: kind where
  "healthResponse_kind = KStruct [(''status'', False, KString), (''node_id'', False, KString), (''uptime'', False, KString)]"

definition healthResponse_val :: "healthResponse \<Rightarrow> gval" where
  "healthResponse_val m = VStruct [VString (he_Status m), VString (he_NodeID m), VString (he_Uptime m)]"

definition metricsResponse_kind :: kind where
  "metricsResponse_kind = KStruct [(''node_id'', False, KString), (''keys_count'', False, KInt 64), (''hits'', False, KUint 64),
     (''misses'', False, KUint 64), (''sets'', False, KUint 64), (''deletes'', False, KUint 64), (''expirations'', False, KUint 64),
     (''hit_rate'', False, KString), (''uptime_ms'', False, KInt 64)]"

definition metricsResponse_val :: "metricsResponse \<Rightarrow> gval" where
  "metricsResponse_val m = VStruct [VString (me_NodeID m), VInt (int (me_KeysCount m)), VInt (uint (me_Hits m)),
     VInt (uint (me_Misses m)), VInt (uint (me_Sets m)), VInt (uint (me_Deletes m)), VInt (uint (me_Expirations m)),
     VString (me_HitRate m), VInt (me_UptimeMs m)]"

definition infoResponse_kind :: kind where
  "infoResponse_kind = KStruct [(''node_id'', False, KString), (''version'', False, KString), (''go_version'', False, KString),
     (''shard_count'', False, KInt 64), (''keys_count'', False, KInt 64), (''uptime_ms'', False, KInt 64),
     (''ring_members'', False, KSlice KString)]"

definition infoResponse_val :: "infoResponse \<Rightarrow> gval" where
  "infoResponse_val m = VStruct [VString (in_NodeID m), VString (in_Version m), VString (in_GoVersion m),
     VInt (in_ShardCount m), VInt (int (in_KeysCount m)), VInt (in_UptimeMs m),
     VSlice (map_option (map VString) (in_RingMembers m))]"

definition FaultStatus_kind :: kind where
  "FaultStatus_kind = KStruct [(''failed'', False, KBool), (''latency_ms'', False, KInt 64), (''partitioned'', False, KSlice KString)]"

definition FaultStatus_val :: "FaultStatus \<Rightarrow> gval" where
  "FaultStatus_val m = VStruct [VBool (fs_Failed m), VInt (fs_LatencyMs m), VSlice (Some (map VString (fs_Partitioned m)))]"

text \<open>A \<open>map[string]interface{}\<close> is written with its keys in order.\<close>

definition any_map :: "(string \<times> kind \<times> gval) list \<Rightarrow> kind \<times> gval" where
  "any_map ms =
     (let ms' = sort_key fst ms in (KStruct (map (\<lambda>(n, k, v). (n, False, k)) ms'), VStruct (map (\<lambda>(n, k, v). v) ms')))"

fun body_value :: "http_body \<Rightarrow> kind \<times> gval" where
  "body_value (Health m) = (healthResponse_kind, healthResponse_val m)"
| "body_value (Metrics m) = (metricsResponse_kind, metricsResponse_val m)"
| "body_value (Info m) = (infoResponse_kind, infoResponse_val m)"

fun chaos_value :: "chaos_body \<Rightarrow> kind \<times> gval" where
  "chaos_value (Fail_updated msg failed) =
     any_map [(''message'', KString, VString msg), (''failed'', KBool, VBool failed)]"
| "chaos_value (Latency_updated msg latencyMs) =
     any_map [(''message'', KString, VString msg), (''latency_ms'', KInt 64, VInt latencyMs)]"
| "chaos_value (Partition_updated msg peerID part) =
     any_map [(''message'', KString, VString msg), (''peer_id'', KString, VString peerID), (''partition'', KBool, VBool part)]"
| "chaos_value (Message_only msg) = any_map [(''message'', KString, VString msg)]"
| "chaos_value (Status_body st) = (FaultStatus_kind, FaultStatus_val st)"

fun reply_of :: "('b \<Rightarrow> kind \<times> gval) \<Rightarrow> 'b http_response \<Rightarrow> http_reply" where
  "reply_of f (Http_error st msg) = http_Error msg st"
| "reply_of f (Http_json st b) = writeJSON st (f b)"

section \<open>Requests\<close>

definition fail_kind :: kind where
  "fail_kind = KStruct [(''failed'', False, KBool)]"

definition slow_kind :: kind where
  "slow_kind = KStruct [(''latency_ms'', False, KInt 64)]"

definition partition_kind :: kind where
  "partition_kind = KStruct [(''peer_id'', False, KString), (''partition'', False, KBool)]"

text \<open>\<open>json.NewDecoder(r.Body).Decode(&req)\<close> into a request struct.\<close>

definition decode_body :: "(string \<Rightarrow> string) \<Rightarrow> kind \<Rightarrow> (gval \<Rightarrow> 'q) \<Rightarrow> string \<Rightarrow> string + 'q" where
  "decode_body errtext k of_val body = (case fst (Decode k body) of Inl err \<Rightarrow> Inl (errtext body) | Inr v \<Rightarrow> Inr (of_val v))"

definition partition_of :: "gval \<Rightarrow> string \<times> bool" where
  "partition_of v = (get_string (field 0 v), get_bool (field 1 v))"

text \<open>The mux: the handler of the pattern that is the path, or the answer 404.\<close>

record request_env =
  re_fl :: "rat \<Rightarrow> rat"
  re_rng :: "(string, bool) gomap \<Rightarrow> (string, bool) gomap"
  re_errtext :: "string \<Rightarrow> string"
  re_now1 :: instant
  re_now2 :: instant

definition ServeHTTP :: "request_env \<Rightarrow> HTTPServer \<Rightarrow> Handler \<Rightarrow> string \<Rightarrow> string \<Rightarrow> string \<Rightarrow> Handler \<times> http_reply" where
  "ServeHTTP env h ch path meth body =
     (let fi = ch_injector ch; err = re_errtext env;
          chaos = (\<lambda>(fi', rsp). (ch\<lparr>ch_injector := fi'\<rparr>, reply_of chaos_value rsp)) in
      case gm_get (hs_mux h) path of
        None \<Rightarrow> (ch, http_Error ''404 page not found'' 404)
      | Some Ep_health \<Rightarrow> (ch, reply_of body_value (handleHealth h meth (re_now1 env)))
      | Some Ep_metrics \<Rightarrow> (ch, reply_of body_value (handleMetrics (re_fl env) h meth (re_now1 env) (re_now2 env)))
      | Some Ep_info \<Rightarrow> (ch, reply_of body_value (handleInfo h meth (re_now1 env) (re_now2 env)))
      | Some Ep_fail_node \<Rightarrow> chaos (handleFailNode fi meth (decode_body err fail_kind (get_bool \<circ> field 0) body))
      | Some Ep_slow_node \<Rightarrow> chaos (handleSlowNode fi meth (decode_body err slow_kind (get_int \<circ> field 0) body))
      | Some Ep_partition \<Rightarrow> chaos (handlePartition fi meth (decode_body err partition_kind partition_of body))
      | Some Ep_recover \<Rightarrow> chaos (handleRecover fi meth)
      | Some Ep_status \<Rightarrow> (ch, reply_of chaos_value (handleStatus (re_rng env) fi meth)))"

section \<open>Reading a reply\<close>

lemma Unmarshal_line:
  assumes "wf_kind k" "kind_depth k \<le> maxNestingDepth" "has_kind k v"
  shows "Unmarshal k (zero_val k) (Marshal k v @ [CHR 0x0A]) = Inr (sane_val v)"
proof -
  have "json_lex [CHR 0x0A] = Some []"
    by (subst json_lex.simps) (simp add: is_space_def json_lex.simps [of "[]"])
  moreover have "num_end [CHR 0x0A]" by (simp add: num_end_def is_digit_def)
  ultimately have "json_lex (Marshal k v @ [CHR 0x0A]) = Some (tokens (enc k v))"
    using lex_tokens(1) [OF plain_enc(1), of "[CHR 0x0A]" k v] by (simp add: Marshal_def write_json_def)
  moreover have "json_lex (Marshal k v) = Some (tokens (enc k v))"
    using lex_tokens(1) [OF plain_enc(1), of "[]" k v] by (simp add: Marshal_def write_json_def) (simp add: json_lex.simps [of "[]"])
  ultimately have "Unmarshal k (zero_val k) (Marshal k v @ [CHR 0x0A]) = Unmarshal k (zero_val k) (Marshal k v)"
    by (simp add: Unmarshal_def read_json_def)
  then show ?thesis using Unmarshal_Marshal [OF assms] by simp
qed

context wire_type
begin

lemma reply_round_trip: "good m \<Longrightarrow> codec_Unmarshal K of_val (rp_body (writeJSON st (K, val nilp m))) = Inr (clean m)"
  using Unmarshal_line [OF kind_wf kind_shallow val_kind] of_val_val by (simp add: codec_Unmarshal_def writeJSON_def)

end

definition healthResponse_of :: "gval \<Rightarrow> healthResponse" where
  "healthResponse_of v = \<lparr>he_Status = get_string (field 0 v), he_NodeID = get_string (field 1 v), he_Uptime = get_string (field 2 v)\<rparr>"

definition metricsResponse_of :: "gval \<Rightarrow> metricsResponse" where
  "metricsResponse_of v = \<lparr>me_NodeID = get_string (field 0 v), me_KeysCount = nat (get_int (field 1 v)),
     me_Hits = word_of_int (get_int (field 2 v)), me_Misses = word_of_int (get_int (field 3 v)),
     me_Sets = word_of_int (get_int (field 4 v)), me_Deletes = word_of_int (get_int (field 5 v)),
     me_Expirations = word_of_int (get_int (field 6 v)), me_HitRate = get_string (field 7 v), me_UptimeMs = get_int (field 8 v)\<rparr>"

fun get_string_slice :: "gval \<Rightarrow> string list option" where
  "get_string_slice (VSlice vs) = map_option (map get_string) vs" | "get_string_slice _ = None"

definition infoResponse_of :: "gval \<Rightarrow> infoResponse" where
  "infoResponse_of v = \<lparr>in_NodeID = get_string (field 0 v), in_Version = get_string (field 1 v), in_GoVersion = get_string (field 2 v),
     in_ShardCount = get_int (field 3 v), in_KeysCount = nat (get_int (field 4 v)), in_UptimeMs = get_int (field 5 v),
     in_RingMembers = get_string_slice (field 6 v)\<rparr>"

definition FaultStatus_of :: "gval \<Rightarrow> FaultStatus" where
  "FaultStatus_of v = \<lparr>fs_Failed = get_bool (field 0 v), fs_LatencyMs = get_int (field 1 v), fs_Partitioned = get_strings (field 2 v)\<rparr>"

interpretation he_wire: wire_type healthResponse_kind "\<lambda>_. healthResponse_val" healthResponse_of "\<lambda>m. True"
  "\<lambda>m. m\<lparr>he_Status := sanitize (he_Status m), he_NodeID := sanitize (he_NodeID m), he_Uptime := sanitize (he_Uptime m)\<rparr>"
  by unfold_locales (auto simp: healthResponse_kind_def healthResponse_val_def healthResponse_of_def wire_simps)

interpretation me_wire: wire_type metricsResponse_kind "\<lambda>_. metricsResponse_val" metricsResponse_of
  "\<lambda>m. me_KeysCount m < 2 ^ 63 \<and> in_int64 (me_UptimeMs m)"
  "\<lambda>m. m\<lparr>me_NodeID := sanitize (me_NodeID m), me_HitRate := sanitize (me_HitRate m)\<rparr>"
  by unfold_locales (auto simp: metricsResponse_kind_def metricsResponse_val_def metricsResponse_of_def wire_simps)

interpretation in_wire: wire_type infoResponse_kind "\<lambda>_. infoResponse_val" infoResponse_of
  "\<lambda>m. in_int64 (in_ShardCount m) \<and> in_KeysCount m < 2 ^ 63 \<and> in_int64 (in_UptimeMs m)"
  "\<lambda>m. m\<lparr>in_NodeID := sanitize (in_NodeID m), in_Version := sanitize (in_Version m), in_GoVersion := sanitize (in_GoVersion m),
     in_RingMembers := map_option (map sanitize) (in_RingMembers m)\<rparr>"
proof (unfold_locales, goal_cases)
  case (3 m nilp)
  then show ?case by (cases "in_RingMembers m") (auto simp: infoResponse_kind_def infoResponse_val_def wire_simps)
next
  case (4 m nilp)
  then show ?case by (cases "in_RingMembers m") (auto simp: infoResponse_val_def infoResponse_of_def wire_simps)
qed (simp_all add: infoResponse_kind_def wire_simps)

interpretation fs_wire: wire_type FaultStatus_kind "\<lambda>_. FaultStatus_val" FaultStatus_of "\<lambda>m. in_int64 (fs_LatencyMs m)"
  "\<lambda>m. m\<lparr>fs_Partitioned := map sanitize (fs_Partitioned m)\<rparr>"
  by unfold_locales (auto simp: FaultStatus_kind_def FaultStatus_val_def FaultStatus_of_def wire_simps)

section \<open>Properties\<close>

lemma main_http_lookup:
  assumes "main_http nodeID s r now = Some h"
  shows "hs_nodeID h = nodeID" "hs_store h = s" "hs_ring h = r" "hs_startTime h = now"
    and "gm_get (hs_mux h) ''/health'' = Some Ep_health" "gm_get (hs_mux h) ''/metrics'' = Some Ep_metrics"
    "gm_get (hs_mux h) ''/info'' = Some Ep_info" "gm_get (hs_mux h) ''/chaos/fail-node'' = Some Ep_fail_node"
    "gm_get (hs_mux h) ''/chaos/slow-node'' = Some Ep_slow_node" "gm_get (hs_mux h) ''/chaos/partition'' = Some Ep_partition"
    "gm_get (hs_mux h) ''/chaos/recover'' = Some Ep_recover" "gm_get (hs_mux h) ''/chaos/status'' = Some Ep_status"
  using assms by (auto simp: main_http_routes)

lemma decode_written:
  assumes "wf_kind (KStruct fs)" "kind_depth (KStruct fs) \<le> maxNestingDepth" "has_kind (KStruct fs) v"
  shows "decode_body err (KStruct fs) f (Marshal (KStruct fs) v @ rest) = Inr (f (sane_val v))"
  using Decode_Marshal [OF assms] by (simp add: decode_body_def)

lemma handler_change:
  "fst (handleFailNode fi meth q1) \<noteq> fi \<Longrightarrow> meth = ''POST'' \<and> (\<exists>b. snd (handleFailNode fi meth q1) = Http_json 200 b)"
  "fst (handleSlowNode fi meth q2) \<noteq> fi \<Longrightarrow> meth = ''POST'' \<and> (\<exists>b. snd (handleSlowNode fi meth q2) = Http_json 200 b)"
  "fst (handlePartition fi meth q3) \<noteq> fi \<Longrightarrow> meth = ''POST'' \<and> (\<exists>b. snd (handlePartition fi meth q3) = Http_json 200 b)"
  "fst (handleRecover fi meth) \<noteq> fi \<Longrightarrow> meth = ''POST'' \<and> (\<exists>b. snd (handleRecover fi meth) = Http_json 200 b)"
  by (simp_all add: handleFailNode_def handleSlowNode_def handlePartition_def handleRecover_def split: if_splits sum.splits prod.splits)

lemma injector_change: "ch\<lparr>ch_injector := fi\<rparr> \<noteq> ch \<Longrightarrow> fi \<noteq> ch_injector ch"
  by auto

lemma ServeHTTP_no_change:
  assumes "rp_status (snd (ServeHTTP env h ch path meth body)) \<noteq> 200 \<or> meth = ''GET''"
  shows "fst (ServeHTTP env h ch path meth body) = ch"
proof (rule ccontr)
  assume ne: "fst (ServeHTTP env h ch path meth body) \<noteq> ch"
  then obtain ep where ep: "gm_get (hs_mux h) path = Some ep" by (auto simp: ServeHTTP_def Let_def split: option.splits)
  have "meth = ''POST'' \<and> (\<exists>b. snd (ServeHTTP env h ch path meth body) = writeJSON 200 (chaos_value b))"
    using ne unfolding ServeHTTP_def Let_def ep
    by (cases ep) (auto simp: split_beta dest!: injector_change handler_change)
  with assms show False by (auto simp: writeJSON_def)
qed

text \<open>
  C36. The admin endpoints answer in JSON that reads back. On the server that \<open>main.go\<close> builds, a
  GET of \<open>/health\<close>, \<open>/metrics\<close> and \<open>/info\<close> is answered with status 200, the JSON content type and
  a text that decodes to the node's name, its counters, the number of keys and the ring members
  as they are, with invalid UTF-8 replaced.
\<close>
theorem admin_replies:
  assumes "main_http nodeID s r t0 = Some h" "store_Len s (re_now1 env) < 2 ^ 63" "st = store_Stats s"
    and "he = snd (ServeHTTP env h ch ''/health'' ''GET'' body)" "me = snd (ServeHTTP env h ch ''/metrics'' ''GET'' body)"
    and "i = snd (ServeHTTP env h ch ''/info'' ''GET'' body)"
  shows "map rp_status [he, me, i] = [200, 200, 200] \<and> (\<forall>rp \<in> {he, me, i}. rp_type rp = ''application/json'') \<and>
    codec_Unmarshal healthResponse_kind healthResponse_of (rp_body he) =
      Inr \<lparr>he_Status = ''ok'', he_NodeID = sanitize nodeID,
        he_Uptime = sanitize (dur_String (dur_Round (Sub (re_now1 env) t0) (1000 * Millisecond)))\<rparr> \<and>
    codec_Unmarshal metricsResponse_kind metricsResponse_of (rp_body me) =
      Inr \<lparr>me_NodeID = sanitize nodeID, me_KeysCount = store_Len s (re_now1 env), me_Hits = Hits st, me_Misses = Misses st,
        me_Sets = Sets st, me_Deletes = Deletes st, me_Expirations = Expirations st, me_HitRate = sanitize (hit_rate (re_fl env) st),
        me_UptimeMs = Milliseconds (Sub (re_now2 env) t0)\<rparr> \<and>
    codec_Unmarshal infoResponse_kind infoResponse_of (rp_body i) =
      Inr \<lparr>in_NodeID = sanitize nodeID, in_Version = ''0.1.0'', in_GoVersion = ''go1.22'', in_ShardCount = 256,
        in_KeysCount = store_Len s (re_now1 env), in_UptimeMs = Milliseconds (Sub (re_now2 env) t0),
        in_RingMembers = map_option (map sanitize \<circ> Members) r\<rparr>"
proof -
  note h = main_http_lookup [OF assms(1)]
  have shards: "in_int64 256" by (simp add: in_int64_def)
  have "codec_Unmarshal healthResponse_kind healthResponse_of (rp_body he) =
      Inr \<lparr>he_Status = ''ok'', he_NodeID = sanitize nodeID,
        he_Uptime = sanitize (dur_String (dur_Round (Sub (re_now1 env) t0) (1000 * Millisecond)))\<rparr>"
    unfolding assms(4) by (simp add: ServeHTTP_def h handleHealth_def he_wire.reply_round_trip sanitize_ascii_Cons)
  moreover have "codec_Unmarshal metricsResponse_kind metricsResponse_of (rp_body me) =
      Inr \<lparr>me_NodeID = sanitize nodeID, me_KeysCount = store_Len s (re_now1 env), me_Hits = Hits st, me_Misses = Misses st,
        me_Sets = Sets st, me_Deletes = Deletes st, me_Expirations = Expirations st, me_HitRate = sanitize (hit_rate (re_fl env) st),
        me_UptimeMs = Milliseconds (Sub (re_now2 env) t0)\<rparr>"
    unfolding assms(5) using assms(2)
    by (simp add: ServeHTTP_def h handleMetrics_def Let_def me_wire.reply_round_trip in_int64_Milliseconds assms(3))
  moreover have "codec_Unmarshal infoResponse_kind infoResponse_of (rp_body i) =
      Inr \<lparr>in_NodeID = sanitize nodeID, in_Version = ''0.1.0'', in_GoVersion = ''go1.22'', in_ShardCount = 256,
        in_KeysCount = store_Len s (re_now1 env), in_UptimeMs = Milliseconds (Sub (re_now2 env) t0),
        in_RingMembers = map_option (map sanitize \<circ> Members) r\<rparr>"
    unfolding assms(6) using assms(2) shards
    by (simp add: ServeHTTP_def h handleInfo_def in_wire.reply_round_trip in_int64_Milliseconds sanitize_ascii_Cons option.map_comp)
  ultimately show ?thesis
    by (simp add: assms(4-6) ServeHTTP_def h handleHealth_def handleMetrics_def handleInfo_def Let_def writeJSON_def)
qed

abbreviation w_renv :: request_env where
  "w_renv \<equiv> \<lparr>re_fl = \<lambda>x. x, re_rng = \<lambda>m. m, re_errtext = \<lambda>_. ''EOF'', re_now1 = 7, re_now2 = 8\<rparr>"

definition w_store :: Store where
  "w_store = \<lparr>shards = [\<lparr>items = []\<rparr>], shardMask = 0, stats = zero_stats\<rparr>"

definition w_http :: HTTPServer where
  "w_http = the (main_http ''n1'' w_store None 0)"

lemma w_http_main: "main_http ''n1'' w_store None 0 = Some w_http"
  by (simp add: w_http_def main_http_routes)

theorem admin_replies_witness:
  "rp_status (snd (ServeHTTP w_renv w_http (NewHandler NewFaultInjector) ''/info'' ''GET'' [])) = 200"
proof -
  have "store_Len w_store (re_now1 w_renv) < 2 ^ 63" by (simp add: store_Len_def w_store_def)
  from admin_replies [OF w_http_main this refl refl refl refl] show ?thesis by simp
qed

text \<open>
  C35. Chaos requests, from their text to the fault. The text that encodes a request sets exactly
  the fault it names, whatever stands after the request in the body: the crash flag, the latency
  or the partition from a peer, and the reply says so.
  A GET, and any request that is not answered with 200, changes no fault; so a request that
  cannot be decoded changes none.
\<close>
theorem chaos_request_text:
  assumes "main_http nodeID s r t0 = Some h" "in_int64 ms" "utf8_valid peer" "peer \<noteq> []" "fi = ch_injector ch"
  shows "ServeHTTP env h ch ''/chaos/fail-node'' ''POST'' (Marshal fail_kind (VStruct [VBool b]) @ rest) =
      (ch\<lparr>ch_injector := SetFailed fi b\<rparr>, writeJSON 200 (chaos_value (Fail_updated ''node failure state updated'' b))) \<and>
    ServeHTTP env h ch ''/chaos/slow-node'' ''POST'' (Marshal slow_kind (VStruct [VInt ms]) @ rest) =
      (ch\<lparr>ch_injector := SetLatency fi (dur_of_ms ms)\<rparr>, writeJSON 200 (chaos_value (Latency_updated ''node latency updated'' ms))) \<and>
    ServeHTTP env h ch ''/chaos/partition'' ''POST'' (Marshal partition_kind (VStruct [VString peer, VBool b]) @ rest) =
      (ch\<lparr>ch_injector := PartitionNode fi peer b\<rparr>,
       writeJSON 200 (chaos_value (Partition_updated ''node partition state updated'' peer b))) \<and>
    (rp_status (snd (ServeHTTP env h ch path meth body)) \<noteq> 200 \<or> meth = ''GET'' \<longrightarrow>
      fst (ServeHTTP env h ch path meth body) = ch)"
proof -
  note h = main_http_lookup [OF assms(1)]
  have 1: "decode_body err fail_kind f (Marshal fail_kind (VStruct [VBool b]) @ rest) = Inr (f (VStruct [VBool b]))" for err and f :: "gval \<Rightarrow> bool"
    unfolding fail_kind_def by (subst decode_written) (simp_all add: wire_simps)
  have 2: "decode_body err slow_kind f (Marshal slow_kind (VStruct [VInt ms]) @ rest) = Inr (f (VStruct [VInt ms]))" for err and f :: "gval \<Rightarrow> int"
    unfolding slow_kind_def using assms(2) by (subst decode_written) (simp_all add: wire_simps)
  have 3: "decode_body err partition_kind f (Marshal partition_kind (VStruct [VString peer, VBool b]) @ rest) =
      Inr (f (VStruct [VString peer, VBool b]))" for err and f :: "gval \<Rightarrow> string \<times> bool"
    unfolding partition_kind_def using assms(3) by (subst decode_written) (simp_all add: wire_simps sanitize_valid)
  show ?thesis
    by (intro conjI impI ServeHTTP_no_change)
      (use assms(4,5) in \<open>simp_all add: ServeHTTP_def Let_def h 1 2 3 handleFailNode_def handleSlowNode_def handlePartition_def
         partition_of_def field_def\<close>)
qed

theorem chaos_request_text_witness:
  "IsPartitioned (ch_injector (fst (ServeHTTP w_renv w_http (NewHandler NewFaultInjector) ''/chaos/partition'' ''POST''
     (Marshal partition_kind (VStruct [VString ''n2'', VBool True]) @ ''trailing'')))) ''n2''"
proof -
  have "utf8_valid ''n2''" by (rule utf8_valid_ascii) auto
  from chaos_request_text [OF w_http_main _ this, of 0 _ "NewHandler NewFaultInjector" w_renv True "''trailing''"] show ?thesis
    by (simp add: in_int64_def IsPartitioned_def PartitionNode_def)
qed

end
