(* ===== verification/Key_Transfer.thy ===== *)
theory Key_Transfer
  imports Wire
begin

text \<open>
  The stream of \<open>TransferKeys\<close> between two nodes, \<open>internal/server/service.go\<close>: the server's \<open>Send\<close>
  writes messages, the client's \<open>Recv\<close> reads them until the stream ends. What travels is the list
  of encoded messages and the status that ends the stream.
\<close>

section \<open>Both ends of the stream\<close>

record key_stream =
  ks_msgs :: "string list"
  ks_status :: "rpc_error option"

definition transfer_Send :: "bool \<Rightarrow> KeyValuePair \<Rightarrow> string" where
  "transfer_Send nilp kv = codec_Marshal KeyValuePair_kind (KeyValuePair_val nilp kv)"

datatype stream_end = EOF | Stream_failed rpc_error

definition transfer_Recv :: "key_stream \<Rightarrow> (stream_end + KeyValuePair) \<times> key_stream" where
  "transfer_Recv ks =
     (case ks_msgs ks of
        [] \<Rightarrow> (Inl (case ks_status ks of None \<Rightarrow> EOF | Some err \<Rightarrow> Stream_failed err), ks)
      | data # rest \<Rightarrow>
          (case from_wire KeyValuePair_kind KeyValuePair_of data of
             Inl err \<Rightarrow> (Inl (Stream_failed err), ks\<lparr>ks_msgs := rest\<rparr>)
           | Inr kv \<Rightarrow> (Inr kv, ks\<lparr>ks_msgs := rest\<rparr>)))"

text \<open>The server side on the bytes of the request, and a client that reads to the end.\<close>

definition serve_transfer :: "call_env \<Rightarrow> bool \<Rightarrow> (nat \<Rightarrow> bool) \<Rightarrow> string \<Rightarrow> CacheServer \<Rightarrow> key_stream" where
  "serve_transfer env nilp send_ok data cs =
     (case ServiceDesc_stream env send_ok (from_wire TransferKeysRequest_kind TransferKeysRequest_of data) cs of
        (kvs, err) \<Rightarrow> \<lparr>ks_msgs = map (transfer_Send nilp) kvs, ks_status = err\<rparr>)"

function recv_all :: "key_stream \<Rightarrow> KeyValuePair list \<times> stream_end" where
  "recv_all ks =
     (case transfer_Recv ks of
        (Inl e, _) \<Rightarrow> ([], e)
      | (Inr kv, ks') \<Rightarrow> apfst ((#) kv) (recv_all ks'))"
  by pat_completeness auto
termination
  by (relation "measure (length \<circ> ks_msgs)") (auto simp: transfer_Recv_def split: list.splits sum.splits)

declare recv_all.simps [simp del]

section \<open>What arrives\<close>

lemma recv_all_sent:
  assumes "\<forall>kv \<in> set kvs. in_int64 (kv_TtlMs kv) \<and> utf8_valid (kv_Key kv)"
  shows "recv_all \<lparr>ks_msgs = map (transfer_Send nilp) kvs, ks_status = None\<rparr> = (kvs, EOF)"
  using assms
proof (induction kvs)
  case Nil
  show ?case by (subst recv_all.simps) (simp add: transfer_Recv_def)
next
  case (Cons kv kvs)
  have "from_wire KeyValuePair_kind KeyValuePair_of (transfer_Send nilp kv) = Inr kv"
    using kv_wire.wire_round_trip [of kv nilp] Cons.prems by (simp add: from_wire_def transfer_Send_def sanitize_valid)
  with Cons show ?case by (subst recv_all.simps) (simp add: transfer_Recv_def)
qed

text \<open>A stream that broke off is a prefix of the whole stream.\<close>

abbreviation send_all :: "nat \<Rightarrow> bool" where
  "send_all \<equiv> \<lambda>_. True"

lemma transfer_step_cases:
  "ok (length st) \<Longrightarrow> transfer_step ok st k v t = (st @ [\<lparr>kv_Key = k, kv_Value = v, kv_TtlMs = Milliseconds t\<rparr>], True)"
  "\<not> ok (length st) \<Longrightarrow> transfer_step ok st k v t = (st, False)"
  by (simp_all add: transfer_step_def)

lemma each_item_extends: "\<exists>zs. each_item now (transfer_step send_all) kvs st = (st @ zs, True)"
proof (induction kvs arbitrary: st)
  case (Cons kv kvs)
  obtain k e where kv: "kv = (k, e)" by (cases kv)
  from Cons [of st] Cons [of "st @ [\<lparr>kv_Key = k, kv_Value = eValue e, kv_TtlMs = Milliseconds (remaining_ttl now e)\<rparr>]"]
  show ?case by (auto simp: kv transfer_step_cases)
qed simp

lemma each_item_cut:
  "\<exists>zs. fst (each_item now (transfer_step send_all) kvs st) = fst (each_item now (transfer_step ok) kvs st) @ zs \<and>
     (snd (each_item now (transfer_step ok) kvs st) \<longrightarrow> zs = [])"
proof (induction kvs arbitrary: st)
  case (Cons kv kvs)
  obtain k e where kv: "kv = (k, e)" by (cases kv)
  let ?st = "st @ [\<lparr>kv_Key = k, kv_Value = eValue e, kv_TtlMs = Milliseconds (remaining_ttl now e)\<rparr>]"
  show ?case
  proof (cases "ok (length st)")
    case True
    with Cons [of st] Cons [of ?st] show ?thesis by (simp add: kv transfer_step_cases)
  next
    case False
    obtain zs where "each_item now (transfer_step send_all) kvs ?st = (?st @ zs, True)" using each_item_extends by blast
    moreover have "transfer_step send_all st k (eValue e) (remaining_ttl now e) = (?st, True)"
      by (rule transfer_step_cases) simp
    ultimately show ?thesis
      using Cons [of st] transfer_step_cases(2) [of ok st k "eValue e" "remaining_ttl now e", OF False] by (simp add: kv)
  qed
qed simp

lemma each_shard_extends: "\<exists>zs. fst (each_shard rng now (transfer_step send_all) i shs st) = st @ zs"
proof (induction shs arbitrary: i st)
  case (Cons sh shs)
  obtain zs where "each_item now (transfer_step send_all) (rng i (items sh)) st = (st @ zs, True)" using each_item_extends by blast
  with Cons [of "Suc i" "st @ zs"] show ?case by auto
qed simp

lemma each_shard_cut:
  "\<exists>zs. fst (each_shard rng now (transfer_step send_all) i shs st) = fst (each_shard rng now (transfer_step ok) i shs st) @ zs"
proof (induction shs arbitrary: i st)
  case (Cons sh shs)
  let ?f = "each_item now (transfer_step ok) (rng i (items sh)) st" and ?g = "each_item now (transfer_step send_all) (rng i (items sh)) st"
  obtain zs where zs: "fst ?g = fst ?f @ zs" "snd ?f \<longrightarrow> zs = []" using each_item_cut by blast
  have "snd ?g" using each_item_extends [of now "rng i (items sh)" st] by auto
  then have g: "each_shard rng now (transfer_step send_all) i (sh # shs) st = each_shard rng now (transfer_step send_all) (Suc i) shs (fst ?f @ zs)"
    using zs(1) by (simp add: split_beta)
  show ?case
  proof (cases "snd ?f")
    case True
    with zs g Cons [of "Suc i" "fst ?f"] show ?thesis by (simp add: split_beta)
  next
    case False
    with each_shard_extends [of rng now "Suc i" shs "fst ?f @ zs"] show ?thesis unfolding g by (auto simp: split_beta)
  qed
qed simp

lemma TransferKeys_all:
  "TransferKeys rng send_all now req cs =
     map (\<lambda>(k, v, t). \<lparr>kv_Key = k, kv_Value = v, kv_TtlMs = Milliseconds t\<rparr>) (ForEach rng (cs_store cs) now collect [])"
proof -
  have "(\<lambda>st (k, e). fst (transfer_step send_all st k (eValue e) (remaining_ttl now e))) =
      (\<lambda>st x. st @ [(\<lambda>(k, e). \<lparr>kv_Key = k, kv_Value = eValue e, kv_TtlMs = Milliseconds (remaining_ttl now e)\<rparr>) x])"
    by (auto simp: transfer_step_def fun_eq_iff)
  then show ?thesis
    using ForEach_foldl [of "transfer_step send_all" rng "cs_store cs" now "[]"]
    by (simp add: TransferKeys_def transfer_step_def ForEach_collect foldl_append_map split_def o_def)
qed

lemma TransferKeys_cut: "\<exists>zs. TransferKeys rng send_all now req cs = TransferKeys rng ok now req cs @ zs"
  unfolding TransferKeys_def ForEach_def by (rule each_shard_cut)

section \<open>Properties\<close>

lemma remaining_ttl_ms: "in_int64 (Milliseconds (remaining_ttl now e))"
proof -
  have "Sub now now = 0" by (simp add: Sub_def)
  then show ?thesis using in_int64_Milliseconds [of now now] by (simp add: remaining_ttl_def in_int64_Milliseconds)
qed

lemma serve_transfer_no_fault:
  assumes "no_fault env cs"
  shows "serve_transfer env nilp ok (codec_Marshal TransferKeysRequest_kind (TransferKeysRequest_val nilq req)) cs =
    \<lparr>ks_msgs = map (transfer_Send nilp) (TransferKeys (ce_rng env) ok (ce_clk env 0) req cs), ks_status = None\<rparr>"
proof -
  have "from_wire TransferKeysRequest_kind TransferKeysRequest_of
      (codec_Marshal TransferKeysRequest_kind (TransferKeysRequest_val nilq req)) =
    Inr (req\<lparr>tq_RequestingNode := sanitize (tq_RequestingNode req)\<rparr>)"
    using tq_wire.wire_round_trip [where m = req and nilp = nilq] by (simp add: from_wire_def)
  with assms show ?thesis
    by (auto simp: serve_transfer_def ServiceDesc_stream_def handleTransferKeys_def TransferKeys_def StreamInterceptor_def no_fault_def Let_def
        split: option.splits)
qed



end
