(* ===== verification/Inflight.thy ===== *)
theory Inflight
  imports Server
begin

text \<open>
  Handlers in flight. gRPC runs every call in a goroutine of its own, so that one call enters while
  others are between entering and leaving. A handler that tracks the load has three steps: it
  passes the interceptors and enters, it runs its body, and it leaves, which is the deferred
  \<open>DecrementLoad\<close>. The body is one step here; what can come between the parts of a body is the
  subject of \<open>concurrent_sets_diverge\<close> in theory \<open>Cluster\<close>. Between the steps of a handler there can be steps of others,
  changes of the ring for other nodes, and changes of the injected faults.
\<close>

section \<open>The steps of a handler\<close>

text \<open>The body of a tracked method with a decoded request, and the method itself.\<close>

fun handler_body :: "call_env \<Rightarrow> rpc_call \<Rightarrow> (CacheServer \<Rightarrow> rpc_reply handled) option" where
  "handler_body env (Call_Get (Inr q)) = Some (\<lambda>cs. tag Reply_Get (get_body (ce_get env) (ce_clk env) q cs))"
| "handler_body env (Call_Set (Inr q)) = Some (\<lambda>cs. tag Reply_Set (set_body (ce_set env) (ce_clk env) q cs))"
| "handler_body env (Call_Delete (Inr q)) = Some (\<lambda>cs. tag Reply_Delete (delete_body (ce_del env) q cs))"
| "handler_body env (Call_Expire (Inr q)) = Some (\<lambda>cs. tag Reply_Expire (expire_body (ce_exp env) (ce_clk env) q cs))"
| "handler_body env call = None"

datatype handler_pc = Entered call_env rpc_call | Returning "rpc_error + rpc_reply"

datatype flight_event =
    Ran nat call_env rpc_call
  | Node_added "VNode list \<Rightarrow> VNode list" string
  | Node_removed string
  | Faults_set "FaultInjector option"

text \<open>\<open>f_log\<close> lists what has taken effect, in order.\<close>

record Flight =
  f_cs :: CacheServer
  f_pcs :: "(nat, handler_pc) gomap"
  f_log :: "flight_event list"

definition set_ring :: "Ring \<Rightarrow> CacheServer \<Rightarrow> CacheServer" where
  "set_ring r cs = cs\<lparr>cs_ring := r\<rparr>"

inductive flight_step :: "Flight \<Rightarrow> Flight \<Rightarrow> bool" where
  call_enters: "handler_body env call = Some body \<Longrightarrow> no_fault env (f_cs s) \<Longrightarrow> gm_get (f_pcs s) i = None \<Longrightarrow>
    (\<forall>env' call'. Ran i env' call' \<notin> set (f_log s)) \<Longrightarrow>
    flight_step s (s\<lparr>f_cs := enter (f_cs s), f_pcs := gm_put i (Entered env call) (f_pcs s)\<rparr>)"
| body_runs: "gm_get (f_pcs s) i = Some (Entered env call) \<Longrightarrow> handler_body env call = Some body \<Longrightarrow> body (f_cs s) = (cs, r) \<Longrightarrow>
    flight_step s (s\<lparr>f_cs := cs, f_pcs := gm_put i (Returning r) (f_pcs s), f_log := f_log s @ [Ran i env call]\<rparr>)"
| call_leaves: "gm_get (f_pcs s) i = Some (Returning r) \<Longrightarrow>
    flight_step s (s\<lparr>f_cs := leave (f_cs s), f_pcs := gm_del i (f_pcs s)\<rparr>)"
| node_added: "x \<noteq> cs_nodeID (f_cs s) \<Longrightarrow>
    flight_step s (s\<lparr>f_cs := set_ring (fst (AddNode sortf (cs_ring (f_cs s)) x)) (f_cs s), f_log := f_log s @ [Node_added sortf x]\<rparr>)"
| node_removed: "x \<noteq> cs_nodeID (f_cs s) \<Longrightarrow> RemoveNode (cs_ring (f_cs s)) x = Some (r, b, cb) \<Longrightarrow>
    flight_step s (s\<lparr>f_cs := set_ring r (f_cs s), f_log := f_log s @ [Node_removed x]\<rparr>)"
| faults_set: "flight_step s (s\<lparr>f_cs := (f_cs s)\<lparr>cs_fi := fi\<rparr>, f_log := f_log s @ [Faults_set fi]\<rparr>)"

inductive flight_run :: "CacheServer \<Rightarrow> Flight \<Rightarrow> bool" for cs0 where
  flight_init: "flight_run cs0 \<lparr>f_cs = cs0, f_pcs = [], f_log = []\<rparr>"
| flight_next: "flight_run cs0 s \<Longrightarrow> flight_step s s' \<Longrightarrow> flight_run cs0 s'"

section \<open>One call after the other\<close>

text \<open>The same events with every call run as a whole by its method, entering and leaving included.\<close>

fun call_method :: "call_env \<Rightarrow> rpc_call \<Rightarrow> CacheServer \<Rightarrow> rpc_reply handled" where
  "call_method env (Call_Get (Inr q)) cs = tag Reply_Get (server_Get (ce_get env) (ce_clk env) q cs)"
| "call_method env (Call_Set (Inr q)) cs = tag Reply_Set (server_Set (ce_set env) (ce_clk env) q cs)"
| "call_method env (Call_Delete (Inr q)) cs = tag Reply_Delete (server_Delete (ce_del env) q cs)"
| "call_method env (Call_Expire (Inr q)) cs = tag Reply_Expire (server_Expire (ce_exp env) (ce_clk env) q cs)"
| "call_method env call cs = ServiceDesc env call cs"

fun do_event :: "CacheServer \<Rightarrow> flight_event \<Rightarrow> CacheServer" where
  "do_event cs (Ran i env call) = fst (call_method env call cs)"
| "do_event cs (Node_added sortf x) = set_ring (fst (AddNode sortf (cs_ring cs) x)) cs"
| "do_event cs (Node_removed x) = (case RemoveNode (cs_ring cs) x of None \<Rightarrow> cs | Some (r, _) \<Rightarrow> set_ring r cs)"
| "do_event cs (Faults_set fi) = cs\<lparr>cs_fi := fi\<rparr>"

abbreviation serial :: "CacheServer \<Rightarrow> flight_event list \<Rightarrow> CacheServer" where
  "serial cs0 \<equiv> foldl do_event cs0"

section \<open>A server with \<open>n\<close> calls in flight\<close>

definition loaded :: "int \<Rightarrow> CacheServer \<Rightarrow> CacheServer" where
  "loaded n cs = (if cs_hasRing cs then set_ring (add_load (cs_ring cs) (cs_nodeID cs) n) cs else cs)"

lemma int64_add: "int64 (int64 a + b) = int64 (a + b)"
  using signed_take_bit_add [of 63 "signed_take_bit 63 a" b] signed_take_bit_add [of 63 a b]
  by (simp add: int64_def)

lemma add_load_add: "add_load (add_load r x a) x b = add_load r x (a + b)"
  by (auto simp: add_load_def int64_add add.assoc split: option.split)

lemma add_load_0: "loads_ok r \<Longrightarrow> add_load r x 0 = r"
  by (auto simp: add_load_def loads_ok_def gm_put_same split: option.split)

lemma set_ring_simps [simp]:
  "cs_ring (set_ring r cs) = r" "cs_nodeID (set_ring r cs) = cs_nodeID cs" "cs_hasRing (set_ring r cs) = cs_hasRing cs"
  "set_ring r (set_ring r' cs) = set_ring r cs" "set_ring (cs_ring cs) cs = cs"
  by (simp_all add: set_ring_def)

lemma loaded_simps [simp]:
  "cs_nodeID (loaded n cs) = cs_nodeID cs" "cs_hasRing (loaded n cs) = cs_hasRing cs"
  by (simp_all add: loaded_def)

lemma loaded_enter: "enter (loaded n cs) = loaded (n + 1) cs"
  by (simp add: enter_def loaded_def IncrementLoad_def add_load_add flip: set_ring_def)

lemma loaded_leave: "leave (loaded n cs) = loaded (n - 1) cs"
  by (simp add: leave_def loaded_def DecrementLoad_def add_load_add flip: set_ring_def)

lemma loaded_0: "loads_ok (cs_ring cs) \<Longrightarrow> loaded 0 cs = cs"
  by (simp add: loaded_def add_load_0)

lemma loaded_loads: "\<exists>l. \<forall>cs'. cs_ring cs' = cs_ring cs \<and> cs_nodeID cs' = cs_nodeID cs \<and> cs_hasRing cs' = cs_hasRing cs \<longrightarrow>
    loaded n cs' = set_loads l cs'"
proof -
  let ?r = "if cs_hasRing cs then add_load (cs_ring cs) (cs_nodeID cs) n else cs_ring cs"
  have "?r = (cs_ring cs)\<lparr>loads := loads ?r\<rparr>" by (simp add: add_load_def split: option.split)
  then show ?thesis
    by (intro exI [of _ "loads ?r"]) (auto simp: loaded_def set_loads_def set_ring_def)
qed

lemma blind_loaded:
  assumes "blind body"
  shows "body (loaded n cs) = apfst (loaded n) (body cs)"
proof -
  obtain l where l: "\<forall>cs'. cs_ring cs' = cs_ring cs \<and> cs_nodeID cs' = cs_nodeID cs \<and> cs_hasRing cs' = cs_hasRing cs \<longrightarrow>
      loaded n cs' = set_loads l cs'" using loaded_loads by blast
  have "body (set_loads l cs) = apfst (set_loads l) (body cs)" "loaded n (fst (body cs)) = set_loads l (fst (body cs))"
    using assms l unfolding blind_def by blast+
  then show ?thesis using l by (simp add: apfst_def map_prod_def split_beta)
qed

lemma blind_tag: "blind body \<Longrightarrow> blind (\<lambda>cs. tag f (body cs))"
  by (auto simp: blind_def tag_def split_beta)

lemma tag_tracked: "tag f (tracked body cs) = tracked (\<lambda>cs. tag f (body cs)) cs"
  by (simp add: tag_def tracked_def split_beta)

lemma handler_body_method:
  assumes "handler_body env call = Some body"
  shows "blind body" "call_method env call = tracked body"
proof -
  show "blind body"
    using assms by (induction env call rule: handler_body.induct) (auto intro: blind_tag bodies_blind)
  have "call_method env call cs = tracked body cs" for cs
    using assms
    by (induction env call rule: handler_body.induct)
      (auto simp: tag_tracked server_Get_def server_Set_def server_Delete_def server_Expire_def)
  then show "call_method env call = tracked body" by (simp add: fun_eq_iff)
qed

text \<open>A change of the ring for another node does not concern the own load.\<close>

lemma put_put: "gm_get m k \<noteq> None \<Longrightarrow> x \<noteq> k \<Longrightarrow> gm_put x v (gm_put k w m) = gm_put k w (gm_put x v m)"
  by (induction m) auto

lemma del_put: "x \<noteq> k \<Longrightarrow> gm_del x (gm_put k w m) = gm_put k w (gm_del x m)"
  by (induction m) auto

lemma loaded_AddNode:
  assumes "x \<noteq> cs_nodeID cs"
  shows "set_ring (fst (AddNode sortf (cs_ring (loaded n cs)) x)) (loaded n cs) = loaded n (set_ring (fst (AddNode sortf (cs_ring cs) x)) cs)"
  using assms by (auto simp: loaded_def AddNode_def add_load_def HasNode_def split: option.split
      intro!: arg_cong [where f = "\<lambda>r. set_ring r cs"] Ring.equality put_put)

lemma loaded_RemoveNode:
  assumes "x \<noteq> cs_nodeID cs" "RemoveNode (cs_ring (loaded n cs)) x = Some (r, b, cb)"
  shows "set_ring r (loaded n cs) = loaded n (do_event cs (Node_removed x))"
  using assms by (auto simp: loaded_def RemoveNode_def add_load_def HasNode_def del_put split: option.splits if_splits
      intro!: arg_cong [where f = "\<lambda>r. set_ring r cs"] Ring.equality)

section \<open>The invariant of the interleaving\<close>

lemma do_event_frame: "cs_nodeID (do_event cs e) = cs_nodeID cs \<and> cs_hasRing (do_event cs e) = cs_hasRing cs"
  if "\<And>i env call. e = Ran i env call \<Longrightarrow> handler_body env call \<noteq> None" "loads_ok (cs_ring cs)"
proof (cases e)
  case (Ran i env call)
  with that obtain body where "handler_body env call = Some body" by auto
  from handler_body_method [OF this] that(2) Ran show ?thesis
    by (simp add: tracked_blind) (simp add: blind_def)
qed (auto split: option.split)

lemma do_event_loads:
  assumes "\<And>i env call. e = Ran i env call \<Longrightarrow> handler_body env call \<noteq> None" "loads_ok (cs_ring cs)"
    "\<And>x sortf. e = Node_added sortf x \<or> e = Node_removed x \<Longrightarrow> x \<noteq> cs_nodeID cs"
  shows "loads_ok (cs_ring (do_event cs e)) \<and>
    gm_get (loads (cs_ring (do_event cs e))) (cs_nodeID cs) = gm_get (loads (cs_ring cs)) (cs_nodeID cs)"
proof (cases e)
  case (Ran i env call)
  with assms obtain body where "handler_body env call = Some body" by auto
  from handler_body_method [OF this] assms(2) Ran have "cs_ring (do_event cs e) = cs_ring cs"
    by (simp add: tracked_blind) (simp add: blind_def)
  with assms(2) show ?thesis by simp
next
  case (Node_added sortf x)
  have "int64 0 = 0" by (simp add: int64_def)
  with assms(2) assms(3) [of sortf x] Node_added show ?thesis by (auto simp: AddNode_def loads_ok_def split: if_splits)
next
  case (Node_removed x)
  with assms(2) assms(3) [of _ x] show ?thesis
    by (auto simp: RemoveNode_def loads_ok_def split: option.splits if_splits)
qed (use assms(2) in simp)

definition in_order :: "CacheServer \<Rightarrow> flight_event list \<Rightarrow> nat \<Rightarrow> rpc_error + rpc_reply \<Rightarrow> bool" where
  "in_order cs0 evs i r \<longleftrightarrow> (\<exists>l1 l2 env call. evs = l1 @ Ran i env call # l2 \<and> r = snd (call_method env call (serial cs0 l1)))"

definition flight_inv :: "CacheServer \<Rightarrow> Flight \<Rightarrow> bool" where
  "flight_inv cs0 s \<longleftrightarrow>
     (let cs = serial cs0 (f_log s) in
      f_cs s = loaded (int (length (f_pcs s))) cs \<and> loads_ok (cs_ring cs) \<and> cs_nodeID cs = cs_nodeID cs0 \<and>
      cs_hasRing cs = cs_hasRing cs0 \<and>
      gm_get (loads (cs_ring cs)) (cs_nodeID cs0) = gm_get (loads (cs_ring cs0)) (cs_nodeID cs0)) \<and>
     gm_inv (f_pcs s) \<and>
     (\<forall>i r. gm_get (f_pcs s) i = Some (Returning r) \<longrightarrow> in_order cs0 (f_log s) i r)"

lemma in_order_snoc: "in_order cs0 evs i r \<Longrightarrow> in_order cs0 (evs @ es) i r"
  unfolding in_order_def by (metis append.assoc append_Cons)

lemma flight_inv_event:
  assumes "flight_inv cs0 s" "\<And>i env call. e = Ran i env call \<Longrightarrow> handler_body env call \<noteq> None"
    "\<And>x sortf. e = Node_added sortf x \<or> e = Node_removed x \<Longrightarrow> x \<noteq> cs_nodeID cs0"
    "f_cs s' = loaded (int (length (f_pcs s'))) (do_event (serial cs0 (f_log s)) e)" "f_log s' = f_log s @ [e]" "gm_inv (f_pcs s')"
    "\<And>i r. gm_get (f_pcs s') i = Some (Returning r) \<Longrightarrow> in_order cs0 (f_log s @ [e]) i r"
  shows "flight_inv cs0 s'"
proof -
  let ?cs = "serial cs0 (f_log s)"
  have ok: "loads_ok (cs_ring ?cs)" "cs_nodeID ?cs = cs_nodeID cs0" "cs_hasRing ?cs = cs_hasRing cs0"
    "gm_get (loads (cs_ring ?cs)) (cs_nodeID cs0) = gm_get (loads (cs_ring cs0)) (cs_nodeID cs0)"
    using assms(1) by (simp_all add: flight_inv_def Let_def)
  show ?thesis
    using do_event_frame [OF assms(2) ok(1)] do_event_loads [OF assms(2) ok(1)] assms(3-7) ok
    by (simp add: flight_inv_def Let_def)
qed

lemma length_put: "length (gm_put k v m) = (if gm_get m k = None then Suc (length m) else length m)"
  by (induction m) auto

lemma length_del: "gm_inv m \<Longrightarrow> gm_get m k \<noteq> None \<Longrightarrow> length m = Suc (length (gm_del k m))"
  by (induction m) (auto simp: gm_inv_def, blast)

lemma flight_step_inv:
  assumes "flight_step s s'" "flight_inv cs0 s"
  shows "flight_inv cs0 s'"
  using assms(1)
proof cases
  case (call_enters env call body i)
  have "f_cs s = loaded (int (length (f_pcs s))) (serial cs0 (f_log s))" "gm_inv (f_pcs s)"
    using assms(2) by (simp_all add: flight_inv_def Let_def)
  with call_enters assms(2) show ?thesis
    by (auto simp: flight_inv_def Let_def loaded_enter length_put alm.inv_put add.commute)
next
  case (body_runs i env call body cs r)
  let ?cs = "serial cs0 (f_log s)" and ?n = "int (length (f_pcs s))"
  have inv: "f_cs s = loaded ?n ?cs" "loads_ok (cs_ring ?cs)" "gm_inv (f_pcs s)"
    using assms(2) by (simp_all add: flight_inv_def Let_def)
  note body = handler_body_method [OF body_runs(3)]
  have m: "call_method env call ?cs = body ?cs" using tracked_blind [OF body(1) inv(2)] body(2) by simp
  with blind_loaded [OF body(1), of ?n ?cs] body_runs(4) inv(1)
  have eff: "cs = loaded ?n (fst (call_method env call ?cs))" "r = snd (call_method env call ?cs)"
    by (metis apfst_conv fst_conv prod.collapse snd_conv)+
  let ?e = "Ran i env call"
  have "in_order cs0 (f_log s @ [?e]) i r" unfolding in_order_def eff(2) by blast
  then have "in_order cs0 (f_log s @ [?e]) j q" if "gm_get (gm_put i (Returning r) (f_pcs s)) j = Some (Returning q)" for j q
    using that assms(2) in_order_snoc by (auto simp: flight_inv_def split: if_splits)
  then show ?thesis
    using body_runs(1-3) eff(1) inv(3) by (intro flight_inv_event [OF assms(2), of ?e]) (simp_all add: length_put alm.inv_put)
next
  case (call_leaves i r)
  have "f_cs s = loaded (int (length (f_pcs s))) (serial cs0 (f_log s))" "gm_inv (f_pcs s)"
    using assms(2) by (simp_all add: flight_inv_def Let_def)
  moreover have "length (f_pcs s) = Suc (length (gm_del i (f_pcs s)))"
    using call_leaves calculation(2) by (intro length_del) simp_all
  ultimately show ?thesis
    using call_leaves assms(2) by (auto simp: flight_inv_def Let_def loaded_leave alm.inv_del split: if_splits)
next
  case (node_added x sortf)
  have inv: "f_cs s = loaded (int (length (f_pcs s))) (serial cs0 (f_log s))" "gm_inv (f_pcs s)"
    "cs_nodeID (serial cs0 (f_log s)) = cs_nodeID cs0"
    using assms(2) by (simp_all add: flight_inv_def Let_def)
  then show ?thesis
    using node_added assms(2) in_order_snoc
    by (intro flight_inv_event [OF assms(2), of "Node_added sortf x"]) (auto simp: loaded_AddNode flight_inv_def)
next
  case (node_removed x r b cb)
  have inv: "f_cs s = loaded (int (length (f_pcs s))) (serial cs0 (f_log s))" "gm_inv (f_pcs s)"
    "cs_nodeID (serial cs0 (f_log s)) = cs_nodeID cs0"
    using assms(2) by (simp_all add: flight_inv_def Let_def)
  have "set_ring r (f_cs s) = loaded (int (length (f_pcs s))) (do_event (serial cs0 (f_log s)) (Node_removed x))"
    using node_removed(2,3) loaded_RemoveNode [of x "serial cs0 (f_log s)" "int (length (f_pcs s))" r b cb] unfolding inv(1) by simp
  then show ?thesis
    using node_removed(1,2) inv assms(2) in_order_snoc
    by (intro flight_inv_event [OF assms(2), of "Node_removed x"]) (auto simp: flight_inv_def)
next
  case (faults_set fi)
  have inv: "f_cs s = loaded (int (length (f_pcs s))) (serial cs0 (f_log s))" "gm_inv (f_pcs s)"
    using assms(2) by (simp_all add: flight_inv_def Let_def)
  have "(loaded n cs)\<lparr>cs_fi := fi\<rparr> = loaded n (cs\<lparr>cs_fi := fi\<rparr>)" for n cs by (simp add: loaded_def set_ring_def)
  then show ?thesis
    using faults_set inv assms(2) in_order_snoc
    by (intro flight_inv_event [OF assms(2), of "Faults_set fi"]) (auto simp: flight_inv_def)
qed

lemma flight_run_inv: "flight_run cs0 s \<Longrightarrow> loads_ok (cs_ring cs0) \<Longrightarrow> flight_inv cs0 s"
proof (induction rule: flight_run.induct)
  case flight_init
  then show ?case by (simp add: flight_inv_def loaded_0)
qed (simp add: flight_step_inv)

section \<open>Properties\<close>


definition w_calls :: Flight where
  "w_calls = \<lparr>f_cs = enter (enter (demo_node ''n1'' ''n2'')),
     f_pcs = [(1, Entered demo_env (Call_Get (Inr \<lparr>gq_Key = ''k''\<rparr>))), (2, Entered demo_env (Call_Get (Inr \<lparr>gq_Key = ''j''\<rparr>)))], f_log = []\<rparr>"

lemma w_calls_run: "flight_run (demo_node ''n1'' ''n2'') w_calls"
proof -
  let ?cs = "demo_node ''n1'' ''n2''" and ?c = "\<lambda>k. Call_Get (Inr \<lparr>gq_Key = k\<rparr>)"
  let ?s0 = "\<lparr>f_cs = ?cs, f_pcs = [], f_log = []\<rparr>"
  let ?s1 = "?s0\<lparr>f_cs := enter (f_cs ?s0), f_pcs := gm_put 1 (Entered demo_env (?c ''k'')) (f_pcs ?s0)\<rparr>"
  let ?s2 = "?s1\<lparr>f_cs := enter (f_cs ?s1), f_pcs := gm_put 2 (Entered demo_env (?c ''j'')) (f_pcs ?s1)\<rparr>"
  have fi: "cs_fi ?cs = Some NewFaultInjector" "cs_fi (enter ?cs) = Some NewFaultInjector"
    by (simp_all add: demo_node_def NewCacheServer_def enter_def)
  then have "no_fault demo_env ?cs" "no_fault demo_env (enter ?cs)"
    by (simp_all add: no_fault_def NewFaultInjector_def)
  then have "flight_step ?s0 ?s1" "flight_step ?s1 ?s2"
    by (intro call_enters; simp)+
  then have "flight_run ?cs ?s2" by (intro flight_next [OF flight_next [OF flight_init]])
  then show ?thesis by (simp add: w_calls_def)
qed


end
