(* ===== verification/Packets.thy ===== *)
theory Packets
  imports Wire
begin

text \<open>
  The size of the packets of the membership protocol against the largest UDP packet,
  \<open>maxUDPPacketSize\<close>. A larger packet is not sent: \<open>WriteToUDP\<close> fails, and most callers ignore its error.
\<close>

definition maxUDPPacketSize :: nat where
  "maxUDPPacketSize = 65507"

definition packet :: "SwimMessage \<Rightarrow> string" where
  "packet msg = codec_Marshal SwimMessage_kind (SwimMessage_val True msg)"

section \<open>Sizes of texts\<close>

lemma quote_length: "length (json_quote s) \<le> 6 * length s"
proof (induction s rule: json_quote.induct)
  case (1 s)
  show ?case
  proof (cases s)
    case (Cons c cs)
    have esc: "length (escape c) \<le> 6" by (simp add: escape_def)
    show ?thesis
    proof (cases "code c < 0x80 \<or> rune_size s = 0")
      case True
      with Cons 1(1,2) esc show ?thesis by (subst json_quote.simps) (auto simp: Cons)
    next
      case False
      let ?n = "rune_size s"
      have "?n \<le> length s" by (rule rune_size_le)
      then have "length (quote_rune (take ?n s)) \<le> 6 * ?n"
        using False by (auto simp: quote_rune_def)
      moreover have "length (json_quote (drop ?n s)) \<le> 6 * length (drop ?n s)"
        using False Cons 1(3) by simp
      ultimately show ?thesis
        using False Cons \<open>?n \<le> length s\<close> by (subst json_quote.simps) (simp add: Cons)
    qed
  qed simp
qed

lemma quote_safe: "code c < 128 \<Longrightarrow> html_safe c \<Longrightarrow> json_quote (c # s) = c # json_quote s"
  by (subst json_quote.simps) simp

lemma fmt_d_length: "n < 10 ^ k \<Longrightarrow> 0 < k \<Longrightarrow> length (fmt_d n) \<le> k"
proof (induction n arbitrary: k rule: fmt_d.induct)
  case (1 n)
  show ?case
  proof (cases "n < 10")
    case True
    with 1(3) show ?thesis by (simp add: fmt_d.simps [of n])
  next
    case False
    then obtain j where j: "k = Suc j" "0 < j" using 1(2,3) by (cases k; cases "k = 1") auto
    then have "n div 10 < 10 ^ j" using 1(2) by (simp add: less_mult_imp_div_less mult.commute)
    with 1(1) False j show ?thesis by (simp add: fmt_d.simps [of n])
  qed
qed

lemma fmt_int_length: "\<bar>i\<bar> < 2 ^ 64 \<Longrightarrow> length (fmt_int i) \<le> 21"
proof -
  assume "\<bar>i\<bar> < 2 ^ 64"
  then have "nat \<bar>i\<bar> < 10 ^ 20" by simp
  then have "length (fmt_d (nat \<bar>i\<bar>)) \<le> 20" by (rule fmt_d_length) simp
  then show ?thesis by (auto simp: fmt_int_def abs_if split: if_splits)
qed

lemma fmt_int_pos: "1 \<le> length (fmt_int i)"
  by (simp add: fmt_int_def Suc_le_eq)

lemma elem_length_le:
  assumes "\<And>j. j \<in> set js \<Longrightarrow> length (text_of (tokens j)) \<le> n"
  shows "length (text_of (elem_tokens js)) \<le> length js * Suc n"
  using assms
proof (induction js)
  case (Cons j js)
  have "length (text_of (tokens j)) \<le> n" "length (text_of (elem_tokens js)) \<le> length js * Suc n" using Cons by auto
  then show ?case by simp
qed simp

lemma elem_length_ge:
  assumes "\<And>j. j \<in> set js \<Longrightarrow> n \<le> length (text_of (tokens j))"
  shows "length js * n \<le> length (text_of (elem_tokens js))"
  using assms
proof (induction js)
  case (Cons j js)
  have "n \<le> length (text_of (tokens j))" "length js * n \<le> length (text_of (elem_tokens js))" using Cons by auto
  then show ?case by (cases "js = []") simp_all
qed simp

lemma enc_elems_map: "enc_elems k vs = map (enc k) vs"
  by (induction vs) simp_all

section \<open>Updates and messages\<close>

definition short :: "string \<Rightarrow> bool" where
  "short s \<longleftrightarrow> length s \<le> 200"

definition short_update :: "MembershipUpdate \<Rightarrow> bool" where
  "short_update u \<longleftrightarrow> short (u_NodeID u) \<and> short (u_GRPCAddr u) \<and> short (u_GossipAddr u) \<and> short (u_HTTPAddr u) \<and> status_ok (u_Status u)"

definition short_msg :: "SwimMessage \<Rightarrow> bool" where
  "short_msg m \<longleftrightarrow> short (s_SenderID m) \<and> short (s_SenderAddr m) \<and> short (s_TargetID m) \<and> type_ok (s_Type m) \<and>
     (\<forall>u \<in> set (s_Updates m). short_update u)"

lemma short_quote: "short s \<Longrightarrow> length (json_quote s) \<le> 1200"
  using quote_length [of s] by (simp add: short_def)

lemma update_length:
  assumes "short_update u"
  shows "length (text_of (tokens (enc MembershipUpdate_kind (MembershipUpdate_val u)))) \<le> 5000"
proof -
  have "\<bar>status_int (u_Status u)\<bar> < 2 ^ 64"
    using assms status_int_range [of "u_Status u"] by (auto simp: short_update_def)
  from fmt_int_length [OF this] fmt_int_length [of "uint (u_Incarnation u)"] assms show ?thesis
    using short_quote [of "u_NodeID u"] short_quote [of "u_GRPCAddr u"] short_quote [of "u_GossipAddr u"] short_quote [of "u_HTTPAddr u"]
      uint64_range [of "u_Incarnation u"]
    by (simp add: short_update_def MembershipUpdate_kind_def MembershipUpdate_val_def quote_safe html_safe_def)
qed

lemma update_length_ge: "88 \<le> length (text_of (tokens (enc MembershipUpdate_kind (MembershipUpdate_val u))))"
  using fmt_int_pos [of "status_int (u_Status u)"] fmt_int_pos [of "uint (u_Incarnation u)"]
  by (simp add: MembershipUpdate_kind_def MembershipUpdate_val_def quote_safe html_safe_def del: length_greater_0_conv)

lemma packet_text:
  "length (packet msg) = 71 + length (fmt_int (type_int (s_Type msg))) + length (json_quote (s_SenderID msg)) +
     length (json_quote (s_SenderAddr msg)) + length (json_quote (s_TargetID msg)) + length (fmt_int (uint (s_Incarnation msg))) +
     (if s_Updates msg = [] then 0
      else 13 + length (text_of (elem_tokens (map (\<lambda>u. enc MembershipUpdate_kind (MembershipUpdate_val u)) (s_Updates msg)))))"
  by (simp add: packet_def codec_Marshal_def Marshal_def write_json_def SwimMessage_kind_def SwimMessage_val_def enc_elems_map
      quote_safe html_safe_def o_def)

lemma packet_le:
  assumes "short_msg msg" "length (s_Updates msg) \<le> maxPiggybackUpdates"
  shows "length (packet msg) \<le> maxUDPPacketSize"
proof -
  have t: "\<bar>type_int (s_Type msg)\<bar> < 2 ^ 64" using assms(1) type_int_range [of "s_Type msg"] by (auto simp: short_msg_def)
  let ?js = "map (\<lambda>u. enc MembershipUpdate_kind (MembershipUpdate_val u)) (s_Updates msg)"
  have "length (text_of (elem_tokens ?js)) \<le> length ?js * Suc 5000"
    using assms(1) by (intro elem_length_le) (auto simp: short_msg_def update_length)
  also have "\<dots> \<le> 10 * Suc 5000" using assms(2) by (simp add: maxPiggybackUpdates_def)
  finally show ?thesis
    using assms(1) short_quote [of "s_SenderID msg"] short_quote [of "s_SenderAddr msg"] short_quote [of "s_TargetID msg"]
      fmt_int_length [OF t] fmt_int_length [of "uint (s_Incarnation msg)"] uint64_range [of "s_Incarnation msg"]
    by (simp add: packet_text short_msg_def maxUDPPacketSize_def)
qed

lemma packet_ge: "88 * length (s_Updates msg) \<le> length (packet msg)"
proof -
  let ?js = "map (\<lambda>u. enc MembershipUpdate_kind (MembershipUpdate_val u)) (s_Updates msg)"
  have "length ?js * 88 \<le> length (text_of (elem_tokens ?js))"
    by (intro elem_length_ge) (auto intro: update_length_ge)
  then show ?thesis by (simp add: packet_text)
qed

section \<open>Properties\<close>

text \<open>
  C40. What fits into a packet. With ids and addresses of at most 200 bytes every ping that a
  node writes fits into one UDP packet, ten updates included, however its strings are escaped.
  The reply to a join is not limited in this way: it lists the whole registry, and from 745
  known nodes on it is longer than any UDP packet.
\<close>
theorem packets_fit:
  assumes "swim_reach self s" "n_Status self \<noteq> StatusSuspect" "(addr, msg) \<in> set (m_out (sw_m s))"
    and "s_Type msg = MsgPing" "short_msg msg" "range_order rng"
  shows "length (packet msg) \<le> maxUDPPacketSize \<and>
    (745 \<le> reg_Size (m_registry m) \<longrightarrow>
       (\<exists>reply. m_out (handleJoin rng m from') = m_out m @ [(from', reply)] \<and> maxUDPPacketSize < length (packet reply)))"
proof -
  have "length (s_Updates msg) \<le> maxPiggybackUpdates"
    using swim_reach_inv [OF assms(1,2)] assms(3,4) by (auto simp: sw_inv_def out_ok_def)
  moreover have "maxUDPPacketSize < length (packet (swim_msg m MsgAck [] (map node_update (GetAll rng (m_registry m)))))"
    if "745 \<le> reg_Size (m_registry m)"
  proof -
    have "length (GetAll rng (m_registry m)) = reg_Size (m_registry m)"
      using range_order.rng_length [OF assms(6)] by (simp add: GetAll_def reg_Size_def)
    then show ?thesis
      using that packet_ge [of "swim_msg m MsgAck [] (map node_update (GetAll rng (m_registry m)))"]
      by (simp add: swim_msg_def maxUDPPacketSize_def)
  qed
  ultimately show ?thesis using packet_le [OF assms(5)] by (simp add: handleJoin_def WriteToUDP_def)
qed

definition w_pings :: Swim where
  "w_pings = (let p = pingRandomMember (w_env\<lparr>pe_resolve := Some\<rparr>) (sw_m w_knows) in w_knows\<lparr>sw_m := fst p, sw_ping := snd p\<rparr>)"

lemma w_pings_reach: "swim_reach node_a w_pings"
proof -
  have env: "env_inv (w_env\<lparr>pe_resolve := Some\<rparr>)"
    by (simp add: env_inv_def rng_insertion.range_order_axioms)
  have "swim_step w_knows w_pings"
    unfolding w_pings_def Let_def by (rule ping_tick [OF _ _ env]) code_simp+
  with w_knows_reach show ?thesis by (rule reach_step)
qed

theorem packets_fit_witness:
  "s_Type (snd (last (m_out (sw_m w_pings)))) = MsgPing \<and> length (packet (snd (last (m_out (sw_m w_pings))))) \<le> maxUDPPacketSize"
proof -
  have "last (m_out (sw_m w_pings)) \<in> set (m_out (sw_m w_pings))" by code_simp
  then have "(fst (last (m_out (sw_m w_pings))), snd (last (m_out (sw_m w_pings)))) \<in> set (m_out (sw_m w_pings))" by simp
  moreover have ping: "s_Type (snd (last (m_out (sw_m w_pings)))) = MsgPing" by code_simp
  moreover have "short_msg (snd (last (m_out (sw_m w_pings))))" by code_simp
  ultimately show ?thesis
    using packets_fit [OF w_pings_reach w_alive _ _ _ rng_insertion.range_order_axioms] by blast
qed

end
