(* ===== verification/Spec2Isabelle.thy ===== *)
theory Spec2Isabelle
  imports Sweeper Ring_Correct Mitigator L1_Cache Replication Swim Node Client Http Wire Loadtest Tools Lifecycle
    Network Admin Key_Transfer Inflight Packets
begin

text \<open>
  A distributed in-memory cache in Go: model and correctness.

  \<^bold>\<open>The program.\<close> A cluster of cache nodes and a client library. A node
  (\<open>cmd/cachenode/main.go\<close>) has a sharded key-value store with expiry (\<open>internal/store\<close>), a
  consistent-hashing ring with bounded loads (\<open>internal/hashing\<close>), a replication manager
  (\<open>internal/cluster/replication.go\<close>), the SWIM membership protocol
  (\<open>internal/cluster/membership.go\<close>, \<open>node.go\<close>), a hot-key detector and mitigator
  (\<open>internal/hotkey\<close>), a fault injector (\<open>internal/chaos\<close>), the gRPC service
  (\<open>internal/server/grpc_server.go\<close>, \<open>service.go\<close>) and an HTTP admin server
  (\<open>http_server.go\<close>). Membership events change the ring, the ring decides which node owns a
  key, a node that does not own a key passes the request on, and the owner replicates writes to
  the following nodes. The client (\<open>client\<close>) builds the same ring, sends each key to its owner and
  keeps hot keys in a local LRU cache. Calls, replies and membership packets travel as JSON
  (\<open>api/proto\<close>). Four programs under \<open>cmd\<close> drive the client or a connection.

  \<^bold>\<open>The theories.\<close> Each opens with what its parameters stand for.

  \<^item> \<open>Prelude\<close>: integers at their width, durations and instants, FNV hashes, decimal printing, and
    facts on lists, folds and words. \<open>Go_Map\<close>: Go maps as association lists, with the contracts
    \<open>go_map\<close> of their operations and \<open>range_order\<close> of their iteration.

  \<^item> \<open>Store\<close> and \<open>Store_Correct\<close>: \<open>store.go\<close>, each critical section as an operation. Interleaved
    critical sections refine a flat map with expiry; round trips; \<open>Keys\<close>, \<open>Len\<close> and \<open>ForEach\<close>
    for every iteration order; the constructor. \<open>Sweeper\<close>: \<open>ttl.go\<close>; a sweep ends, is safe, and
    one tick per shard reclaims an expired store.

  \<^item> \<open>Hash_Ring\<close> and \<open>Ring_Correct\<close>: \<open>ring.go\<close>. Reachable rings are sorted and complete, lookups
    walk the ring clockwise, changes of membership move only the keys they must, and the load
    bound is respected.

  \<^item> \<open>Hot_Key\<close> and \<open>Mitigator\<close>: \<open>detector.go\<close>, \<open>mitigator.go\<close>. Error bounds of the count-min
    sketch, no missed hot key, and readable shard copies.

  \<^item> \<open>Messages\<close> and \<open>Replication\<close>: \<open>messages.go\<close>, \<open>replication.go\<close>. One primary per key, and
    failover re-replicates what the node owns.

  \<^item> \<open>Chaos\<close>: \<open>faultinjector.go\<close>, \<open>endpoints.go\<close>. What each fault does to calls, and the errors
    and effects of the endpoints.

  \<^item> \<open>Registry\<close>, \<open>Membership\<close>, \<open>Gossip\<close>, \<open>Swim\<close>, \<open>Events\<close>: \<open>node.go\<close> and \<open>membership.go\<close>. Every
    handler, the gossip queue, and the two loops with their timers as the step relation
    \<open>swim_move\<close>, where a loop that waits is a program counter (\<open>ping_pc\<close>, \<open>recv_pc\<close>) and the packets that
    can arrive are a parameter; \<open>swim_step\<close> lets any packet arrive. Invariant of reachable states,
    suspicion and refutation, joining, and the view of the membership that the sequence of
    emitted events gives. \<open>Network\<close>: all members at once, where what arrives is what a member has
    written, lost, repeated and delivered in any order. Nobody is ahead of a node about itself, a
    node's own announcement prevails everywhere, and it answers every rumour about itself with an
    announcement that nothing in circulation can override.

  \<^item> \<open>Server\<close>: the service. Calls of any kind keep a node well formed and release the load they
    took; errors stop before the handlers. \<open>Cluster\<close>: several servers, with the forwarded calls of
    one answered by another. Read your writes through any node; replicas that receive the
    primary's requests in order agree with it. Two sets at once can break the agreement. \<open>Inflight\<close>:
    concurrent calls of one server, each entering, running its body and leaving; the load counter
    is the number of calls in flight and disturbs nothing else. \<open>Key_Transfer\<close>: both ends of the stream
    of \<open>TransferKeys\<close>; its reader finds the live entries of the store.

  \<^item> \<open>Config\<close>: \<open>config.go\<close> and the command line. \<open>Node\<close>: the wiring of \<open>main.go\<close> and a running
    node as \<open>node_step\<close>, a step being one of the protocol, a service call, a chaos request, a sweep,
    a decay tick, an event delivered or a replication sent. The ring follows the membership.

  \<^item> \<open>L1_Cache\<close>: \<open>l1cache.go\<close>, linked list and map refine an LRU list. \<open>Client\<close>: \<open>client.go\<close>. The
    client routes to the servers' primary, and its local cache, through the contract
    \<open>local_cache\<close>, returns only what this client was last told. \<open>Http\<close>: \<open>http_server.go\<close>, the mux with the routes of
    the admin server and of the chaos endpoints, and the handlers.

  \<^item> \<open>Json_Text\<close>, \<open>Json\<close>, \<open>Codec\<close>: the part of \<open>encoding/json\<close> that \<open>codec.go\<close> and the membership
    protocol call: UTF-8, quoting, numbers, base64, the scanner with its stack, and the decoding
    into a value by its kind. What was written is read back. \<open>Message_Codec\<close>: \<open>codec.go\<close> and the
    kinds of the messages of \<open>messages.go\<close>, each an interpretation of the contract \<open>wire_type\<close>.
    \<open>Wire\<close>: service calls and membership packets as text. They survive the wire with their strings
    made UTF-8, so keys that differ only outside UTF-8 are confused. \<open>Packets\<close>: the length of
    membership packets as text. \<open>Admin\<close>: \<open>ServeHTTP\<close> from the text of a request, which \<open>Decode\<close> reads as
    \<open>json.Decoder\<close> does, to the text of the reply; replies read back, and requests set the fault
    they name.

  \<^item> \<open>Loadtest\<close>: \<open>cmd/loadtest\<close>, the workers interleaved. Every operation is counted once.
    \<open>Tools\<close>: \<open>cmd/client\<close>, \<open>pingtest\<close> and \<open>hotkeytest\<close> against a cluster with state. A hot key moves
    into the local cache; the example client reads back what it wrote; a set between the two
    halves of a get leaves a stale value.

  \<^item> \<open>Lifecycle\<close>: the process of a node, with the \<open>Start\<close> and \<open>Stop\<close> methods of its servers and loops and
    the shutdown of \<open>main.go\<close>. The shutdown can always complete, and panics only when it closes the
    replication manager while something is under way.

  \<^bold>\<open>How the code is represented.\<close> A struct is a record and a pointer to a component is the
  component itself, held once by its owner. A critical section, or a handler of a server, is one
  atomic operation; goroutines are steps of a relation or pending work in a list. Every reading of
  the clock is an argument, also where two readings of one call can differ. Counters, hashes,
  incarnations and durations keep their 64-bit width, and a multiplication or addition that can
  wrap is written out. Maps are iterated in an arbitrary order, \<open>sort.Slice\<close> is any sorting
  function, random draws are arguments. A panic is \<open>None\<close>, or the flag \<open>cs_panicked\<close> in a server;
  errors are values.

  \<^bold>\<open>Parameters.\<close> The float rounding \<open>fl\<close>, YAML decoding, name resolution, and the outcomes of
  dialling, of remote calls and of socket writes, and the wording of a decoder's error message. Where a result needs a law of one of these, it
  is the assumption of a contract (\<open>vnode_sort\<close>, \<open>range_order\<close>) or a hypothesis.

  \<^bold>\<open>Bounds.\<close> Loops are recursive functions with a termination proof. The only loop that may
  not end is the rounding of \<open>NewWithShards\<close>, \<open>None\<close> exactly above \<open>2 ^ 62\<close> shards. There is no
  fuel. The loops of the protocol, of the load test and of the process are step relations; a run of
  the load test has at most 30000008 steps.

  \<^bold>\<open>Not modelled.\<close> UDP and gRPC framing, deadlines and connection management, which are library
  code; a connection is its address and a call its outcome. JSON floats, which no type of the program
  has. Of \<open>http.ServeMux\<close>, the cleaning of paths and its redirects. A member that restarts under its
  old name in \<open>Network\<close>. Goroutine interleavings inside the body of a handler of the server, finer
  than \<open>Inflight\<close>, where each call of the store takes locks of its own; the store, the membership
  protocol and the workers of the load test have such interleavings, and \<open>Cluster\<close> and \<open>Tools\<close> show
  one each for \<open>Set\<close> and for the client. Binding of addresses beyond its outcome, the operating system's signal (the
  shutdown may begin at any time), logging, and the formatting of printed lines. Benchmarks and
  tests.
\<close>

end
